(* ===== verification/Prelude.thy ===== *)
theory Prelude
  imports "HOL-Library.Word"
begin

text \<open>
  The prelude of the development: the C types the program uses, the ways a C program
  can go wrong, the result type in which every raise of those is a value, and the
  generic lemmas on lists, arithmetic and words the component theories share.
\<close>

section \<open>C types\<close>

text \<open>
  The code runs on a 64-bit Linux. \<open>size_t\<close>, \<open>ssize_t\<close> and \<open>loff_t\<close> are 64 bits wide;
  \<open>char\<close> is a byte, and HOL's \<open>char\<close> has exactly the 256 values of a byte.
\<close>

type_synonym u8 = "8 word"
type_synonym u32 = "32 word"
type_synonym u64 = "64 word"

type_synonym bytes = "char list"

abbreviation NL :: char where "NL \<equiv> CHR 0x0A"
abbreviation NUL :: char where "NUL \<equiv> CHR 0x00"

section \<open>Undefined behaviour as a value\<close>

text \<open>
  What the C standard leaves undefined, what makes the kernel oops, what blocks for ever and a
  signal that ends the process because nobody handles it are values of the model, so a theorem that a function returns \<open>Inr\<close> says that
  none of them happens.
\<close>

datatype fault =
    Null_Deref
  | Use_After_Free
  | Double_Free
  | Out_Of_Bounds
  | Uninitialised
  | Signed_Overflow
  | Deadlock
  | Nonterminating
  | Killed

type_synonym 'a res = "fault + 'a"

definition bind_res :: "'a res \<Rightarrow> ('a \<Rightarrow> 'b res) \<Rightarrow> 'b res" where
  "bind_res m f = (case m of Inl e \<Rightarrow> Inl e | Inr x \<Rightarrow> f x)"

named_theorems res_iff \<open>inversion of a successful or faulting result\<close>

lemma bind_res_simps [simp]:
  "bind_res (Inl e) f = Inl e"
  "bind_res (Inr x) f = f x"
  by (simp_all add: bind_res_def)

lemma bind_res_Inr_iff [res_iff]:
  "bind_res m f = Inr y \<longleftrightarrow> (\<exists>x. m = Inr x \<and> f x = Inr y)"
  by (cases m) auto

lemma bind_res_Inl_iff [res_iff]:
  "bind_res m f = Inl e \<longleftrightarrow> m = Inl e \<or> (\<exists>x. m = Inr x \<and> f x = Inl e)"
  by (cases m) auto

lemma bind_res_cong [fundef_cong]:
  "m = m' \<Longrightarrow> (\<And>x. m' = Inr x \<Longrightarrow> f x = f' x) \<Longrightarrow> bind_res m f = bind_res m' f'"
  by (cases m') auto

lemma bind_res_assoc: "bind_res (bind_res m f) g = bind_res m (\<lambda>x. bind_res (f x) g)"
  by (cases m) auto

section \<open>Lists\<close>

lemma map_upt_Suc_hd:
  "map f [0..<Suc n] = f 0 # map (\<lambda>k. f (Suc k)) [0..<n]"
proof -
  have "[0..<Suc n] = 0 # map Suc [0..<n]"
    by (subst upt_conv_Cons) (simp_all add: map_Suc_upt del: upt_Suc)
  then show ?thesis by (simp add: o_def)
qed

lemma concat_replicate_Nil [simp]: "concat (replicate n []) = []"
  by (induction n) auto

lemma take_append_min: "take n (xs @ ys) = take (min n (length xs)) xs @ take (n - length xs) ys"
  by (simp add: min_def)

lemma sum_list_map_upt_split:
  "sum_list (map f [0..<n]) = (\<Sum>k<n. f k)" for f :: "nat \<Rightarrow> nat"
  by (simp add: interv_sum_list_conv_sum_set_nat atLeast0LessThan)

lemma notin_takeWhile_neq: "x \<notin> set (takeWhile (\<lambda>y. y \<noteq> x) xs)"
  by (auto dest: set_takeWhileD)

lemma dropWhile_neq_split: "x \<in> set xs \<Longrightarrow>
    xs = takeWhile (\<lambda>y. y \<noteq> x) xs @ x # tl (dropWhile (\<lambda>y. y \<noteq> x) xs)"
  by (induction xs) auto

lemma takeWhile_snoc_stop: "\<not> P x \<Longrightarrow> takeWhile P (xs @ [x]) = takeWhile P xs"
  by (simp add: takeWhile_append takeWhile_eq_all_conv [THEN iffD2])

lemma takeWhile_terminated: "x \<notin> set xs \<Longrightarrow> takeWhile (\<lambda>y. y \<noteq> x) (xs @ [x]) = xs"
  by (simp add: takeWhile_snoc_stop takeWhile_eq_all_conv) metis

lemma distinct_filter_nth:
  "(\<And>i j. i < length xs \<Longrightarrow> j < length xs \<Longrightarrow> xs ! i = xs ! j \<Longrightarrow> P (xs ! i) \<Longrightarrow> i = j) \<Longrightarrow>
     distinct (filter P xs)"
proof (induction xs)
  case (Cons x xs)
  have "distinct (filter P xs)" using Cons.prems [of "Suc _" "Suc _"] by (intro Cons.IH) auto
  moreover have "P x \<Longrightarrow> x \<notin> set xs" using Cons.prems [of 0 "Suc _"] by (auto simp: in_set_conv_nth)
  ultimately show ?case by simp
qed simp

section \<open>Arithmetic\<close>

lemma mod_add_cases:
  "(a::nat) < n \<Longrightarrow> b \<le> n \<Longrightarrow> (a + b) mod n = (if a + b < n then a + b else a + b - n)"
  by (auto simp: mod_if)

lemma mod_add_inj:
  assumes "(a + i) mod n = (a + j) mod n" and "i < n" and "j < n"
  shows "i = (j::nat)"
proof -
  have "(int a + int i) mod int n = (int a + int j) mod int n"
    using assms(1) by (metis of_nat_add of_nat_mod)
  then have "int i mod int n = int j mod int n"
    by (metis mod_add_cong add.commute add_diff_cancel_left' mod_diff_left_eq)
  then show ?thesis using assms(2,3) by (metis mod_pos_pos_trivial of_nat_0_le_iff of_nat_eq_iff of_nat_less_iff)
qed

section \<open>Words\<close>

lemma unat_u64_lt: "unat (x :: u64) < 2 ^ 64"
  using unsigned_less [of x, where 'a = nat] by simp

lemma unat_of_nat_u64: "n < 2 ^ 64 \<Longrightarrow> unat (of_nat n :: u64) = n"
  by (simp add: unat_of_nat)

lemma unat_add_u64: "unat a + unat b < 2 ^ 64 \<Longrightarrow> unat (a + b :: u64) = unat a + unat b"
  by (simp add: unat_word_ariths)

lemma unat_sub_u64: "b \<le> a \<Longrightarrow> unat (a - b :: u64) = unat a - unat b"
  by (simp add: unat_sub word_le_nat_alt)

lemma unat_ucast_u32: "unat (ucast (x :: u32) :: u64) = unat x"
  by (simp add: unsigned_ucast_eq take_bit_nat_eq_self unsigned_less [THEN less_trans])

lemma sint_of_small:
  assumes "unat (x :: u64) < 2 ^ 63"
  shows "sint x = int (unat x)"
proof -
  have "int (unat x) < int (2 ^ 63)" using assms by (simp only: of_nat_less_iff)
  then have u: "uint x < 2 ^ 63" by simp
  have "sint x = signed_take_bit 63 (uint x)" by (simp add: sint_uint)
  also have "\<dots> = uint x"
    by (rule signed_take_bit_int_eq_self) (use u uint_nonnegative [of x] in linarith)+
  finally show ?thesis by simp
qed

lemma sum_list_update_add:
  "t < length ps \<Longrightarrow> sum_list (map f (ps[t := p])) + f (ps ! t) = sum_list (map f ps) + f p"
  for f :: "'a \<Rightarrow> nat"
  by (induction ps arbitrary: t) (auto simp: nth_Cons split: nat.split)

end
