(* ===== verification/C_Memory.thy ===== *)
theory C_Memory
  imports Prelude
begin

text \<open>
  The dynamic memory the C code works on, for the kernel module (\<open>kmalloc\<close>, \<open>kfree\<close>,
  \<open>copy_from_user\<close>, \<open>copy_to_user\<close>) and the byte routines of the C library it uses
  (\<open>memcpy\<close>, \<open>memchr\<close>). A block is never handed out twice, so a dangling pointer stays
  recognisable, and every access checks that its block is live and large enough.
\<close>

section \<open>Pointers and blocks\<close>

text \<open>
  \<open>kmalloc(0)\<close> returns \<open>ZERO_SIZE_PTR\<close>, which is not \<open>NULL\<close>, may be passed to \<open>kfree\<close> and
  may not be dereferenced. Pointers are ordered as the addresses are, \<open>NULL\<close> first.
\<close>

datatype ptr = NULL | ZERO_SIZE_PTR | Blk nat

instantiation ptr :: linorder
begin

fun rank_ptr :: "ptr \<Rightarrow> nat" where
  "rank_ptr NULL = 0"
| "rank_ptr ZERO_SIZE_PTR = 1"
| "rank_ptr (Blk b) = b + 2"

definition less_eq_ptr :: "ptr \<Rightarrow> ptr \<Rightarrow> bool" where
  "less_eq_ptr p q \<longleftrightarrow> rank_ptr p \<le> rank_ptr q"

definition less_ptr :: "ptr \<Rightarrow> ptr \<Rightarrow> bool" where
  "less_ptr p q \<longleftrightarrow> rank_ptr p < rank_ptr q"

instance
proof
  fix p q :: ptr
  show "p \<le> q \<Longrightarrow> q \<le> p \<Longrightarrow> p = q"
    by (cases p; cases q) (auto simp: less_eq_ptr_def)
qed (auto simp: less_eq_ptr_def less_ptr_def)

end

text \<open>
  The heap: block \<open>b\<close> is the outcome of the \<open>b\<close>-th call to the allocator, \<open>None\<close> where that
  call failed or the block has been freed since.
\<close>

type_synonym heap = "bytes option list"

definition blk :: "heap \<Rightarrow> nat \<rightharpoonup> bytes" where
  "blk h b = (if b < length h then h ! b else None)"

definition live :: "heap \<Rightarrow> nat set" where
  "live h = dom (blk h)"

text \<open>
  The allocator's answers are a parameter: whether its \<open>n\<close>-th call succeeds, and what the
  fresh block holds before the code writes to it.
\<close>

record kenv =
  kmalloc_ok :: "nat \<Rightarrow> bool"
  kmalloc_junk :: "nat \<Rightarrow> nat \<Rightarrow> char"

definition kmalloc :: "kenv \<Rightarrow> nat \<Rightarrow> heap \<Rightarrow> ptr \<times> heap" where
  "kmalloc env n h =
     (if n = 0 then (ZERO_SIZE_PTR, h)
      else if kmalloc_ok env (length h)
      then (Blk (length h), h @ [Some (map (kmalloc_junk env (length h)) [0..<n])])
      else (NULL, h @ [None]))"

fun kfree :: "ptr \<Rightarrow> heap \<Rightarrow> heap res" where
  "kfree NULL h = Inr h"
| "kfree ZERO_SIZE_PTR h = Inr h"
| "kfree (Blk b) h = (if blk h b = None then Inl Double_Free else Inr (h[b := None]))"

section \<open>Byte access\<close>

text \<open>
  \<open>load p off n\<close> reads the \<open>n\<close> bytes at \<open>p + off\<close>, \<open>store p off bs\<close> writes \<open>bs\<close> there. An
  access of no bytes touches no memory, whatever the pointer.
\<close>

fun load :: "ptr \<Rightarrow> nat \<Rightarrow> nat \<Rightarrow> heap \<Rightarrow> bytes res" where
  "load p off n h =
     (if n = 0 then Inr []
      else case p of
        Blk b \<Rightarrow>
          (case blk h b of
             None \<Rightarrow> Inl Use_After_Free
           | Some bs \<Rightarrow>
               if off + n \<le> length bs then Inr (take n (drop off bs)) else Inl Out_Of_Bounds)
      | _ \<Rightarrow> Inl Null_Deref)"

fun store :: "ptr \<Rightarrow> nat \<Rightarrow> bytes \<Rightarrow> heap \<Rightarrow> heap res" where
  "store p off xs h =
     (if xs = [] then Inr h
      else case p of
        Blk b \<Rightarrow>
          (case blk h b of
             None \<Rightarrow> Inl Use_After_Free
           | Some bs \<Rightarrow>
               if off + length xs \<le> length bs
               then Inr (h[b := Some (take off bs @ xs @ drop (off + length xs) bs)])
               else Inl Out_Of_Bounds)
      | _ \<Rightarrow> Inl Null_Deref)"

declare load.simps [simp del] store.simps [simp del]

definition memcpy :: "ptr \<Rightarrow> nat \<Rightarrow> ptr \<Rightarrow> nat \<Rightarrow> nat \<Rightarrow> heap \<Rightarrow> heap res" where
  "memcpy dst doff src soff n h =
     bind_res (load src soff n h) (\<lambda>bs. store dst doff bs h)"

text \<open>
  \<open>memchr\<close> reads byte after byte and stops at the first match, so it leaves its block only
  if there is no match inside it.
\<close>

fun index_of :: "char \<Rightarrow> bytes \<Rightarrow> nat option" where
  "index_of c [] = None"
| "index_of c (x # xs) = (if x = c then Some 0 else map_option Suc (index_of c xs))"

fun memchr :: "ptr \<Rightarrow> nat \<Rightarrow> char \<Rightarrow> nat \<Rightarrow> heap \<Rightarrow> nat option res" where
  "memchr p off c n h =
     (if n = 0 then Inr None
      else case p of
        Blk b \<Rightarrow>
          (case blk h b of
             None \<Rightarrow> Inl Use_After_Free
           | Some bs \<Rightarrow>
               (case index_of c (take n (drop off bs)) of
                  Some i \<Rightarrow> Inr (Some (off + i))
                | None \<Rightarrow> if off + n \<le> length bs then Inr None else Inl Out_Of_Bounds))
      | _ \<Rightarrow> Inl Null_Deref)"

declare memchr.simps [simp del]

text \<open>
  The user-space copies return the number of bytes they could not copy. The accessible
  bytes of the caller's buffer are the list \<open>src\<close> (or the room \<open>room\<close>); \<open>copy_from_user\<close>
  fills what it could not copy with zeros.
\<close>

definition copy_from_user :: "ptr \<Rightarrow> nat \<Rightarrow> bytes \<Rightarrow> nat \<Rightarrow> heap \<Rightarrow> (nat \<times> heap) res" where
  "copy_from_user dst doff src n h =
     bind_res (store dst doff (take n src @ replicate (n - length src) NUL) h)
       (\<lambda>h'. Inr (n - length src, h'))"

definition copy_to_user :: "nat \<Rightarrow> ptr \<Rightarrow> nat \<Rightarrow> nat \<Rightarrow> heap \<Rightarrow> (nat \<times> bytes) res" where
  "copy_to_user room src soff n h =
     bind_res (load src soff (min n room) h) (\<lambda>bs. Inr (n - room, bs))"

text \<open>
  What \<open>printk\<close> reads for a \<open>%s\<close>: the bytes up to the first 0 byte. \<open>NULL\<close> and the other pointers
  into the first page are not followed. A block without a 0 byte is read beyond its end.
\<close>

definition printk_string :: "ptr \<Rightarrow> heap \<Rightarrow> bytes option res" where
  "printk_string p h =
     (case p of
        Blk b \<Rightarrow>
          (case blk h b of
             None \<Rightarrow> Inl Use_After_Free
           | Some bs \<Rightarrow> if NUL \<in> set bs then Inr (Some (takeWhile (\<lambda>c. c \<noteq> NUL) bs)) else Inl Out_Of_Bounds)
      | _ \<Rightarrow> Inr None)"

section \<open>Facts\<close>

lemma blk_append [simp]:
  "blk (h @ [x]) b = (if b = length h then x else blk h b)"
  by (auto simp: blk_def nth_append)

lemma blk_update [simp]:
  "blk (h[b := x]) c = (if c = b \<and> b < length h then x else blk h c)"
  by (auto simp: blk_def)

lemma blk_SomeD: "blk h b = Some bs \<Longrightarrow> b < length h"
  by (auto simp: blk_def split: if_splits)

lemma blk_length [simp]: "blk h (length h) = None"
  by (simp add: blk_def)

lemma blk_beyond: "length h \<le> b \<Longrightarrow> blk h b = None"
  by (simp add: blk_def)

lemma blk_Nil [simp]: "blk [] b = None"
  by (simp add: blk_def)

lemma live_iff: "b \<in> live h \<longleftrightarrow> (\<exists>bs. blk h b = Some bs)"
  by (auto simp: live_def)

lemma live_lt: "b \<in> live h \<Longrightarrow> b < length h"
  by (auto simp: live_iff dest: blk_SomeD)

lemma kmalloc_ok_simp:
  "kmalloc_ok env (length h) \<Longrightarrow> 0 < n \<Longrightarrow>
     kmalloc env n h = (Blk (length h), h @ [Some (map (kmalloc_junk env (length h)) [0..<n])])"
  by (simp add: kmalloc_def)

lemma kmalloc_0 [simp]: "kmalloc env 0 h = (ZERO_SIZE_PTR, h)"
  by (simp add: kmalloc_def)

lemma load_Blk:
  "blk h b = Some bs \<Longrightarrow> off + n \<le> length bs \<Longrightarrow> load (Blk b) off n h = Inr (take n (drop off bs))"
  by (simp add: load.simps)

lemma load_Blk_oob:
  "blk h b = Some bs \<Longrightarrow> length bs < off + n \<Longrightarrow> 0 < n \<Longrightarrow> load (Blk b) off n h = Inl Out_Of_Bounds"
  by (simp add: load.simps)

lemma load_freed: "blk h b = None \<Longrightarrow> 0 < n \<Longrightarrow> load (Blk b) off n h = Inl Use_After_Free"
  by (simp add: load.simps)

lemma load_0 [simp]: "load p off 0 h = Inr []"
  by (simp add: load.simps)

lemma store_Nil [simp]: "store p off [] h = Inr h"
  by (simp add: store.simps)

lemma update_same_blk: "blk h b = Some bs \<Longrightarrow> h[b := Some bs] = h"
  by (metis blk_SomeD blk_def list_update_id)

lemma store_Blk:
  "blk h b = Some bs \<Longrightarrow> off + length xs \<le> length bs \<Longrightarrow>
     store (Blk b) off xs h = Inr (h[b := Some (take off bs @ xs @ drop (off + length xs) bs)])"
  by (cases "xs = []") (simp_all add: store.simps update_same_blk)

lemma index_of_None [simp]: "index_of c xs = None \<longleftrightarrow> c \<notin> set xs"
  by (induction xs) auto

lemma index_of_Some_iff:
  "index_of c xs = Some i \<longleftrightarrow> i < length xs \<and> xs ! i = c \<and> c \<notin> set (take i xs)"
proof (induction xs arbitrary: i)
  case (Cons x xs)
  then show ?case by (cases i) auto
qed simp

lemma index_of_in: "c \<in> set xs \<Longrightarrow> \<exists>i. index_of c xs = Some i \<and> i < length xs"
  using index_of_None [of c xs] index_of_Some_iff [of c xs] by (cases "index_of c xs") auto

lemma index_of_split: "c \<notin> set xs \<Longrightarrow> index_of c (xs @ c # ys) = Some (length xs)"
  by (induction xs) auto

lemma memchr_Some_bounds:
  "memchr p off c n h = Inr (Some i) \<Longrightarrow> off \<le> i \<and> i < off + n"
  by (auto simp: memchr.simps index_of_Some_iff split: if_splits ptr.splits option.splits)

lemma memchr_Blk:
  "blk h b = Some bs \<Longrightarrow> off + n \<le> length bs \<Longrightarrow>
     memchr (Blk b) off c n h = Inr (map_option ((+) off) (index_of c (take n (drop off bs))))"
  by (auto simp: memchr.simps split: option.splits)

lemma memchr_0 [simp]: "memchr p off c 0 h = Inr None"
  by (simp add: memchr.simps)

section \<open>The heap as a map\<close>

text \<open>
  Every operation that succeeds changes the map \<open>blk h\<close> at one block. The proofs about
  sequences of operations work on that map.
\<close>

named_theorems heap_map \<open>the map of a heap after an operation\<close>

lemma blk_append_map [heap_map]: "blk (h @ [x]) = (blk h)(length h := x)"
  by (auto simp: fun_eq_iff)

lemma blk_update_map [heap_map]: "b < length h \<Longrightarrow> blk (h[b := x]) = (blk h)(b := x)"
  by (auto simp: fun_eq_iff)

lemma kfree_map:
  assumes "blk h b = Some bs"
  shows "\<exists>h'. kfree (Blk b) h = Inr h' \<and> blk h' = (blk h)(b := None) \<and> length h' = length h"
  using assms by (auto simp: heap_map dest: blk_SomeD)

lemma memcpy_whole:
  assumes "blk h src = Some bs" and "off + n \<le> length bs" and "blk h dst = Some xs" and "length xs = n"
  shows "memcpy (Blk dst) 0 (Blk src) off n h = Inr (h[dst := Some (take n (drop off bs))])"
  using assms by (simp add: memcpy_def load_Blk store_Blk)

text \<open>The code's idiom: allocate, then copy a part of another block into the whole new one.\<close>

lemma alloc_copy:
  assumes "kmalloc_ok env (length h)" and "0 < n"
    and "blk h src = Some bs" and "off + n \<le> length bs"
  shows "\<exists>h1 h2. kmalloc env n h = (Blk (length h), h1)
    \<and> memcpy (Blk (length h)) 0 (Blk src) off n h1 = Inr h2
    \<and> blk h2 = (blk h)(length h \<mapsto> take n (drop off bs)) \<and> length h2 = Suc (length h)"
proof -
  let ?j = "map (kmalloc_junk env (length h)) [0..<n]"
  have "src < length h" using assms(3) by (rule blk_SomeD)
  then have "memcpy (Blk (length h)) 0 (Blk src) off n (h @ [Some ?j])
      = Inr ((h @ [Some ?j])[length h := Some (take n (drop off bs))])"
    using assms by (intro memcpy_whole) auto
  then show ?thesis using assms(1,2) by (simp add: kmalloc_ok_simp heap_map)
qed

section \<open>Ownership\<close>

text \<open>
  \<open>owns h ps\<close>: the live blocks are exactly those \<open>ps\<close> points to, each once. A program that
  keeps it neither leaks a block nor keeps a dangling or a doubly owned pointer.
\<close>

definition owns :: "heap \<Rightarrow> ptr list \<Rightarrow> bool" where
  "owns h ps \<longleftrightarrow> distinct ps \<and> set ps = Blk ` live h"

lemma owns_Nil: "owns h [] \<longleftrightarrow> live h = {}"
  by (auto simp: owns_def)

lemma owns_move: "owns h (ps @ p # qs) \<longleftrightarrow> owns h (p # ps @ qs)"
  by (auto simp: owns_def)

lemma owns_snoc: "owns h (ps @ [p]) \<longleftrightarrow> owns h (p # ps)"
  by (simp add: owns_move)

lemma owns_alloc:
  "owns h ps \<Longrightarrow> blk h b = None \<Longrightarrow> blk h' = (blk h)(b \<mapsto> x) \<Longrightarrow> owns h' (Blk b # ps)"
  by (auto simp: owns_def live_def)

lemma owns_free:
  assumes "owns h (Blk b # ps)" and "blk h' = (blk h)(b := None)"
  shows "owns h' ps"
proof -
  have "set ps = Blk ` live h - {Blk b}"
    using assms(1) by (simp add: owns_def flip: set_simps(2)) (auto simp: owns_def)
  also have "\<dots> = Blk ` live h'" using assms(2) by (auto simp: live_def)
  finally show ?thesis using assms(1) by (simp add: owns_def)
qed

lemma owns_live: "owns h ps \<Longrightarrow> Blk b \<in> set ps \<Longrightarrow> \<exists>bs. blk h b = Some bs"
  by (auto simp: owns_def live_def)

lemma owns_replace:
  assumes "owns h (Blk b # ps)" and "blk h c = None" and "blk h' = (blk h)(c \<mapsto> x, b := None)"
  shows "owns h' (Blk c # ps)"
proof -
  have "b \<noteq> c" using owns_live [OF assms(1), of b] assms(2) by auto
  have "owns (h[b := None]) ps"
    using owns_live [OF assms(1), of b] by (intro owns_free [OF assms(1)]) (auto simp: heap_map dest: blk_SomeD)
  then have "owns h' (Blk c # ps)"
    using assms(2,3) owns_live [OF assms(1), of b] \<open>b \<noteq> c\<close>
    by (elim owns_alloc) (auto simp: heap_map fun_eq_iff dest: blk_SomeD)
  then show ?thesis .
qed

lemma owns_same: "owns h ps \<Longrightarrow> dom (blk h') = dom (blk h) \<Longrightarrow> owns h' ps"
  by (simp add: owns_def live_def)

lemma owns_reorder: "owns h ps \<Longrightarrow> distinct qs \<Longrightarrow> set qs = set ps \<Longrightarrow> owns h qs"
  by (simp add: owns_def)

text \<open>What a pointer points to, and that it points to a live block of a given size.\<close>

fun contents :: "heap \<Rightarrow> ptr \<Rightarrow> bytes" where
  "contents h (Blk b) = (case blk h b of Some bs \<Rightarrow> bs | None \<Rightarrow> [])"
| "contents h _ = []"

fun holds :: "heap \<Rightarrow> ptr \<Rightarrow> nat \<Rightarrow> bool" where
  "holds h (Blk b) n = (case blk h b of Some bs \<Rightarrow> length bs = n \<and> 0 < n | None \<Rightarrow> False)"
| "holds h _ n = False"

lemma holdsE:
  assumes "holds h p n"
  obtains b bs where "p = Blk b" "blk h b = Some bs" "length bs = n" "0 < n" "contents h p = bs"
  using assms by (cases p) (auto split: option.splits)

lemma holdsD:
  assumes "holds h p n"
  shows "length (contents h p) = n" and "0 < n" and "p \<noteq> NULL" and "contents h p \<noteq> []"
  using assms by (auto elim!: holdsE)

lemma printk_string_holds:
  "holds h p n \<Longrightarrow> printk_string p h =
     (if NUL \<in> set (contents h p) then Inr (Some (takeWhile (\<lambda>c. c \<noteq> NUL) (contents h p)))
      else Inl Out_Of_Bounds)"
  by (erule holdsE) (simp add: printk_string_def)

lemma contents_upd:
  "p \<noteq> Blk b \<Longrightarrow> blk h' = (blk h)(b := x) \<Longrightarrow> contents h' p = contents h p"
  by (cases p) auto

lemma holds_upd:
  "p \<noteq> Blk b \<Longrightarrow> blk h' = (blk h)(b := x) \<Longrightarrow> holds h' p n = holds h p n"
  by (cases p) auto

lemma contents_same: "blk h' = blk h \<Longrightarrow> contents h' p = contents h p"
  by (cases p) auto

lemma holds_same: "blk h' = blk h \<Longrightarrow> holds h' p n = holds h p n"
  by (cases p) auto

end
