(* ===== verification/Bounded_Fifo.thy ===== *)
theory Bounded_Fifo
  imports Prelude
begin

text \<open>
  The contract of a bounded first-in first-out buffer that makes room by evicting its
  oldest element: what the char driver relies on when it hands a command to the circular
  buffer, stated without the array and the offsets. The laws are about one insertion; the
  facts below are about any sequence of insertions.
\<close>

section \<open>Insertions in sequence\<close>

fun put_all :: "('a \<Rightarrow> 'q \<Rightarrow> 'v option \<times> 'q) \<Rightarrow> 'a list \<Rightarrow> 'q \<Rightarrow> 'v list \<times> 'q" where
  "put_all put [] q = ([], q)"
| "put_all put (x # xs) q =
     (case put x q of (v, q') \<Rightarrow>
        (case put_all put xs q' of (vs, q'') \<Rightarrow>
           (case v of None \<Rightarrow> vs | Some y \<Rightarrow> y # vs, q'')))"

section \<open>The contract\<close>

locale bounded_fifo =
  fixes put :: "'a \<Rightarrow> 'q \<Rightarrow> 'v option \<times> 'q"
    and items :: "'q \<Rightarrow> 'a list"
    and key :: "'a \<Rightarrow> 'v"
    and inv :: "'q \<Rightarrow> bool"
    and cap :: nat
  assumes cap_pos: "0 < cap"
    and items_le_cap: "inv q \<Longrightarrow> length (items q) \<le> cap"
    and put_inv: "inv q \<Longrightarrow> inv (snd (put x q))"
    and put_room: "inv q \<Longrightarrow> length (items q) < cap \<Longrightarrow>
      fst (put x q) = None \<and> items (snd (put x q)) = items q @ [x]"
    and put_evict: "inv q \<Longrightarrow> length (items q) = cap \<Longrightarrow>
      fst (put x q) = Some (key (hd (items q))) \<and> items (snd (put x q)) = tl (items q) @ [x]"
begin

lemma put_all_inv: "inv q \<Longrightarrow> inv (snd (put_all put xs q))"
proof (induction xs arbitrary: q)
  case (Cons x xs)
  show ?case using Cons.IH [OF put_inv [OF Cons.prems, of x]]
    by (simp add: case_prod_unfold)
qed simp

lemma put_conserves:
  assumes "inv q"
  shows "(case fst (put x q) of None \<Rightarrow> [] | Some v \<Rightarrow> [v]) @ map key (items (snd (put x q)))
    = map key (items q) @ [key x]"
proof (cases "length (items q) < cap")
  case False
  then have full: "length (items q) = cap" using items_le_cap [OF assms] by simp
  then have "items q \<noteq> []" using cap_pos by auto
  then show ?thesis using put_evict [OF assms full, of x] by (cases "items q") auto
qed (simp add: put_room [OF assms])

text \<open>Nothing is lost and nothing is reordered: what was evicted, then what is stored, is the history.\<close>

lemma put_all_conserves:
  "inv q \<Longrightarrow> fst (put_all put xs q) @ map key (items (snd (put_all put xs q)))
     = map key (items q) @ map key xs"
proof (induction xs arbitrary: q)
  case (Cons x xs)
  obtain v q' where p: "put x q = (v, q')" by (cases "put x q")
  have inv': "inv q'" using put_inv [OF Cons.prems, of x] p by simp
  show ?case
    using put_conserves [OF Cons.prems, of x] Cons.IH [OF inv'] p
    by (auto split: prod.splits option.splits)
qed simp

text \<open>The buffer holds the most recent elements, as many as fit.\<close>

lemma items_put:
  "inv q \<Longrightarrow> items (snd (put x q)) = drop (Suc (length (items q)) - cap) (items q @ [x])"
proof (cases "length (items q) < cap")
  case False
  assume inv: "inv q"
  then have full: "length (items q) = cap" using items_le_cap False by fastforce
  then have "items q \<noteq> []" using cap_pos by auto
  then show ?thesis using put_evict [OF inv full, of x] full by (cases "items q") auto
qed (simp add: put_room)

lemma items_put_all:
  "inv q \<Longrightarrow> items (snd (put_all put xs q))
     = drop (length (items q) + length xs - cap) (items q @ xs)"
proof (induction xs arbitrary: q)
  case Nil
  then show ?case using items_le_cap by simp
next
  case (Cons x xs)
  obtain v q' where p: "put x q = (v, q')" by (cases "put x q")
  have inv': "inv q'" using put_inv [OF Cons.prems, of x] p by simp
  have q': "items q' = drop (Suc (length (items q)) - cap) (items q @ [x])"
    using items_put [OF Cons.prems, of x] p by simp
  have le: "length (items q) \<le> cap" by (rule items_le_cap [OF Cons.prems])
  have "items (snd (put_all put xs q')) = drop (length (items q') + length xs - cap) (items q' @ xs)"
    by (rule Cons.IH [OF inv'])
  also have "items q' @ xs = drop (Suc (length (items q)) - cap) (items q @ x # xs)"
    using le cap_pos by (simp add: q')
  also have "drop (length (items q') + length xs - cap) \<dots>
      = drop (length (items q) + length (x # xs) - cap) (items q @ x # xs)"
    using le cap_pos by (auto simp: q' intro!: arg_cong [where f = "\<lambda>n. drop n _"])
  finally show ?case using p by (simp add: case_prod_unfold)
qed

end

end
