(* ===== verification/Circular_Buffer.thy ===== *)
theory Circular_Buffer
  imports C_Memory Bounded_Fifo
begin

text \<open>
  \<open>aesd-char-driver/aesd-circular-buffer.[ch]\<close>: the array of the ten most recent write
  commands. First the code's data and its three functions, then the list of entries in
  age order that a buffer stands for, and the proof that the functions implement a
  bounded queue and a search on that list.
\<close>

section \<open>The code\<close>

abbreviation (input) AESDCHAR_MAX_WRITE_OPERATIONS_SUPPORTED :: nat where
  "AESDCHAR_MAX_WRITE_OPERATIONS_SUPPORTED \<equiv> 10"

record aesd_buffer_entry =
  buffptr :: ptr
  entry_size :: u64

record aesd_circular_buffer =
  entry :: "aesd_buffer_entry list"
  in_offs :: u8
  out_offs :: u8
  full :: bool

definition zero_entry :: aesd_buffer_entry where
  "zero_entry = \<lparr>buffptr = NULL, entry_size = 0\<rparr>"

text \<open>An access \<open>buffer->entry[i]\<close> is checked against the length of the array.\<close>

definition entry_at :: "aesd_circular_buffer \<Rightarrow> nat \<Rightarrow> aesd_buffer_entry res" where
  "entry_at cb i = (if i < length (entry cb) then Inr (entry cb ! i) else Inl Out_Of_Bounds)"

text \<open>
  The search loop. \<open>iterations\<close> is compared with \<open>=\<close>, as \<open>++iterations == 10\<close> is in the
  code, so that the loop ends is not obvious from its shape; \<open>None\<close> would be a loop
  that does not.
\<close>

partial_function (option) find_loop ::
  "aesd_circular_buffer \<Rightarrow> nat \<Rightarrow> u64 \<Rightarrow> nat \<Rightarrow> (nat \<times> u64) option res option" where
  "find_loop cb index temp iterations =
     (case entry_at cb index of
        Inl e \<Rightarrow> Some (Inl e)
      | Inr ent \<Rightarrow>
          if temp < entry_size ent then Some (Inr (Some (index, temp)))
          else if iterations + 1 = AESDCHAR_MAX_WRITE_OPERATIONS_SUPPORTED then Some (Inr None)
          else find_loop cb ((index + 1) mod AESDCHAR_MAX_WRITE_OPERATIONS_SUPPORTED)
                 (temp - entry_size ent) (iterations + 1))"

declare find_loop.simps [code]

text \<open>
  The result is the index of the entry whose address is returned (\<open>None\<close> for \<open>NULL\<close>) and
  what \<open>entry_offset_byte_rtn\<close> points to afterwards; \<open>None\<close> as an argument is a \<open>NULL\<close> pointer.
\<close>

definition aesd_circular_buffer_find_entry_offset_for_fpos ::
  "aesd_circular_buffer option \<Rightarrow> u64 \<Rightarrow> u64 option \<Rightarrow> (nat option \<times> u64 option) res" where
  "aesd_circular_buffer_find_entry_offset_for_fpos buffer char_offset rtn =
     (case (buffer, rtn) of
        (Some cb, Some old) \<Rightarrow>
          (case find_loop cb (unat (out_offs cb)) char_offset 0 of
             None \<Rightarrow> Inl Nonterminating
           | Some r \<Rightarrow> bind_res r (\<lambda>found.
               case found of
                 None \<Rightarrow> Inr (None, Some old)
               | Some (index, temp) \<Rightarrow> Inr (Some index, Some temp)))
      | _ \<Rightarrow> Inr (None, rtn))"

definition next_offs :: "u8 \<Rightarrow> u8" where
  "next_offs offs = of_nat ((unat offs + 1) mod AESDCHAR_MAX_WRITE_OPERATIONS_SUPPORTED)"

definition aesd_circular_buffer_add_entry ::
  "aesd_circular_buffer option \<Rightarrow> aesd_buffer_entry option \<Rightarrow>
     (ptr \<times> aesd_circular_buffer option) res" where
  "aesd_circular_buffer_add_entry buffer add_entry =
     (case (buffer, add_entry) of
        (Some cb, Some new) \<Rightarrow>
          bind_res
            (if full cb
             then bind_res (entry_at cb (unat (in_offs cb))) (\<lambda>old.
                    Inr (buffptr old,
                      cb\<lparr>out_offs := next_offs (out_offs cb),
                         entry := (entry cb)[unat (in_offs cb) := new]\<rparr>))
             else bind_res (entry_at cb (unat (in_offs cb))) (\<lambda>_.
                    Inr (NULL, cb\<lparr>entry := (entry cb)[unat (in_offs cb) := new]\<rparr>)))
            (\<lambda>(old_entry, cb1).
               let cb2 = cb1\<lparr>in_offs := next_offs (in_offs cb1)\<rparr>;
                   cb3 = (if \<not> full cb2 \<and> in_offs cb2 = out_offs cb2
                          then cb2\<lparr>full := True\<rparr> else cb2)
               in Inr (old_entry, Some cb3))
      | _ \<Rightarrow> Inr (NULL, buffer))"

definition aesd_circular_buffer_init :: aesd_circular_buffer where
  "aesd_circular_buffer_init =
     \<lparr>entry = replicate AESDCHAR_MAX_WRITE_OPERATIONS_SUPPORTED zero_entry,
      in_offs = 0, out_offs = 0, full = False\<rparr>"

text \<open>
  \<open>AESD_CIRCULAR_BUFFER_FOREACH\<close> visits the ten slots in array order. \<open>buffer\<close> reads the
  circular buffer off the state \<open>s\<close> the loop works on, since the body may change it; the
  body sees the index and the entry and says whether the loop goes on (\<open>Inr\<close>) or is left
  by a \<open>break\<close> (\<open>Inl\<close>).
\<close>

function cb_foreach ::
  "('s \<Rightarrow> aesd_circular_buffer) \<Rightarrow> nat \<Rightarrow> (nat \<Rightarrow> aesd_buffer_entry \<Rightarrow> 's \<Rightarrow> ('s + 's) res) \<Rightarrow>
     's \<Rightarrow> 's res" where
  "cb_foreach buffer index body s =
     (if index < AESDCHAR_MAX_WRITE_OPERATIONS_SUPPORTED
      then bind_res (entry_at (buffer s) index) (\<lambda>ent.
             bind_res (body index ent s) (\<lambda>r.
               case r of
                 Inl s' \<Rightarrow> Inr s'
               | Inr s' \<Rightarrow> cb_foreach buffer (index + 1) body s'))
      else Inr s)"
  by pat_completeness auto
termination
  by (relation "measure (\<lambda>(_, index, _). 10 - index)") auto

declare cb_foreach.simps [simp del]

section \<open>Age order\<close>

text \<open>
  Slot \<open>k\<close> counts from the oldest entry: its place in the array is \<open>out_offs + k\<close>, modulo
  ten. \<open>cb_count\<close> slots are in use; the others hold what \<open>memset\<close> left there.
\<close>

definition cb_slot :: "aesd_circular_buffer \<Rightarrow> nat \<Rightarrow> nat" where
  "cb_slot cb k = (unat (out_offs cb) + k) mod 10"

definition cb_count :: "aesd_circular_buffer \<Rightarrow> nat" where
  "cb_count cb =
     (if full cb then 10 else (unat (in_offs cb) + 10 - unat (out_offs cb)) mod 10)"

definition cb_list :: "aesd_circular_buffer \<Rightarrow> aesd_buffer_entry list" where
  "cb_list cb = map (\<lambda>k. entry cb ! cb_slot cb k) [0..<cb_count cb]"

definition cb_wf :: "aesd_circular_buffer \<Rightarrow> bool" where
  "cb_wf cb \<longleftrightarrow>
     length (entry cb) = 10 \<and> unat (in_offs cb) < 10 \<and> unat (out_offs cb) < 10 \<and>
     (full cb \<longrightarrow> in_offs cb = out_offs cb) \<and>
     (\<not> full cb \<longrightarrow> out_offs cb = 0) \<and>
     (\<forall>k<10. cb_count cb \<le> k \<longrightarrow> entry cb ! cb_slot cb k = zero_entry)"

lemma cb_slot_lt [simp]: "cb_slot cb k < 10"
  by (simp add: cb_slot_def)

lemma cb_slot_inj: "cb_slot cb i = cb_slot cb j \<Longrightarrow> i < 10 \<Longrightarrow> j < 10 \<Longrightarrow> i = j"
  by (auto simp: cb_slot_def dest: mod_add_inj)

lemma cb_count_le: "cb_count cb \<le> 10"
  by (simp add: cb_count_def less_imp_le)

lemma length_cb_list [simp]: "length (cb_list cb) = cb_count cb"
  by (simp add: cb_list_def)

lemma cb_list_nth: "k < cb_count cb \<Longrightarrow> cb_list cb ! k = entry cb ! cb_slot cb k"
  by (simp add: cb_list_def)

lemma cb_wfD:
  assumes "cb_wf cb"
  shows "length (entry cb) = 10" "unat (in_offs cb) < 10" "unat (out_offs cb) < 10"
  using assms by (auto simp: cb_wf_def)

lemma unat_next_offs [simp]: "unat (next_offs offs) = (unat offs + 1) mod 10"
  by (simp add: next_offs_def unat_of_nat)

lemma init_wf: "cb_wf aesd_circular_buffer_init"
  by (simp add: cb_wf_def aesd_circular_buffer_init_def cb_slot_def)

lemma init_list [simp]: "cb_list aesd_circular_buffer_init = []"
  by (simp add: cb_list_def cb_count_def aesd_circular_buffer_init_def)

text \<open>The next free slot is slot number \<open>cb_count\<close>; a full buffer reuses slot 0.\<close>

lemma in_offs_slot:
  assumes "cb_wf cb"
  shows "unat (in_offs cb) = cb_slot cb (cb_count cb mod 10)"
  using assms by (auto simp: cb_wf_def cb_slot_def cb_count_def)

section \<open>Adding an entry\<close>

text \<open>What \<open>add_entry\<close> does to a well-formed buffer, as a total function.\<close>

definition cb_put :: "aesd_buffer_entry \<Rightarrow> aesd_circular_buffer \<Rightarrow> ptr option \<times> aesd_circular_buffer" where
  "cb_put e cb =
     (case aesd_circular_buffer_add_entry (Some cb) (Some e) of
        Inr (p, Some cb') \<Rightarrow> (if full cb then Some p else None, cb')
      | _ \<Rightarrow> (None, cb))"

lemma cb_list_hd: "0 < cb_count cb \<Longrightarrow> hd (cb_list cb) = entry cb ! cb_slot cb 0"
  by (simp add: cb_list_def upt_conv_Cons)

lemma full_iff_count: "full cb \<longleftrightarrow> cb_count cb = 10"
proof -
  have "(unat (in_offs cb) + 10 - unat (out_offs cb)) mod 10 < 10" by simp
  then show ?thesis unfolding cb_count_def by (auto simp del: mod_less_divisor)
qed

lemma add_entry_eq:
  assumes "cb_wf cb"
  shows "aesd_circular_buffer_add_entry (Some cb) (Some e) =
    Inr (if full cb then buffptr (hd (cb_list cb)) else NULL, Some (snd (cb_put e cb)))"
proof -
  have "full cb \<Longrightarrow> hd (cb_list cb) = entry cb ! unat (in_offs cb)"
    using in_offs_slot [OF assms] by (simp add: cb_list_hd full_iff_count)
  then show ?thesis
    using cb_wfD [OF assms]
    by (auto simp: cb_put_def aesd_circular_buffer_add_entry_def entry_at_def Let_def)
qed

text \<open>The two branches of the code, as the buffer they leave.\<close>

lemma next_offs_eq_0: "next_offs offs = 0 \<longleftrightarrow> (unat offs + 1) mod 10 = 0"
  by (metis unat_next_offs unat_eq_zero unsigned_0)

lemma not_full_offs:
  assumes "cb_wf cb" and "\<not> full cb"
  shows "out_offs cb = 0" and "unat (in_offs cb) = cb_count cb" and "cb_count cb < 10"
  using assms in_offs_slot [OF assms(1)] cb_count_le [of cb]
  by (auto simp: cb_wf_def cb_slot_def full_iff_count)

lemma cb_put_not_full:
  assumes "cb_wf cb" and "\<not> full cb"
  shows "cb_put e cb =
    (None, cb\<lparr>entry := (entry cb)[cb_count cb := e], in_offs := next_offs (in_offs cb),
              full := cb_count cb = 9\<rparr>)"
proof -
  note offs = not_full_offs [OF assms]
  have "(cb_count cb + 1) mod 10 = 0 \<longleftrightarrow> cb_count cb = 9" using offs(3) by presburger
  then show ?thesis
    using assms(2) offs cb_wfD(1) [OF assms(1)]
    by (auto simp: cb_put_def aesd_circular_buffer_add_entry_def entry_at_def next_offs_eq_0 Let_def
        intro!: aesd_circular_buffer.equality)
qed

lemma cb_put_full:
  assumes "cb_wf cb" and "full cb"
  shows "cb_put e cb =
    (Some (buffptr (hd (cb_list cb))),
     cb\<lparr>entry := (entry cb)[unat (out_offs cb) := e], in_offs := next_offs (in_offs cb),
        out_offs := next_offs (out_offs cb)\<rparr>)"
proof -
  have "in_offs cb = out_offs cb" using assms by (simp add: cb_wf_def)
  moreover have "hd (cb_list cb) = entry cb ! unat (out_offs cb)"
    using assms cb_wfD [OF assms(1)] by (simp add: cb_list_hd full_iff_count cb_slot_def)
  ultimately show ?thesis
    using assms cb_wfD [OF assms(1)]
    by (auto simp: cb_put_def aesd_circular_buffer_add_entry_def entry_at_def)
qed

lemma cb_put_not_full_list:
  assumes "cb_wf cb" and "\<not> full cb"
  shows "cb_list (snd (cb_put e cb)) = cb_list cb @ [e]" and "cb_wf (snd (cb_put e cb))"
proof -
  let ?n = "cb_count cb" and ?cb = "snd (cb_put e cb)"
  note eq = cb_put_not_full [OF assms, of e] and offs = not_full_offs [OF assms]
  have arith: "?n \<noteq> 9 \<Longrightarrow> ((?n + 1) mod 10 + 10) mod 10 = Suc ?n" "?n \<noteq> 9 \<Longrightarrow> (?n + 1) mod 10 = Suc ?n"
    using offs(3) by presburger+
  have count: "cb_count ?cb = Suc ?n"
    using arith offs unfolding eq by (simp add: cb_count_def [of "_\<lparr>full := _\<rparr>"])
  have slot: "k < 10 \<Longrightarrow> cb_slot ?cb k = k" "k < 10 \<Longrightarrow> cb_slot cb k = k" for k
    using offs(1) by (simp_all add: eq cb_slot_def)
  have nth: "k < 10 \<Longrightarrow> entry ?cb ! k = (if k = ?n then e else entry cb ! k)" for k
    using cb_wfD(1) [OF assms(1)] offs(3) by (simp add: eq)
  show "cb_list ?cb = cb_list cb @ [e]"
    using offs(3) by (intro nth_equalityI) (auto simp: count cb_list_nth nth_append slot nth less_Suc_eq)
  have free: "\<forall>k<10. ?n \<le> k \<longrightarrow> entry cb ! k = zero_entry"
    using assms(1) slot(2) by (auto simp: cb_wf_def)
  have "\<forall>k<10. cb_count ?cb \<le> k \<longrightarrow> entry ?cb ! cb_slot ?cb k = zero_entry"
    using free slot nth count by auto
  moreover have "full ?cb \<Longrightarrow> in_offs ?cb = out_offs ?cb"
    using offs by (simp add: eq next_offs_eq_0)
  ultimately show "cb_wf ?cb"
    using offs cb_wfD [OF assms(1)] unfolding cb_wf_def by (simp add: eq)
qed

lemma less_10_cases: "(k::nat) < 10 \<Longrightarrow> k < 9 \<or> k = 9"
  by auto

lemma cb_put_full_list:
  assumes "cb_wf cb" and "full cb"
  shows "cb_list (snd (cb_put e cb)) = tl (cb_list cb) @ [e]" and "cb_wf (snd (cb_put e cb))"
proof -
  let ?o = "unat (out_offs cb)" and ?cb = "snd (cb_put e cb)"
  note eq = cb_put_full [OF assms, of e]
  have count: "cb_count cb = 10" "cb_count ?cb = 10" using assms(2) by (simp_all add: eq cb_count_def)
  have last: "cb_slot ?cb 9 = ?o"
    using cb_wfD(3) [OF assms(1)] by (simp add: eq cb_slot_def mod_add_left_eq)
  have slot: "cb_slot ?cb k = cb_slot cb (Suc k)" for k
    by (simp add: eq cb_slot_def mod_add_left_eq)
  have "k < 9 \<Longrightarrow> ?o \<noteq> cb_slot cb (Suc k)" for k
    using cb_slot_inj [of cb "Suc k" 0] cb_wfD(3) [OF assms(1)] by (auto simp: cb_slot_def)
  then have other: "k < 9 \<Longrightarrow> entry ?cb ! cb_slot ?cb k = entry cb ! cb_slot cb (Suc k)" for k
    unfolding slot by (simp add: eq)
  have new: "entry ?cb ! cb_slot ?cb 9 = e"
    using cb_wfD [OF assms(1)] by (simp add: last) (simp add: eq)
  show "cb_list ?cb = tl (cb_list cb) @ [e]"
    by (intro nth_equalityI)
      (auto simp: count cb_list_nth nth_append nth_tl other new less_Suc_eq dest!: less_10_cases)
  show "cb_wf ?cb"
    using assms cb_wfD [OF assms(1)] count(2) unfolding cb_wf_def by (simp add: eq)
qed

text \<open>The buffer is a bounded queue of capacity ten.\<close>

lemma cb_put_wf: "cb_wf cb \<Longrightarrow> cb_wf (snd (cb_put e cb))"
  by (cases "full cb") (simp_all add: cb_put_full_list cb_put_not_full_list)

interpretation fifo: bounded_fifo cb_put cb_list buffptr cb_wf 10
proof unfold_locales
  show "0 < (10 :: nat)" by simp
  show "length (cb_list cb) \<le> 10" for cb by (simp add: cb_count_le)
  show "cb_wf cb \<Longrightarrow> cb_wf (snd (cb_put e cb))" for e cb by (rule cb_put_wf)
  show "fst (cb_put e cb) = None \<and> cb_list (snd (cb_put e cb)) = cb_list cb @ [e]"
    if "cb_wf cb" "length (cb_list cb) < 10" for e cb
  proof -
    have "\<not> full cb" using that(2) by (simp add: full_iff_count)
    then show ?thesis using cb_put_not_full_list(1) [OF that(1)] by (simp add: cb_put_not_full that(1))
  qed
  show "fst (cb_put e cb) = Some (buffptr (hd (cb_list cb))) \<and>
      cb_list (snd (cb_put e cb)) = tl (cb_list cb) @ [e]"
    if "cb_wf cb" "length (cb_list cb) = 10" for e cb
  proof -
    have "full cb" using that(2) by (simp add: full_iff_count)
    then show ?thesis using cb_put_full_list(1) [OF that(1)] by (simp add: cb_put_full that(1))
  qed
qed

lemmas fifo_facts = fifo.items_put fifo.put_room fifo.put_evict fifo.put_conserves

section \<open>Finding a position\<close>

text \<open>
  The search on the list of entries: which entry holds byte \<open>t\<close> of the concatenation, and
  where in that entry.
\<close>

fun locate :: "nat list \<Rightarrow> nat \<Rightarrow> (nat \<times> nat) option" where
  "locate [] t = None"
| "locate (n # ns) t =
     (if t < n then Some (0, t) else map_option (map_prod Suc id) (locate ns (t - n)))"

lemma locate_Some_iff:
  "locate ns t = Some (k, r) \<longleftrightarrow> k < length ns \<and> t = sum_list (take k ns) + r \<and> r < ns ! k"
proof (induction ns arbitrary: t k)
  case (Cons n ns)
  show ?case
  proof (cases "t < n")
    case False
    then show ?thesis using Cons.IH by (cases k) auto
  qed (cases k, auto)
qed simp

lemma locate_None_iff: "locate ns t = None \<longleftrightarrow> sum_list ns \<le> t"
proof (induction ns arbitrary: t)
  case (Cons n ns)
  then show ?case by (cases "t < n") (simp_all add: le_diff_conv2 add.commute)
qed simp

lemma locate_append:
  "locate (ms @ ns) t =
     (case locate ms t of
        Some kr \<Rightarrow> Some kr
      | None \<Rightarrow> map_option (map_prod ((+) (length ms)) id) (locate ns (t - sum_list ms)))"
proof (induction ms arbitrary: t)
  case Nil
  have "map_prod ((+) (0::nat)) id = (id :: nat \<times> nat \<Rightarrow> nat \<times> nat)" by auto
  then show ?case by (simp add: option.map_id)
next
  case (Cons m ms)
  have "map_prod Suc id \<circ> map_prod ((+) (length ms)) id
      = (map_prod ((+) (length (m # ms))) id :: nat \<times> nat \<Rightarrow> nat \<times> nat)"
    by auto
  then show ?case by (simp add: Cons.IH option.map_comp split: option.split)
qed

lemma locate_zeros [simp]: "locate (replicate n 0) t = None"
  by (simp add: locate_None_iff sum_list_replicate)

text \<open>The sizes of all ten slots in age order: the entries, then the unused slots of size 0.\<close>

definition entry_sizes :: "aesd_circular_buffer \<Rightarrow> nat list" where
  "entry_sizes cb = map (\<lambda>e. unat (entry_size e)) (cb_list cb)"

definition slot_sizes :: "aesd_circular_buffer \<Rightarrow> nat list" where
  "slot_sizes cb = map (\<lambda>k. unat (entry_size (entry cb ! cb_slot cb k))) [0..<10]"

lemma slot_sizes_eq:
  assumes "cb_wf cb"
  shows "slot_sizes cb = entry_sizes cb @ replicate (10 - cb_count cb) 0"
proof (rule nth_equalityI)
  show "length (slot_sizes cb) = length (entry_sizes cb @ replicate (10 - cb_count cb) 0)"
    using cb_count_le [of cb] by (simp add: slot_sizes_def entry_sizes_def)
next
  fix k assume "k < length (slot_sizes cb)"
  then have k: "k < 10" by (simp add: slot_sizes_def)
  show "slot_sizes cb ! k = (entry_sizes cb @ replicate (10 - cb_count cb) 0) ! k"
    using k assms by (auto simp: slot_sizes_def entry_sizes_def nth_append cb_list_nth cb_wf_def
        zero_entry_def not_less)
qed

lemma locate_slots: "cb_wf cb \<Longrightarrow> locate (slot_sizes cb) t = locate (entry_sizes cb) t"
  by (simp add: slot_sizes_eq locate_append split: option.split)

lemma slot_sizes_drop:
  "it < 10 \<Longrightarrow> drop it (slot_sizes cb) =
     unat (entry_size (entry cb ! cb_slot cb it)) # drop (Suc it) (slot_sizes cb)"
  by (simp add: slot_sizes_def Cons_nth_drop_Suc [symmetric])

lemma find_loop_eq:
  assumes "cb_wf cb"
  shows "it < 10 \<Longrightarrow> find_loop cb (cb_slot cb it) temp it =
    Some (Inr (case locate (drop it (slot_sizes cb)) (unat temp) of
        None \<Rightarrow> None
      | Some (k, r) \<Rightarrow> Some (cb_slot cb (it + k), of_nat r)))"
proof (induction "9 - it" arbitrary: it temp)
  case 0
  then have it: "it = 9" by simp
  show ?case using cb_wfD(1) [OF assms] unfolding it
    by (subst find_loop.simps)
      (simp add: slot_sizes_drop, simp add: entry_at_def slot_sizes_def word_less_nat_alt)
next
  case (Suc d)
  let ?e = "entry cb ! cb_slot cb it"
  have it: "it < 9" using Suc.hyps(2) by simp
  have step: "(cb_slot cb it + 1) mod 10 = cb_slot cb (Suc it)"
    by (simp add: cb_slot_def mod_Suc_eq)
  have drop: "drop it (slot_sizes cb) = unat (entry_size ?e) # drop (Suc it) (slot_sizes cb)"
    using it by (intro slot_sizes_drop) simp
  show ?case
  proof (cases "temp < entry_size ?e")
    case True
    then show ?thesis using cb_wfD(1) [OF assms]
      by (subst find_loop.simps) (simp add: entry_at_def drop word_less_nat_alt)
  next
    case False
    have "find_loop cb (cb_slot cb it) temp it
        = find_loop cb (cb_slot cb (Suc it)) (temp - entry_size ?e) (Suc it)"
      using cb_wfD(1) [OF assms] it False step
      by (subst find_loop.simps) (simp add: entry_at_def)
    also have "\<dots> = Some (Inr (case locate (drop (Suc it) (slot_sizes cb)) (unat (temp - entry_size ?e)) of
        None \<Rightarrow> None
      | Some (k, r) \<Rightarrow> Some (cb_slot cb (Suc it + k), of_nat r)))"
      using Suc by (intro Suc.hyps) auto
    finally show ?thesis using False
      by (auto simp: drop word_less_nat_alt unat_sub_u64 word_le_nat_alt split: option.splits)
  qed
qed

text \<open>
  So the search ends, stays inside the array, and finds byte \<open>char_offset\<close> of the
  concatenated entries, or returns \<open>NULL\<close> if there are not that many bytes.
\<close>

lemma find_entry_eq:
  assumes "cb_wf cb"
  shows "aesd_circular_buffer_find_entry_offset_for_fpos (Some cb) pos (Some old) =
    Inr (case locate (entry_sizes cb) (unat pos) of
        None \<Rightarrow> (None, Some old)
      | Some (k, r) \<Rightarrow> (Some (cb_slot cb k), Some (of_nat r)))"
proof -
  have "unat (out_offs cb) = cb_slot cb 0" using cb_wfD(3) [OF assms] by (simp add: cb_slot_def)
  then show ?thesis
    using find_loop_eq [OF assms, of 0 pos] locate_slots [OF assms]
    by (simp add: aesd_circular_buffer_find_entry_offset_for_fpos_def split: option.split prod.split)
qed

section \<open>Visiting all slots\<close>

lemma cb_foreach_rule:
  assumes "\<And>i s. i < 10 \<Longrightarrow> P i s \<Longrightarrow> length (entry (buffer s)) = 10 \<and>
      (\<exists>s'. body i (entry (buffer s) ! i) s = Inr (Inr s') \<and> P (Suc i) s')"
  shows "i \<le> 10 \<Longrightarrow> P i s \<Longrightarrow> \<exists>s'. cb_foreach buffer i body s = Inr s' \<and> P 10 s'"
proof (induction "10 - i" arbitrary: i s)
  case 0
  then show ?case by (subst cb_foreach.simps) simp
next
  case (Suc n)
  then have i: "i < 10" by simp
  obtain s' where s': "length (entry (buffer s)) = 10"
      "body i (entry (buffer s) ! i) s = Inr (Inr s')" "P (Suc i) s'"
    using assms [OF i Suc.prems(2)] by auto
  have "cb_foreach buffer i body s = cb_foreach buffer (Suc i) body s'"
    using i s' by (subst cb_foreach.simps) (simp add: entry_at_def)
  moreover have "n = 10 - Suc i" "Suc i \<le> 10" using Suc.hyps(2) i by auto
  ultimately show ?case using Suc.hyps(1) s'(3) by simp
qed

lemma cb_slot_surj:
  assumes "cb_wf cb" and "i < 10"
  obtains k where "k < 10" and "i = cb_slot cb k"
proof
  let ?o = "unat (out_offs cb)"
  have "?o < 10" using cb_wfD(3) [OF assms(1)] .
  then show "i = cb_slot cb ((i + 10 - ?o) mod 10)"
    using assms(2) by (simp add: cb_slot_def mod_add_right_eq)
qed simp

lemma slot_cases:
  assumes "cb_wf cb" and "i < 10"
  shows "entry cb ! i = zero_entry \<or> entry cb ! i \<in> set (cb_list cb)"
proof -
  obtain k where k: "k < 10" "i = cb_slot cb k" using assms by (rule cb_slot_surj)
  show ?thesis
  proof (cases "k < cb_count cb")
    case True
    then show ?thesis using k by (auto simp: in_set_conv_nth cb_list_nth)
  qed (use assms(1) k in \<open>auto simp: cb_wf_def\<close>)
qed

lemma cb_slot_bij: "cb_wf cb \<Longrightarrow> bij_betw (cb_slot cb) {..<10} {..<10}"
  by (rule bij_betw_imageI)
    (auto simp: inj_on_def dest: cb_slot_inj elim: cb_slot_surj)

lemma sum_slots:
  assumes "cb_wf cb"
  shows "(\<Sum>i<10. unat (entry_size (entry cb ! i))) = sum_list (entry_sizes cb)"
proof -
  have "(\<Sum>i<10. unat (entry_size (entry cb ! i)))
      = (\<Sum>k<10. unat (entry_size (entry cb ! cb_slot cb k)))"
    using sum.reindex_bij_betw [OF cb_slot_bij [OF assms],
        of "\<lambda>i. unat (entry_size (entry cb ! i))"] by simp
  also have "\<dots> = sum_list (slot_sizes cb)"
    by (simp add: slot_sizes_def sum_list_map_upt_split del: upt_rec_numeral)
  finally show ?thesis using assms by (simp add: slot_sizes_eq sum_list_replicate)
qed

end
