(* ===== verification/Buffer_Theorems.thy ===== *)
theory Buffer_Theorems
  imports Circular_Buffer
begin

text \<open>
  The properties of the circular buffer, stated on the code's functions and on buffers built
  the way the driver builds them: by \<open>aesd_circular_buffer_init\<close> and any number of
  \<open>aesd_circular_buffer_add_entry\<close>.
\<close>

section \<open>A sequence of additions\<close>

fun add_all :: "aesd_buffer_entry list \<Rightarrow> aesd_circular_buffer \<Rightarrow> (ptr list \<times> aesd_circular_buffer) res" where
  "add_all [] cb = Inr ([], cb)"
| "add_all (e # es) cb =
     bind_res (aesd_circular_buffer_add_entry (Some cb) (Some e)) (\<lambda>(old, cb').
     bind_res (add_all es (the cb')) (\<lambda>(olds, cb''). Inr (old # olds, cb'')))"

lemma add_all_eq:
  "cb_wf cb \<Longrightarrow> add_all es cb =
     Inr (replicate (min (10 - cb_count cb) (length es)) NULL @ fst (put_all cb_put es cb),
          snd (put_all cb_put es cb))"
proof (induction es arbitrary: cb)
  case (Cons e es)
  note wf = Cons.prems
  let ?cb = "snd (cb_put e cb)"
  have IH: "add_all es ?cb = Inr (replicate (min (10 - cb_count ?cb) (length es)) NULL
      @ fst (put_all cb_put es ?cb), snd (put_all cb_put es ?cb))"
    using cb_put_wf [OF wf] by (rule Cons.IH)
  show ?case
  proof (cases "full cb")
    case True
    then have "cb_count cb = 10" "cb_count ?cb = 10"
      using cb_put_full_list(1) [OF wf True, of e] by (simp_all add: full_iff_count flip: length_cb_list)
    then show ?thesis
      using IH True cb_put_full [OF wf True, of e]
      by (simp add: add_entry_eq [OF wf] case_prod_unfold)
  next
    case False
    then have "cb_count ?cb = Suc (cb_count cb)" "cb_count cb < 10"
      using cb_put_not_full_list(1) [OF wf False, of e] not_full_offs(3) [OF wf False]
      by (simp_all flip: length_cb_list)
    then have "min (10 - cb_count cb) (Suc (length es)) = Suc (min (10 - cb_count ?cb) (length es))"
      by auto
    then show ?thesis
      using IH False cb_put_not_full [OF wf False, of e]
      by (simp add: add_entry_eq [OF wf] case_prod_unfold)
  qed
qed simp

lemma init_count [simp]: "cb_count aesd_circular_buffer_init = 0"
  by (simp add: cb_count_def aesd_circular_buffer_init_def)

lemma add_all_init:
  "\<exists>cb. add_all es aesd_circular_buffer_init =
      Inr (replicate (min 10 (length es)) NULL @ map buffptr (take (length es - 10) es), cb) \<and>
    cb_list cb = drop (length es - 10) es \<and> cb_wf cb"
proof -
  let ?q = "put_all cb_put es aesd_circular_buffer_init"
  have items: "cb_list (snd ?q) = drop (length es - 10) es"
    using fifo.items_put_all [OF init_wf, of es] by simp
  have "fst ?q @ map buffptr (cb_list (snd ?q)) = map buffptr es"
    using fifo.put_all_conserves [OF init_wf, of es] by simp
  also have "\<dots> = map buffptr (take (length es - 10) es) @ map buffptr (drop (length es - 10) es)"
    by (simp flip: map_append)
  finally have "fst ?q = map buffptr (take (length es - 10) es)" using items by simp
  then show ?thesis
    using add_all_eq [OF init_wf, of es] items fifo.put_all_inv [OF init_wf, of es] by simp
qed

section \<open>Properties\<close>

text \<open>C5. Adding entries to a fresh buffer never faults. The first ten additions return
  \<open>NULL\<close>, each later one the pointer of the oldest entry, in the order the entries came; the
  buffer then holds the last ten entries, oldest first. So every pointer that was added is
  either stored or has been handed back to be freed, exactly once.\<close>

theorem buffer_keeps_last_ten:
  "\<exists>cb. add_all es aesd_circular_buffer_init =
      Inr (replicate (min 10 (length es)) NULL @ map buffptr (take (length es - 10) es), cb) \<and>
    cb_list cb = drop (length es - 10) es"
  using add_all_init [of es] by blast

text \<open>C4. The search ends and never leaves the array, on every buffer that additions can
  build, and finds byte \<open>pos\<close> of the stored entries end to end: the entry returned is the one
  the byte lies in and the offset is its place in that entry; past the last byte the result
  is \<open>NULL\<close> and the caller's offset is left alone.\<close>

theorem buffer_find_position:
  "\<exists>olds cb. add_all es aesd_circular_buffer_init = Inr (olds, cb) \<and>
    (let stored = drop (length es - 10) es in
     case locate (map (\<lambda>e. unat (entry_size e)) stored) (unat pos) of
       None \<Rightarrow> aesd_circular_buffer_find_entry_offset_for_fpos (Some cb) pos (Some old) = Inr (None, Some old)
     | Some (k, r) \<Rightarrow> \<exists>i. aesd_circular_buffer_find_entry_offset_for_fpos (Some cb) pos (Some old)
           = Inr (Some i, Some (of_nat r)) \<and> entry_at cb i = Inr (stored ! k))"
proof -
  obtain olds cb where cb: "add_all es aesd_circular_buffer_init = Inr (olds, cb)"
      "cb_list cb = drop (length es - 10) es" "cb_wf cb"
    using add_all_init [of es] by blast
  have "entry_at cb (cb_slot cb k) = Inr (cb_list cb ! k)" if "k < cb_count cb" for k
    using that cb_wfD(1) [OF cb(3)] by (simp add: entry_at_def cb_list_nth)
  then show ?thesis
    using cb(1) find_entry_eq [OF cb(3), of pos old] cb(2)
    by (auto simp: Let_def entry_sizes_def locate_Some_iff simp flip: length_cb_list
        split: option.splits)
qed

text \<open>
  The shape of a buffer: what its C types and the bounds of its offsets say, whatever the slots
  hold and however the buffer came about.
\<close>

definition cb_typed :: "aesd_circular_buffer \<Rightarrow> bool" where
  "cb_typed cb \<longleftrightarrow> length (entry cb) = 10 \<and> unat (in_offs cb) < 10 \<and> unat (out_offs cb) < 10"

lemma find_loop_typed:
  "length (entry cb) = 10 \<Longrightarrow> index < 10 \<Longrightarrow> it < 10 \<Longrightarrow>
     \<exists>r. find_loop cb index temp it = Some (Inr r) \<and>
       (case r of None \<Rightarrow> True | Some (i, t) \<Rightarrow> i < 10 \<and> t < entry_size (entry cb ! i))"
proof (induction "9 - it" arbitrary: index temp it)
  case 0
  then show ?case by (subst find_loop.simps) (simp add: entry_at_def)
next
  case (Suc n)
  then have "n = 9 - Suc it" "Suc it < 10" by simp_all
  then show ?case
    using Suc.hyps(1) [of "Suc it" "(index + 1) mod 10"] Suc.prems
    by (subst find_loop.simps) (simp add: entry_at_def)
qed

text \<open>C23. The buffer's operations are safe on any buffer of the right shape, well-formed or not: adding
  an entry returns, keeps the shape, and returns \<open>NULL\<close> or a pointer that was stored; the search
  returns, and a slot it finds is one of the ten, with an offset inside the entry of that slot.\<close>

theorem buffer_type_safe:
  assumes "cb_typed cb"
  shows "cb_typed aesd_circular_buffer_init \<and>
    (\<exists>old cb'. aesd_circular_buffer_add_entry (Some cb) (Some e) = Inr (old, Some cb') \<and> cb_typed cb' \<and>
       (old = NULL \<or> old \<in> buffptr ` set (entry cb))) \<and>
    (\<exists>i off. aesd_circular_buffer_find_entry_offset_for_fpos (Some cb) pos (Some before) = Inr (i, Some off) \<and>
       (case i of None \<Rightarrow> off = before | Some i \<Rightarrow> i < 10 \<and> off < entry_size (entry cb ! i)))"
proof (intro conjI)
  have cb: "length (entry cb) = 10" "unat (in_offs cb) < 10" "unat (out_offs cb) < 10"
    using assms by (simp_all add: cb_typed_def)
  show "cb_typed aesd_circular_buffer_init"
    by (simp add: cb_typed_def aesd_circular_buffer_init_def)
  have "entry cb ! unat (in_offs cb) \<in> set (entry cb)" using cb by simp
  then show "\<exists>old cb'. aesd_circular_buffer_add_entry (Some cb) (Some e) = Inr (old, Some cb') \<and> cb_typed cb' \<and>
       (old = NULL \<or> old \<in> buffptr ` set (entry cb))"
    using cb by (auto simp: aesd_circular_buffer_add_entry_def entry_at_def cb_typed_def Let_def)
  show "\<exists>i off. aesd_circular_buffer_find_entry_offset_for_fpos (Some cb) pos (Some before) = Inr (i, Some off) \<and>
       (case i of None \<Rightarrow> off = before | Some i \<Rightarrow> i < 10 \<and> off < entry_size (entry cb ! i))"
  proof -
    obtain r where r: "find_loop cb (unat (out_offs cb)) pos 0 = Some (Inr r)"
        "case r of None \<Rightarrow> True | Some (i, t) \<Rightarrow> i < 10 \<and> t < entry_size (entry cb ! i)"
      using find_loop_typed [OF cb(1,3), of 0 pos] by auto
    then show ?thesis
      by (cases r) (auto simp: aesd_circular_buffer_find_entry_offset_for_fpos_def)
  qed
qed

theorem buffer_type_safe_witness:
  "\<exists>old cb'. aesd_circular_buffer_add_entry
       (Some \<lparr>entry = replicate 10 zero_entry, in_offs = 3, out_offs = 7, full = False\<rparr>) (Some zero_entry)
     = Inr (old, Some cb') \<and> cb_typed cb'"
proof -
  have "cb_typed \<lparr>entry = replicate 10 zero_entry, in_offs = 3, out_offs = 7, full = False\<rparr>"
    by (simp add: cb_typed_def)
  from buffer_type_safe [OF this, of zero_entry] show ?thesis by blast
qed

text \<open>A \<open>NULL\<close> buffer, entry or offset pointer is answered with \<open>NULL\<close> and changes
  nothing.\<close>

theorem buffer_null_arguments:
  "aesd_circular_buffer_add_entry None e = Inr (NULL, None) \<and>
   aesd_circular_buffer_add_entry (Some cb) None = Inr (NULL, Some cb) \<and>
   aesd_circular_buffer_find_entry_offset_for_fpos None pos rtn = Inr (None, rtn) \<and>
   aesd_circular_buffer_find_entry_offset_for_fpos (Some cb) pos None = Inr (None, None)"
  by (simp add: aesd_circular_buffer_add_entry_def aesd_circular_buffer_find_entry_offset_for_fpos_def
      split: option.split)

end
