(* ===== verification/Char_Device.thy ===== *)
theory Char_Device
  imports Circular_Buffer
begin

text \<open>
  \<open>aesd-char-driver/main.c\<close>, \<open>aesdchar.h\<close> and \<open>aesd_ioctl.h\<close>: the state of the char device
  and its file operations, function by function. \<open>PDEBUG\<close> is \<open>printk\<close> in this build, as
  \<open>AESD_DEBUG\<close> is defined. The lines that print only numbers are left out; those of
  \<open>aesd_print_cb\<close>, which have a loop of their own, are kept, and so is what the one line of
  \<open>aesd_adjust_file_offset\<close> that prints a string reads to do so. This theory holds definitions only and
  what is needed to define them.
\<close>

unbundle bit_operations_syntax

section \<open>Data\<close>

abbreviation (input) "EINTR \<equiv> (4 :: int)"
abbreviation (input) "ENOMEM \<equiv> (12 :: int)"
abbreviation (input) "EFAULT \<equiv> (14 :: int)"
abbreviation (input) "EINVAL \<equiv> (22 :: int)"
abbreviation (input) "ENOTTY \<equiv> (25 :: int)"

record aesd_seekto =
  write_cmd :: u32
  write_cmd_offset :: u32

text \<open>\<open>lock\<close> says whether the device mutex is held.\<close>

record aesd_dev =
  circular_buffer :: aesd_circular_buffer
  incomplete_command_buffer :: ptr
  incomplete_command_size :: u64
  lock :: bool

text \<open>A line \<open>aesd_print_cb\<close> logs: which offsets point to the slot, its index, its text or \<open>(null)\<close>.\<close>

datatype slot_mark = Mark_IO | Mark_I | Mark_O | Mark_none

type_synonym log_line = "slot_mark \<times> nat \<times> bytes option"

text \<open>
  What the module's functions work on: the allocator's blocks, the global \<open>aesd_device\<close>, the
  major number, what the module has registered with the kernel, and the lines logged.
\<close>

record kernel =
  heap :: heap
  aesd_device :: aesd_dev
  aesd_major :: nat
  chrdev_region :: bool
  cdev_added :: bool
  klog :: "log_line list"

text \<open>An open file. \<open>private_data\<close> is \<open>NULL\<close> or the device, of which there is one.\<close>

datatype dev_ptr = Dev_NULL | Dev_aesd

record struct_file =
  private_data :: dev_ptr
  f_pos :: u64
  f_pos_lock :: bool

definition deref_dev :: "struct_file \<Rightarrow> kernel \<Rightarrow> aesd_dev res" where
  "deref_dev filp k =
     (case private_data filp of Dev_NULL \<Rightarrow> Inl Null_Deref | Dev_aesd \<Rightarrow> Inr (aesd_device k))"

section \<open>Locks\<close>

text \<open>
  \<open>mutex_lock_interruptible\<close> gives up (result \<open>True\<close>) if a signal arrives while another task
  holds the lock, which the argument \<open>intr\<close> says. Nobody else runs in between here, so waiting
  for a lock that is held is waiting for ever.
\<close>

definition mutex_lock_interruptible :: "bool \<Rightarrow> aesd_dev \<Rightarrow> (bool \<times> aesd_dev) res" where
  "mutex_lock_interruptible intr d =
     (if intr then Inr (True, d)
      else if lock d then Inl Deadlock else Inr (False, d\<lparr>lock := True\<rparr>))"

definition mutex_unlock :: "aesd_dev \<Rightarrow> aesd_dev" where
  "mutex_unlock d = d\<lparr>lock := False\<rparr>"

definition lock_f_pos :: "struct_file \<Rightarrow> struct_file res" where
  "lock_f_pos filp = (if f_pos_lock filp then Inl Deadlock else Inr (filp\<lparr>f_pos_lock := True\<rparr>))"

definition unlock_f_pos :: "struct_file \<Rightarrow> struct_file" where
  "unlock_f_pos filp = filp\<lparr>f_pos_lock := False\<rparr>"

section \<open>Open and release\<close>

text \<open>\<open>container_of(inode->i_cdev, struct aesd_dev, cdev)\<close> is the device the inode belongs to.\<close>

definition aesd_open :: "struct_file \<Rightarrow> int \<times> struct_file" where
  "aesd_open filp = (0, filp\<lparr>private_data := Dev_aesd, f_pos := 0\<rparr>)"

definition aesd_release :: "struct_file \<Rightarrow> int \<times> struct_file" where
  "aesd_release filp = (0, filp\<lparr>private_data := Dev_NULL\<rparr>)"

section \<open>Size and log\<close>

text \<open>
  \<open>aesd_size\<close> adds up the sizes of all ten slots, of the global device whatever buffer it is
  given.
\<close>

definition aesd_size :: "aesd_circular_buffer \<Rightarrow> kernel \<Rightarrow> u64 res" where
  "aesd_size cb k =
     cb_foreach (\<lambda>_. circular_buffer (aesd_device k)) 0
       (\<lambda>_ temp bytes. Inr (Inr (bytes + entry_size temp))) 0"

definition slot_mark_of :: "aesd_circular_buffer \<Rightarrow> nat \<Rightarrow> slot_mark" where
  "slot_mark_of cb index =
     (if unat (in_offs cb) = index \<and> unat (out_offs cb) = index then Mark_IO
      else if unat (in_offs cb) = index then Mark_I
      else if unat (out_offs cb) = index then Mark_O else Mark_none)"

text \<open>Each text is copied to a fresh block, closed with a 0 byte, printed as a C string and freed.\<close>

definition print_slot ::
  "kenv \<Rightarrow> aesd_circular_buffer \<Rightarrow> nat \<Rightarrow> aesd_buffer_entry \<Rightarrow> heap \<times> log_line list \<Rightarrow>
     (heap \<times> log_line list) res" where
  "print_slot env cb index temp = (\<lambda>(h, log).
     if buffptr temp \<noteq> NULL then
       (let n = unat (entry_size temp); (printbuf, h1) = kmalloc env (unat (entry_size temp + 1)) h in
        bind_res (memcpy printbuf 0 (buffptr temp) 0 n h1) (\<lambda>h2.
        bind_res (store printbuf n [NUL] h2) (\<lambda>h3.
        bind_res (load printbuf 0 (n + 1) h3) (\<lambda>text.
        bind_res (kfree printbuf h3) (\<lambda>h4.
          Inr (h4, log @ [(slot_mark_of cb index, index, Some (takeWhile (\<lambda>c. c \<noteq> NUL) text))]))))))
     else Inr (h, log @ [(slot_mark_of cb index, index, None)]))"

definition aesd_print_cb :: "kenv \<Rightarrow> aesd_circular_buffer \<Rightarrow> kernel \<Rightarrow> kernel res" where
  "aesd_print_cb env cb k =
     bind_res
       (cb_foreach (\<lambda>_. circular_buffer (aesd_device k)) 0
          (\<lambda>index temp s. bind_res (print_slot env cb index temp s) (\<lambda>s'. Inr (Inr s')))
          (heap k, klog k))
       (\<lambda>(h, log). bind_res (aesd_size cb k) (\<lambda>_. Inr (k\<lparr>heap := h, klog := log\<rparr>)))"

section \<open>Read\<close>

text \<open>
  The result is the return value, the bytes that reached the caller's buffer (which has room
  for \<open>room\<close> bytes that may be written) and the new \<open>*f_pos\<close>.
\<close>

definition aesd_read ::
  "bool \<Rightarrow> nat \<Rightarrow> struct_file \<Rightarrow> u64 \<Rightarrow> u64 \<Rightarrow> kernel \<Rightarrow> (int \<times> bytes \<times> u64 \<times> kernel) res" where
  "aesd_read intr room filp count pos k =
     (if count = 0 then Inr (0, [], pos, k)
      else
        bind_res (deref_dev filp k) (\<lambda>dev.
        bind_res (mutex_lock_interruptible intr dev) (\<lambda>(interrupted, dev).
        if interrupted then Inr (- EINTR, [], pos, k)
        else
          bind_res (aesd_circular_buffer_find_entry_offset_for_fpos
                      (Some (circular_buffer dev)) pos (Some 0)) (\<lambda>(read_entry, offset).
          let done = (\<lambda>retval bs pos'.
                Inr (retval, bs, pos', k\<lparr>aesd_device := mutex_unlock dev\<rparr>)) in
          case (read_entry, offset) of
            (Some index, Some off) \<Rightarrow>
              bind_res (entry_at (circular_buffer dev) index) (\<lambda>ent.
              if buffptr ent = NULL then done 0 [] pos
              else
                let read_size = min count (entry_size ent - off) in
                bind_res (copy_to_user room (buffptr ent) (unat off) (unat read_size) (heap k))
                  (\<lambda>(left, bs).
                     if left \<noteq> 0 then done (- EFAULT) bs pos
                     else done (sint read_size) bs (pos + read_size)))
          | _ \<Rightarrow> done 0 [] pos))))"

section \<open>Write\<close>

text \<open>
  One complete command of the buffer \<open>buf\<close>: it starts at offset \<open>cmd_start\<close> and its newline is
  at offset \<open>cmd_break\<close>. \<open>subcmd_size\<close> is computed from the start of the buffer, as in the code.
  The result says whether the second \<open>kmalloc\<close> succeeded.
\<close>

definition write_command ::
  "kenv \<Rightarrow> ptr \<Rightarrow> nat \<Rightarrow> nat \<Rightarrow> aesd_circular_buffer \<Rightarrow> heap \<Rightarrow>
     (bool \<times> aesd_circular_buffer \<times> heap) res" where
  "write_command env buf cmd_start cmd_break cb h =
     (let subcmd_size = cmd_break + 1;
          (subcmd, h1) = kmalloc env subcmd_size h in
      bind_res (memcpy subcmd 0 buf cmd_start subcmd_size h1) (\<lambda>h2.
      let (buffptr', h3) = kmalloc env subcmd_size h2 in
      if buffptr' = NULL then bind_res (kfree subcmd h3) (\<lambda>h4. Inr (False, cb, h4))
      else
        bind_res (memcpy buffptr' 0 subcmd 0 subcmd_size h3) (\<lambda>h4.
        bind_res (kfree subcmd h4) (\<lambda>h5.
        bind_res (aesd_circular_buffer_add_entry (Some cb)
                    (Some \<lparr>buffptr = buffptr', entry_size = of_nat subcmd_size\<rparr>))
          (\<lambda>(to_free, cb').
             bind_res (if to_free \<noteq> NULL then kfree to_free h5 else Inr h5) (\<lambda>h6.
               Inr (True, the cb', h6)))))))"

text \<open>
  The loop over the newlines. The result is whether the loop came to its end (and not to the
  \<open>goto cleanup\<close>), and the last value of \<open>cmd_start\<close>.
\<close>

function write_loop ::
  "kenv \<Rightarrow> ptr \<Rightarrow> nat \<Rightarrow> nat \<Rightarrow> aesd_circular_buffer \<Rightarrow> heap \<Rightarrow>
     (bool \<times> nat \<times> aesd_circular_buffer \<times> heap) res" where
  "write_loop env buf cmd_start read_size cb h =
     bind_res (memchr buf cmd_start NL read_size h) (\<lambda>found.
       case found of
         None \<Rightarrow> Inr (True, cmd_start, cb, h)
       | Some cmd_break \<Rightarrow>
           bind_res (write_command env buf cmd_start cmd_break cb h) (\<lambda>(ok, cb', h').
             if \<not> ok then Inr (False, cmd_start, cb', h')
             else
               let subcmd_size = cmd_break + 1 in
               write_loop env buf (cmd_break + 1)
                 (read_size - (if subcmd_size > read_size then read_size else subcmd_size)) cb' h'))"
  by pat_completeness auto
termination
  by (relation "measure (\<lambda>(_, _, _, read_size, _). read_size)")
    (auto dest!: memchr_Some_bounds)

declare write_loop.simps [simp del]

text \<open>What is left after the last newline becomes the incomplete command.\<close>

definition keep_excess ::
  "kenv \<Rightarrow> nat \<Rightarrow> u64 \<Rightarrow> aesd_dev \<Rightarrow> heap \<Rightarrow> (bool \<times> aesd_dev \<times> heap) res" where
  "keep_excess env cmd_start total_size dev h =
     (if cmd_start < unat total_size then
        (let remaining_size = unat total_size - cmd_start;
             (remaining, h1) = kmalloc env remaining_size h in
         if remaining = NULL then Inr (False, dev, h1)
         else
           bind_res (memcpy remaining 0 (incomplete_command_buffer dev) cmd_start remaining_size h1)
             (\<lambda>h2. bind_res (kfree (incomplete_command_buffer dev) h2) (\<lambda>h3.
                Inr (True, dev\<lparr>incomplete_command_buffer := remaining,
                               incomplete_command_size := of_nat remaining_size\<rparr>, h3))))
      else
        bind_res (kfree (incomplete_command_buffer dev) h) (\<lambda>h1.
          Inr (True, dev\<lparr>incomplete_command_buffer := NULL, incomplete_command_size := 0\<rparr>, h1)))"

text \<open>
  The first part of \<open>aesd_write\<close>: the incomplete command and the caller's bytes go to one new
  block. \<open>ubuf\<close> is what the caller's buffer holds as far as it can be read; the result \<open>False\<close>
  is the \<open>-EFAULT\<close> branch.
\<close>

definition write_gather ::
  "kenv \<Rightarrow> bytes \<Rightarrow> u64 \<Rightarrow> aesd_dev \<Rightarrow> heap \<Rightarrow> (bool \<times> aesd_dev \<times> heap) res" where
  "write_gather env ubuf count dev h =
     (let total_size = incomplete_command_size dev + count;
          (to_write, h1) = kmalloc env (unat total_size) h in
      bind_res
        (if incomplete_command_buffer dev \<noteq> NULL
         then bind_res (memcpy to_write 0 (incomplete_command_buffer dev) 0
                          (unat (incomplete_command_size dev)) h1)
                (kfree (incomplete_command_buffer dev))
         else Inr h1) (\<lambda>h2.
      bind_res (copy_from_user to_write (unat (incomplete_command_size dev)) ubuf (unat count) h2)
        (\<lambda>(left, h3).
           if left \<noteq> 0 then bind_res (kfree to_write h3) (\<lambda>h4. Inr (False, dev, h4))
           else Inr (True, dev\<lparr>incomplete_command_buffer := to_write,
                                incomplete_command_size := total_size\<rparr>, h3))))"

definition aesd_write ::
  "kenv \<Rightarrow> bool \<Rightarrow> bytes \<Rightarrow> struct_file \<Rightarrow> u64 \<Rightarrow> kernel \<Rightarrow> (int \<times> kernel) res" where
  "aesd_write env intr ubuf filp count k =
     bind_res (deref_dev filp k) (\<lambda>dev.
     bind_res (mutex_lock_interruptible intr dev) (\<lambda>(interrupted, dev).
     if interrupted then Inr (- EINTR, k)
     else
       let done = (\<lambda>retval dev' k'. Inr (retval, k'\<lparr>aesd_device := mutex_unlock dev'\<rparr>)) in
       bind_res (write_gather env ubuf count dev (heap k)) (\<lambda>(ok, dev, h1).
       if \<not> ok then done (- EFAULT) dev (k\<lparr>heap := h1\<rparr>)
       else
         bind_res (write_loop env (incomplete_command_buffer dev) 0
                     (unat (incomplete_command_size dev)) (circular_buffer dev) h1)
           (\<lambda>(ok, cmd_start, cb', h2).
         let dev = dev\<lparr>circular_buffer := cb'\<rparr> in
         if \<not> ok then done (- ENOMEM) dev (k\<lparr>heap := h2\<rparr>)
         else
           bind_res (keep_excess env cmd_start (incomplete_command_size dev) dev h2)
             (\<lambda>(ok, dev, h3).
           if \<not> ok then done (- ENOMEM) dev (k\<lparr>heap := h3\<rparr>)
           else
             bind_res (aesd_print_cb env (circular_buffer dev)
                         (k\<lparr>heap := h3, aesd_device := dev\<rparr>)) (\<lambda>k'.
             done (sint count) dev k'))))))"

section \<open>Seek\<close>

text \<open>
  \<open>fixed_size_llseek\<close> is a function of the kernel and a parameter: it takes the file, the
  offset, \<open>whence\<close> and the size, and returns the new position or a negative error, and the
  file. \<open>aesd_llseek\<close> keeps its result in an \<open>int\<close>.
\<close>

type_synonym llseek_fn = "struct_file \<Rightarrow> u64 \<Rightarrow> int \<Rightarrow> u64 \<Rightarrow> u64 \<times> struct_file"

definition aesd_llseek ::
  "llseek_fn \<Rightarrow> struct_file \<Rightarrow> u64 \<Rightarrow> int \<Rightarrow> kernel \<Rightarrow> (u64 \<times> struct_file) res" where
  "aesd_llseek fixed_size_llseek filp off whence k =
     bind_res (aesd_size (circular_buffer (aesd_device k)) k) (\<lambda>cb_size.
     bind_res (lock_f_pos filp) (\<lambda>filp.
     let (r, filp) = fixed_size_llseek filp off whence cb_size;
         retval = (ucast r :: u32) in
     Inr (scast retval, unlock_f_pos filp)))"

definition aesd_adjust_file_offset :: "struct_file \<Rightarrow> u32 \<Rightarrow> u32 \<Rightarrow> kernel \<Rightarrow> (int \<times> struct_file) res" where
  "aesd_adjust_file_offset filp cmd offset k =
     (if \<not> unat cmd < AESDCHAR_MAX_WRITE_OPERATIONS_SUPPORTED then Inr (- EINVAL, filp)
      else
        bind_res (deref_dev filp k) (\<lambda>dev.
        bind_res (entry_at (circular_buffer dev) (unat cmd)) (\<lambda>selected_entry.
        if \<not> ucast offset < entry_size selected_entry then
          bind_res (printk_string (buffptr selected_entry) (heap k)) (\<lambda>_. Inr (- EINVAL, filp))
        else
          bind_res
            (cb_foreach (\<lambda>_. circular_buffer (aesd_device k)) 0
               (\<lambda>index temp calculated_offset.
                  if index < unat cmd then Inr (Inr (calculated_offset + entry_size temp))
                  else if index = unat cmd then Inr (Inl (calculated_offset + ucast offset))
                  else Inr (Inr calculated_offset)) 0)
            (\<lambda>calculated_offset.
               bind_res (lock_f_pos filp) (\<lambda>filp.
                 Inr (0, unlock_f_pos (filp\<lparr>f_pos := calculated_offset\<rparr>)))))))"

text \<open>
  \<open>_IOWR(0x16, 1, struct aesd_seekto)\<close>: direction read and write, the size of the structure,
  the magic number and the command number. \<open>None\<close> for the user's structure is an address that
  cannot be read.
\<close>

definition AESDCHAR_IOCSEEKTO :: u32 where
  "AESDCHAR_IOCSEEKTO = push_bit 30 3 OR push_bit 16 8 OR push_bit 8 0x16 OR 1"

definition aesd_unlocked_ioctl ::
  "struct_file \<Rightarrow> u32 \<Rightarrow> aesd_seekto option \<Rightarrow> kernel \<Rightarrow> (int \<times> struct_file) res" where
  "aesd_unlocked_ioctl filp cmd arg k =
     (if cmd = AESDCHAR_IOCSEEKTO then
        (case arg of
           Some seekto \<Rightarrow>
             aesd_adjust_file_offset filp (write_cmd seekto) (write_cmd_offset seekto) k
         | None \<Rightarrow> Inr (EFAULT, filp))
      else Inr (- ENOTTY, filp))"

section \<open>Module start and end\<close>

text \<open>
  The answers of \<open>alloc_chrdev_region\<close> (an error or a major number) and of \<open>cdev_add\<close> are
  parameters. \<open>alloc_chrdev_region\<close> writes to \<open>dev\<close> only if it succeeds, so after an error the
  major number is that of the initial \<open>dev\<close>, 0. \<open>memset\<close> clears the whole device.
\<close>

definition aesd_setup_cdev :: "int \<Rightarrow> kernel \<Rightarrow> int \<times> kernel" where
  "aesd_setup_cdev cdev_add_rc k =
     (cdev_add_rc, k\<lparr>cdev_added := (cdev_add_rc = 0)\<rparr>)"

definition zero_dev :: aesd_dev where
  "zero_dev = \<lparr>circular_buffer = aesd_circular_buffer_init, incomplete_command_buffer = NULL,
               incomplete_command_size = 0, lock = False\<rparr>"

definition aesd_init_module :: "int \<Rightarrow> nat \<Rightarrow> int \<Rightarrow> kernel \<Rightarrow> int \<times> kernel" where
  "aesd_init_module alloc_rc major cdev_add_rc k =
     (let k = k\<lparr>aesd_major := if alloc_rc < 0 then 0 else major, chrdev_region := (0 \<le> alloc_rc)\<rparr> in
      if alloc_rc < 0 then (alloc_rc, k)
      else
        let k = k\<lparr>aesd_device := zero_dev\<rparr>;
            k = k\<lparr>aesd_device := (aesd_device k)\<lparr>lock := False\<rparr>\<rparr>;
            k = k\<lparr>aesd_device := (aesd_device k)\<lparr>circular_buffer := aesd_circular_buffer_init\<rparr>\<rparr>;
            k = k\<lparr>aesd_device := (aesd_device k)\<lparr>incomplete_command_buffer := NULL,
                                                 incomplete_command_size := 0\<rparr>\<rparr>;
            (result, k) = aesd_setup_cdev cdev_add_rc k in
        if result \<noteq> 0 then (result, k\<lparr>chrdev_region := False\<rparr>) else (result, k))"

definition set_entry :: "nat \<Rightarrow> aesd_buffer_entry \<Rightarrow> aesd_dev \<Rightarrow> aesd_dev" where
  "set_entry index ent d =
     d\<lparr>circular_buffer := (circular_buffer d)
         \<lparr>entry := (entry (circular_buffer d))[index := ent]\<rparr>\<rparr>"

text \<open>The body of the loop in \<open>aesd_cleanup_module\<close>.\<close>

definition free_slot ::
  "nat \<Rightarrow> aesd_buffer_entry \<Rightarrow> aesd_dev \<times> heap \<Rightarrow> (aesd_dev \<times> heap + aesd_dev \<times> heap) res" where
  "free_slot index temp = (\<lambda>(d, h).
     if buffptr temp \<noteq> NULL
     then bind_res (kfree (buffptr temp) h) (\<lambda>h'.
            Inr (Inr (set_entry index (temp\<lparr>buffptr := NULL\<rparr>) d, h')))
     else Inr (Inr (d, h)))"

definition aesd_cleanup_module :: "kernel \<Rightarrow> kernel res" where
  "aesd_cleanup_module k =
     bind_res
       (let d = aesd_device k in
        if incomplete_command_buffer d \<noteq> NULL
        then bind_res (kfree (incomplete_command_buffer d) (heap k)) (\<lambda>h.
               Inr (d\<lparr>incomplete_command_buffer := NULL, incomplete_command_size := 0\<rparr>, h))
        else Inr (d, heap k)) (\<lambda>dh.
     bind_res
       (cb_foreach (\<lambda>(d, _). circular_buffer d) 0 free_slot dh) (\<lambda>(d, h).
     Inr (k\<lparr>heap := h, aesd_device := d, cdev_added := False, chrdev_region := False\<rparr>)))"

end
