(* ===== verification/Device_State.thy ===== *)
theory Device_State
  imports Char_Device
begin

text \<open>
  What the state of the char device stands for, and the invariant that ties the device to
  the heap: the stored commands, the incomplete command, who owns which block.
\<close>

section \<open>View\<close>

definition dev_lines :: "aesd_dev \<Rightarrow> heap \<Rightarrow> bytes list" where
  "dev_lines d h = map (\<lambda>e. contents h (buffptr e)) (cb_list (circular_buffer d))"

definition dev_pending :: "aesd_dev \<Rightarrow> heap \<Rightarrow> bytes" where
  "dev_pending d h = contents h (incomplete_command_buffer d)"

definition lines :: "kernel \<Rightarrow> bytes list" where
  "lines k = dev_lines (aesd_device k) (heap k)"

definition pending :: "kernel \<Rightarrow> bytes" where
  "pending k = dev_pending (aesd_device k) (heap k)"

text \<open>What a reader sees: the stored commands end to end, oldest first.\<close>

definition stream :: "kernel \<Rightarrow> bytes" where
  "stream k = concat (lines k)"

section \<open>Invariant\<close>

definition owned :: "aesd_dev \<Rightarrow> ptr list" where
  "owned d =
     (if incomplete_command_buffer d = NULL then [] else [incomplete_command_buffer d])
       @ map buffptr (cb_list (circular_buffer d))"

definition dev_ok :: "aesd_dev \<Rightarrow> heap \<Rightarrow> bool" where
  "dev_ok d h \<longleftrightarrow>
     cb_wf (circular_buffer d) \<and>
     (\<forall>e \<in> set (cb_list (circular_buffer d)). holds h (buffptr e) (unat (entry_size e))) \<and>
     (if incomplete_command_buffer d = NULL then incomplete_command_size d = 0
      else holds h (incomplete_command_buffer d) (unat (incomplete_command_size d))) \<and>
     owns h (owned d)"

definition dev_inv :: "kernel \<Rightarrow> bool" where
  "dev_inv k \<longleftrightarrow> dev_ok (aesd_device k) (heap k) \<and> \<not> lock (aesd_device k)"

lemma lines_len: "length (lines k) \<le> 10"
  by (simp add: lines_def dev_lines_def cb_count_le)

definition alloc_never_fails :: "kenv \<Rightarrow> bool" where
  "alloc_never_fails env \<longleftrightarrow> (\<forall>n. kmalloc_ok env n)"

lemma dev_okD:
  assumes "dev_ok d h"
  shows "cb_wf (circular_buffer d)"
    and "e \<in> set (cb_list (circular_buffer d)) \<Longrightarrow> holds h (buffptr e) (unat (entry_size e))"
    and "owns h (owned d)"
  using assms by (auto simp: dev_ok_def)

lemma dev_ok_pending:
  assumes "dev_ok d h"
  shows "length (dev_pending d h) = unat (incomplete_command_size d)"
proof (cases "incomplete_command_buffer d = NULL")
  case False
  then have "holds h (incomplete_command_buffer d) (unat (incomplete_command_size d))"
    using assms by (simp add: dev_ok_def)
  then show ?thesis by (simp add: dev_pending_def holdsD(1))
qed (use assms in \<open>simp add: dev_ok_def dev_pending_def\<close>)

lemma dev_ok_sizes:
  assumes "dev_ok d h"
  shows "entry_sizes (circular_buffer d) = map length (dev_lines d h)"
  using dev_okD(2) [OF assms, THEN holdsD(1)] by (simp add: entry_sizes_def dev_lines_def)

lemma dev_ok_lines_nonempty: "dev_ok d h \<Longrightarrow> [] \<notin> set (dev_lines d h)"
  by (auto simp: dev_lines_def) (metis dev_okD(2) holdsD(4))

lemma length_dev_lines: "length (dev_lines d h) = cb_count (circular_buffer d)"
  by (simp add: dev_lines_def)

text \<open>A slot of the array is empty or owns its block.\<close>

lemma slot_holds:
  assumes "dev_ok d h" and "i < 10"
  shows "entry (circular_buffer d) ! i = zero_entry \<or>
    holds h (buffptr (entry (circular_buffer d) ! i)) (unat (entry_size (entry (circular_buffer d) ! i)))"
  using slot_cases [OF dev_okD(1) [OF assms(1)] assms(2)] dev_okD(2) [OF assms(1)] by blast

lemma dev_ok_same:
  assumes "dev_ok d h" and "blk h' = blk h"
  shows "dev_ok d h'"
  using assms(1) by (simp add: dev_ok_def owns_def live_def assms(2) holds_same [OF assms(2)])

lemma dev_view_same:
  assumes "blk h' = blk h"
  shows "dev_lines d h' = dev_lines d h" and "dev_pending d h' = dev_pending d h"
  by (simp_all add: dev_lines_def dev_pending_def contents_same [OF assms])

text \<open>A change of blocks that no entry points to leaves the entries as they are.\<close>

definition same_entries :: "aesd_dev \<Rightarrow> heap \<Rightarrow> heap \<Rightarrow> bool" where
  "same_entries d h h' \<longleftrightarrow>
     (\<forall>e \<in> set (cb_list (circular_buffer d)). \<forall>b. buffptr e = Blk b \<longrightarrow> blk h' b = blk h b)"

lemma same_entriesI:
  "(\<And>e b. e \<in> set (cb_list (circular_buffer d)) \<Longrightarrow> buffptr e = Blk b \<Longrightarrow> blk h' b = blk h b) \<Longrightarrow>
     same_entries d h h'"
  by (auto simp: same_entries_def)

lemma entries_frame:
  assumes "same_entries d h h'" and "e \<in> set (cb_list (circular_buffer d))"
  shows "contents h' (buffptr e) = contents h (buffptr e)"
    and "holds h' (buffptr e) n = holds h (buffptr e) n"
  using assms by (cases "buffptr e"; auto simp: same_entries_def)+

lemma dev_lines_frame: "same_entries d h h' \<Longrightarrow> dev_lines d h' = dev_lines d h"
  by (simp add: dev_lines_def entries_frame(1))

lemma dev_lines_cong:
  "circular_buffer d' = circular_buffer d \<Longrightarrow> dev_lines d' h = dev_lines d h"
  by (simp add: dev_lines_def)

text \<open>No entry points to the incomplete command or to a block that is not live.\<close>

lemma entry_block:
  assumes "dev_ok d h" and "e \<in> set (cb_list (circular_buffer d))" and "buffptr e = Blk b"
  shows "incomplete_command_buffer d \<noteq> Blk b" and "\<exists>bs. blk h b = Some bs"
proof -
  show "incomplete_command_buffer d \<noteq> Blk b"
    using dev_okD(3) [OF assms(1)] assms(2) assms(3) [symmetric]
    by (auto simp: owns_def owned_def split: if_splits)
  show "\<exists>bs. blk h b = Some bs"
    using dev_okD(2) [OF assms(1,2)] assms(3) by (auto split: option.splits)
qed

text \<open>The invariant does not look at the lock or at the log.\<close>

lemma dev_ok_lock [simp]: "dev_ok (d\<lparr>lock := b\<rparr>) h = dev_ok d h"
  by (simp add: dev_ok_def owned_def)

lemma dev_view_lock [simp]:
  "dev_lines (d\<lparr>lock := b\<rparr>) h = dev_lines d h" "dev_pending (d\<lparr>lock := b\<rparr>) h = dev_pending d h"
  by (simp_all add: dev_lines_def dev_pending_def)

section \<open>Size and log\<close>

lemma aesd_size_eq:
  assumes "dev_ok (aesd_device k) (heap k)"
  shows "aesd_size cb k = Inr (of_nat (length (stream k)))"
proof -
  let ?cb = "circular_buffer (aesd_device k)"
  let ?P = "\<lambda>i (bytes :: u64). bytes = of_nat (\<Sum>j<i. unat (entry_size (entry ?cb ! j)))"
  have wf: "cb_wf ?cb" using assms by (rule dev_okD)
  have "\<exists>s'. cb_foreach (\<lambda>_. ?cb) 0 (\<lambda>_ temp bytes. Inr (Inr (bytes + entry_size temp))) 0
      = Inr s' \<and> ?P 10 s'"
    by (rule cb_foreach_rule [where P = ?P]) (simp_all add: cb_wfD(1) [OF wf])
  then have "aesd_size cb k = Inr (of_nat (sum_list (entry_sizes ?cb)))"
    by (auto simp: aesd_size_def sum_slots [OF wf])
  then show ?thesis
    by (simp add: dev_ok_sizes [OF assms] stream_def lines_def length_concat)
qed

definition print_line :: "kernel \<Rightarrow> nat \<Rightarrow> log_line" where
  "print_line k i =
     (let cb = circular_buffer (aesd_device k); e = entry cb ! i in
      (slot_mark_of cb i, i,
       if buffptr e = NULL then None
       else Some (takeWhile (\<lambda>c. c \<noteq> NUL) (contents (heap k) (buffptr e)))))"

text \<open>One text: the scratch block comes and goes.\<close>

lemma print_slot_text:
  assumes "alloc_never_fails env" and "holds h (buffptr temp) (unat (entry_size temp))"
    and "unat (entry_size temp) < 2 ^ 64 - 1"
  shows "\<exists>h'. print_slot env cb index temp (h, log) =
      Inr (h', log @ [(slot_mark_of cb index, index,
        Some (takeWhile (\<lambda>c. c \<noteq> NUL) (contents h (buffptr temp))))]) \<and> blk h' = blk h"
proof -
  obtain b bs where b: "buffptr temp = Blk b" "blk h b = Some bs" "length bs = unat (entry_size temp)"
    using assms(2) by (rule holdsE)
  let ?n = "unat (entry_size temp)" and ?c = "length h"
  have size: "unat (entry_size temp + 1) = ?n + 1"
    using assms(3) by (simp add: unat_word_ariths)
  let ?j = "map (kmalloc_junk env ?c) [0..<?n + 1]"
  have "b < ?c" using b(2) by (rule blk_SomeD)
  have copy: "memcpy (Blk ?c) 0 (Blk b) 0 ?n (h @ [Some ?j])
      = Inr ((h @ [Some ?j])[?c := Some (bs @ drop ?n ?j)])"
    using b \<open>b < ?c\<close> by (simp add: memcpy_def load_Blk store_Blk)
  let ?h2 = "(h @ [Some ?j])[?c := Some (bs @ drop ?n ?j)]"
  have "store (Blk ?c) ?n [NUL] ?h2 = Inr (?h2[?c := Some (bs @ [NUL])])"
    using b by (subst store_Blk [where bs = "bs @ drop ?n ?j"]) auto
  moreover have "load (Blk ?c) 0 (?n + 1) (?h2[?c := Some (bs @ [NUL])]) = Inr (bs @ [NUL])"
    using b by (subst load_Blk) auto
  moreover have "kmalloc env (?n + 1) h = (Blk ?c, h @ [Some ?j])"
    using assms(1) by (simp add: kmalloc_ok_simp alloc_never_fails_def)
  ultimately have "print_slot env cb index temp (h, log) =
      Inr ((?h2[?c := Some (bs @ [NUL])])[?c := None], log @ [(slot_mark_of cb index, index,
        Some (takeWhile (\<lambda>c. c \<noteq> NUL) bs))])"
    using b copy size by (simp add: print_slot_def takeWhile_snoc_stop)
  then show ?thesis using b by (auto simp: heap_map fun_eq_iff)
qed

lemma print_cb_ok:
  assumes "alloc_never_fails env" and ok: "dev_ok (aesd_device k) (heap k)"
    and small: "length (stream k) < 2 ^ 63"
  shows "\<exists>h'. aesd_print_cb env (circular_buffer (aesd_device k)) k =
      Inr (k\<lparr>heap := h', klog := klog k @ map (print_line k) [0..<10]\<rparr>) \<and> blk h' = blk (heap k)"
proof -
  let ?cb = "circular_buffer (aesd_device k)" and ?h = "heap k"
  let ?body = "\<lambda>index temp s. bind_res (print_slot env ?cb index temp s) (\<lambda>s'. Inr (Inr s'))"
  let ?P = "\<lambda>i (h', log). blk h' = blk ?h \<and> log = klog k @ map (print_line k) [0..<i]"
  note wf = dev_okD(1) [OF ok]
  have step: "\<exists>s'. ?body i (entry ?cb ! i) s = Inr (Inr s') \<and> ?P (Suc i) s'"
    if i: "i < 10" and P: "?P i s" for i s
  proof -
    obtain h' log where s: "s = (h', log)" by (cases s)
    let ?e = "entry ?cb ! i"
    have same: "blk h' = blk ?h" and log: "log = klog k @ map (print_line k) [0..<i]"
      using P s by auto
    consider "buffptr ?e = NULL" | "holds ?h (buffptr ?e) (unat (entry_size ?e))" "buffptr ?e \<noteq> NULL"
      using slot_holds [OF ok i] by (auto simp: zero_entry_def dest: holdsD(3))
    then show ?thesis
    proof cases
      case 1
      then show ?thesis using same log s by (simp add: print_slot_def print_line_def Let_def)
    next
      case 2
      have "unat (entry_size ?e) \<le> (\<Sum>j<10. unat (entry_size (entry ?cb ! j)))"
        using i by (intro member_le_sum) auto
      also have "\<dots> = length (stream k)"
        using sum_slots [OF wf] dev_ok_sizes [OF ok] by (simp add: stream_def lines_def length_concat)
      finally have "unat (entry_size ?e) < 2 ^ 64 - 1" using small by simp
      then obtain h'' where "print_slot env ?cb i ?e (h', log) = Inr (h'', log @ [(slot_mark_of ?cb i, i,
          Some (takeWhile (\<lambda>c. c \<noteq> NUL) (contents h' (buffptr ?e))))])" "blk h'' = blk h'"
        using print_slot_text [OF assms(1), of h' ?e ?cb i log] 2 holds_same [OF same] by auto
      then show ?thesis
        using s same log 2 contents_same [OF same] by (simp add: print_line_def Let_def)
    qed
  qed
  have "\<exists>s'. cb_foreach (\<lambda>_. ?cb) 0 ?body (?h, klog k) = Inr s' \<and> ?P 10 s'"
    using step cb_wfD(1) [OF wf] by (intro cb_foreach_rule [where P = ?P]) auto
  then obtain h' where h': "cb_foreach (\<lambda>_. ?cb) 0 ?body (?h, klog k)
      = Inr (h', klog k @ map (print_line k) [0..<10])" "blk h' = blk ?h"
    by (auto simp del: upt_rec_numeral)
  then show ?thesis
    by (intro exI [of _ h']) (simp add: aesd_print_cb_def aesd_size_eq [OF ok] del: upt_rec_numeral)
qed

end
