(* ===== verification/Device_Write.thy ===== *)
theory Device_Write
  imports Device_State
begin

text \<open>
  \<open>aesd_write\<close>: what each of its parts does to the device and the heap, what a write does to
  the stored commands and to the incomplete one, and where the code departs from that.
\<close>

section \<open>Gathering the bytes\<close>

text \<open>
  With memory and a readable buffer, the new block holds the old incomplete command and then
  the caller's bytes, and the old block is gone.
\<close>

lemma gather_pending:
  assumes ok: "dev_ok d h" and env: "kmalloc_ok env (length h)"
    and "unat count \<le> length ubuf"
    and nowrap: "unat (incomplete_command_size d) + unat count < 2 ^ 64"
    and "incomplete_command_buffer d \<noteq> NULL"
  shows "\<exists>h'. write_gather env ubuf count d h =
      Inr (True, d\<lparr>incomplete_command_buffer := Blk (length h),
                   incomplete_command_size := incomplete_command_size d + count\<rparr>, h') \<and>
    (\<exists>b. incomplete_command_buffer d = Blk b \<and> b < length h \<and>
       blk h' = (blk h)(length h \<mapsto> dev_pending d h @ take (unat count) ubuf, b := None)) \<and>
    length h' = Suc (length h)"
proof -
  let ?n = "unat (incomplete_command_size d)" and ?c = "length h" and ?m = "unat count"
  obtain b bs where b: "incomplete_command_buffer d = Blk b" "blk h b = Some bs" "length bs = ?n"
      "0 < ?n" "dev_pending d h = bs"
    using ok assms(5) by (auto simp: dev_ok_def dev_pending_def elim!: holdsE)
  have "b < ?c" using b(2) by (rule blk_SomeD)
  have total: "unat (incomplete_command_size d + count) = ?n + ?m"
    using nowrap by (rule unat_add_u64)
  let ?j = "map (kmalloc_junk env ?c) [0..<?n + ?m]" and ?new = "take ?m ubuf"
  let ?h2 = "(h @ [Some ?j])[?c := Some (bs @ drop ?n ?j), b := None]"
  have "kmalloc env (?n + ?m) h = (Blk ?c, h @ [Some ?j])"
    using env b(4) by (simp add: kmalloc_ok_simp)
  moreover have "bind_res (memcpy (Blk ?c) 0 (Blk b) 0 ?n (h @ [Some ?j])) (kfree (Blk b)) = Inr ?h2"
    using b \<open>b < ?c\<close> by (simp add: memcpy_def load_Blk store_Blk)
  moreover have "store (Blk ?c) ?n ?new ?h2 = Inr (?h2[?c := Some (bs @ ?new)])"
    using b \<open>b < ?c\<close> assms(3) by (subst store_Blk [where bs = "bs @ drop ?n ?j"]) (auto simp: min_def)
  ultimately have "write_gather env ubuf count d h =
      Inr (True, d\<lparr>incomplete_command_buffer := Blk ?c,
                   incomplete_command_size := incomplete_command_size d + count\<rparr>,
           ?h2[?c := Some (bs @ ?new)])"
    using b assms(3) by (simp add: write_gather_def total copy_from_user_def)
  moreover have "blk (?h2[?c := Some (bs @ ?new)]) = (blk h)(?c \<mapsto> bs @ ?new, b := None)"
    using \<open>b < ?c\<close> by (auto simp: fun_eq_iff)
  ultimately show ?thesis using b(1,5) \<open>b < ?c\<close> by auto
qed

lemma gather_fresh:
  assumes ok: "dev_ok d h" and env: "kmalloc_ok env (length h)"
    and "unat count \<le> length ubuf" and "0 < unat count"
    and "incomplete_command_buffer d = NULL"
  shows "\<exists>h'. write_gather env ubuf count d h =
      Inr (True, d\<lparr>incomplete_command_buffer := Blk (length h),
                   incomplete_command_size := incomplete_command_size d + count\<rparr>, h') \<and>
    blk h' = (blk h)(length h \<mapsto> take (unat count) ubuf) \<and> length h' = Suc (length h)"
proof -
  let ?c = "length h" and ?m = "unat count"
  have size: "incomplete_command_size d = 0" using ok assms(5) by (simp add: dev_ok_def)
  let ?j = "map (kmalloc_junk env ?c) [0..<?m]"
  have "store (Blk ?c) 0 (take ?m ubuf) (h @ [Some ?j]) = Inr ((h @ [Some ?j])[?c := Some (take ?m ubuf)])"
    using assms(3) by (subst store_Blk [where bs = ?j]) (auto simp: min_def)
  then have "write_gather env ubuf count d h =
      Inr (True, d\<lparr>incomplete_command_buffer := Blk ?c,
                   incomplete_command_size := incomplete_command_size d + count\<rparr>,
           (h @ [Some ?j])[?c := Some (take ?m ubuf)])"
    using env assms(3,4,5) by (simp add: write_gather_def size copy_from_user_def kmalloc_ok_simp)
  then show ?thesis by (auto simp: fun_eq_iff)
qed

lemma gather_ok:
  assumes ok: "dev_ok d h" and env: "kmalloc_ok env (length h)"
    and count: "unat count \<le> length ubuf"
    and nowrap: "unat (incomplete_command_size d) + unat count < 2 ^ 64"
    and s: "s = dev_pending d h @ take (unat count) ubuf" and "s \<noteq> []"
  shows "\<exists>c h'. let d' = d\<lparr>incomplete_command_buffer := Blk c,
                         incomplete_command_size := incomplete_command_size d + count\<rparr> in
    write_gather env ubuf count d h = Inr (True, d', h') \<and> blk h' c = Some s \<and>
    length s = unat (incomplete_command_size d') \<and> dev_ok d' h' \<and> dev_lines d' h' = dev_lines d h \<and>
    length h' = Suc (length h)"
proof -
  let ?c = "length h" and ?ps = "map buffptr (cb_list (circular_buffer d))"
  let ?d' = "d\<lparr>incomplete_command_buffer := Blk ?c,
               incomplete_command_size := incomplete_command_size d + count\<rparr>"
  have len: "length s = unat (incomplete_command_size ?d')"
    using dev_ok_pending [OF ok] count nowrap by (simp add: s unat_add_u64)
  obtain h' where g: "write_gather env ubuf count d h = Inr (True, ?d', h')"
    and c: "blk h' ?c = Some s"
    and frame: "same_entries d h h'"
    and owns: "owns h' (Blk ?c # ?ps)" and long: "length h' = Suc ?c"
  proof (cases "incomplete_command_buffer d = NULL")
    case True
    then have pend: "dev_pending d h = []" by (simp add: dev_pending_def)
    then have "0 < unat count" using \<open>s \<noteq> []\<close> s by (auto intro: gr0I)
    from gather_fresh [OF ok env count this True] obtain h' where
      h': "write_gather env ubuf count d h = Inr (True, ?d', h')" "blk h' = (blk h)(?c \<mapsto> s)" "length h' = Suc ?c"
      using pend s by auto
    have "owns h' (Blk ?c # ?ps)"
      using dev_okD(3) [OF ok] True h'(2) by (intro owns_alloc [where h = h]) (auto simp: owned_def)
    moreover have "same_entries d h h'"
      using entry_block(2) [OF ok] h'(2) by (intro same_entriesI) fastforce
    ultimately show ?thesis using that h' by auto
  next
    case False
    from gather_pending [OF ok env count nowrap this] obtain h' b where
      h': "write_gather env ubuf count d h = Inr (True, ?d', h')"
      and b: "incomplete_command_buffer d = Blk b" "b < ?c" "blk h' = (blk h)(?c \<mapsto> s, b := None)" "length h' = Suc ?c"
      unfolding s by blast
    have "owns h (Blk b # ?ps)" using dev_okD(3) [OF ok] by (simp add: owned_def b(1))
    then have "owns h' (Blk ?c # ?ps)" using blk_length b(3) by (rule owns_replace)
    moreover have "same_entries d h h'"
    proof (rule same_entriesI)
      fix e b' assume "e \<in> set (cb_list (circular_buffer d))" "buffptr e = Blk b'"
      from entry_block [OF ok this] have "b' \<noteq> b" "b' \<noteq> ?c" using b(1) by auto
      then show "blk h' b' = blk h b'" using b(3) by simp
    qed
    ultimately show ?thesis using that h' b by auto
  qed
  have "0 < unat (incomplete_command_size ?d')"
    using len \<open>s \<noteq> []\<close> by (metis length_greater_0_conv)
  then have "dev_ok ?d' h'"
    using dev_okD [OF ok] owns c len entries_frame(2) [OF frame] \<open>s \<noteq> []\<close>
    by (simp add: dev_ok_def owned_def)
  moreover have "dev_lines ?d' h' = dev_lines d h"
    using dev_lines_frame [OF frame] by (simp add: dev_lines_def)
  ultimately show ?thesis using g c len long unfolding Let_def by blast
qed

section \<open>One command\<close>

text \<open>
  The first command of the buffer: its bytes, up to and with the newline at offset \<open>i\<close>, become
  a block of their own that the circular buffer owns; if that pushes an old entry out, its
  block is freed.
\<close>

lemma write_command_heap:
  assumes env: "alloc_never_fails env" and wf: "cb_wf cb"
    and b: "blk h b = Some s" and i: "i < length s"
    and evict: "full cb \<Longrightarrow> \<exists>e bs. buffptr (hd (cb_list cb)) = Blk e \<and> blk h e = Some bs"
  shows "\<exists>h' e m. write_command env (Blk b) 0 i cb h = Inr (True, snd (cb_put e cb), h') \<and>
    buffptr e = Blk m \<and> entry_size e = of_nat (i + 1) \<and> blk h m = None \<and>
    blk h' = (if full cb
              then (blk h)(m \<mapsto> take (i + 1) s, the_inv Blk (buffptr (hd (cb_list cb))) := None)
              else (blk h)(m \<mapsto> take (i + 1) s))"
proof -
  let ?c = "length h" and ?m = "Suc (length h)" and ?t = "take (i + 1) s"
  let ?e = "\<lparr>buffptr = Blk ?m, entry_size = of_nat (i + 1)\<rparr>"
  have kok: "kmalloc_ok env n" for n using env by (simp add: alloc_never_fails_def)
  obtain h1 h2 where 1: "kmalloc env (i + 1) h = (Blk ?c, h1)"
      "memcpy (Blk ?c) 0 (Blk b) 0 (i + 1) h1 = Inr h2"
      "blk h2 = (blk h)(?c \<mapsto> ?t)" "length h2 = Suc ?c"
    using alloc_copy [OF kok, of "i + 1" h b s 0] b i by auto
  obtain h3 h4 where 2: "kmalloc env (i + 1) h2 = (Blk ?m, h3)"
      "memcpy (Blk ?m) 0 (Blk ?c) 0 (i + 1) h3 = Inr h4"
      "blk h4 = (blk h2)(?m \<mapsto> ?t)" "length h4 = Suc ?m"
    using alloc_copy [OF kok, of "i + 1" h2 ?c ?t 0] 1 i by auto
  obtain h5 where 3: "kfree (Blk ?c) h4 = Inr h5" "blk h5 = (blk h4)(?c := None)"
    using kfree_map [of h4 ?c ?t] 1 2 by auto
  have h5: "blk h5 = (blk h)(?m \<mapsto> ?t)"
    by (auto simp: 1 2 3 fun_eq_iff)
  have inj: "the_inv Blk (Blk x) = x" for x by (rule the_inv_f_f) (simp add: inj_def)
  show ?thesis
  proof (cases "full cb")
    case False
    then have "write_command env (Blk b) 0 i cb h = Inr (True, snd (cb_put ?e cb), h5)"
      using 1 2 3 add_entry_eq [OF wf, of ?e] by (simp add: write_command_def)
    then show ?thesis using False h5 by (intro exI [of _ h5] exI [of _ ?e] exI [of _ ?m]) (simp add: blk_beyond)
  next
    case True
    then obtain e bs where e: "buffptr (hd (cb_list cb)) = Blk e" "blk h e = Some bs"
      using evict by blast
    then have "e < ?c" by (auto dest: blk_SomeD)
    obtain h6 where 4: "kfree (Blk e) h5 = Inr h6" "blk h6 = (blk h5)(e := None)"
      using kfree_map [of h5 e bs] e h5 \<open>e < ?c\<close> by auto
    then have "write_command env (Blk b) 0 i cb h = Inr (True, snd (cb_put ?e cb), h6)"
      using 1 2 3 e True add_entry_eq [OF wf, of ?e] by (simp add: write_command_def)
    then show ?thesis
      using True h5 4 e inj by (intro exI [of _ h6] exI [of _ ?e] exI [of _ ?m]) (simp add: blk_beyond)
  qed
qed

definition push_line :: "bytes \<Rightarrow> bytes list \<Rightarrow> bytes list" where
  "push_line l ls = drop (Suc (length ls) - 10) (ls @ [l])"

lemma command_step_room:
  assumes ok: "dev_ok d h" and env: "alloc_never_fails env"
    and icb: "incomplete_command_buffer d = Blk b" and b: "blk h b = Some s"
    and i: "i < length s" "length s < 2 ^ 64" and room: "\<not> full (circular_buffer d)"
  shows "\<exists>cb' h'. let d' = d\<lparr>circular_buffer := cb'\<rparr> in
    write_command env (Blk b) 0 i (circular_buffer d) h = Inr (True, cb', h') \<and>
    dev_ok d' h' \<and> blk h' b = Some s \<and>
    dev_lines d' h' = push_line (take (i + 1) s) (dev_lines d h)"
proof -
  let ?cb = "circular_buffer d" and ?t = "take (i + 1) s"
  note wf = dev_okD(1) [OF ok]
  obtain h' e1 m where w: "write_command env (Blk b) 0 i ?cb h = Inr (True, snd (cb_put e1 ?cb), h')"
    and e1: "buffptr e1 = Blk m" "entry_size e1 = of_nat (i + 1)" and m: "blk h m = None" and h': "blk h' = (blk h)(m \<mapsto> ?t)"
    using write_command_heap [OF env wf b i(1)] room by auto
  let ?d' = "d\<lparr>circular_buffer := snd (cb_put e1 ?cb)\<rparr>"
  have list: "cb_list (snd (cb_put e1 ?cb)) = cb_list ?cb @ [e1]"
    using cb_put_not_full_list(1) [OF wf room] .
  have frame: "same_entries d h h'"
  proof (rule same_entriesI)
    fix e b' assume "e \<in> set (cb_list ?cb)" "buffptr e = Blk b'"
    from entry_block(2) [OF ok this] show "blk h' b' = blk h b'" using m h' by auto
  qed
  have "unat (of_nat (i + 1) :: u64) = i + 1" using i by (intro unat_of_nat_u64) simp
  then have size: "unat (entry_size e1) = length ?t" using i e1(2) by simp
  have "owns h' (Blk m # owned d)" using dev_okD(3) [OF ok] m h' by (rule owns_alloc)
  then have "owns h' (owned ?d')" by (simp add: owned_def list icb e1(1) owns_move [of h' "_ # _", simplified])
  moreover have "b \<noteq> m" using m b by auto
  moreover have "holds h (Blk b) (unat (incomplete_command_size d))"
    using ok icb by (simp add: dev_ok_def)
  ultimately have "dev_ok ?d' h'"
    using cb_put_wf [OF wf, of e1] dev_okD(2) [OF ok] entries_frame(2) [OF frame] size i b h'
    by (auto simp: dev_ok_def list icb e1(1))
  moreover have "dev_lines ?d' h' = push_line ?t (dev_lines d h)"
  proof -
    have "length (dev_lines d h) < 10"
      using not_full_offs(3) [OF wf room] by (simp add: length_dev_lines)
    then show ?thesis
      using dev_lines_frame [OF frame] h' by (simp add: dev_lines_def list push_line_def e1(1))
  qed
  ultimately show ?thesis using w b h' \<open>b \<noteq> m\<close> unfolding Let_def by auto
qed

lemma command_step_full:
  assumes ok: "dev_ok d h" and env: "alloc_never_fails env"
    and icb: "incomplete_command_buffer d = Blk b" and b: "blk h b = Some s"
    and i: "i < length s" "length s < 2 ^ 64" and full: "full (circular_buffer d)"
  shows "\<exists>cb' h'. let d' = d\<lparr>circular_buffer := cb'\<rparr> in
    write_command env (Blk b) 0 i (circular_buffer d) h = Inr (True, cb', h') \<and>
    dev_ok d' h' \<and> blk h' b = Some s \<and>
    dev_lines d' h' = push_line (take (i + 1) s) (dev_lines d h)"
proof -
  let ?cb = "circular_buffer d" and ?t = "take (i + 1) s"
  note wf = dev_okD(1) [OF ok]
  have ten: "cb_count ?cb = 10" using full by (simp add: full_iff_count)
  then obtain e0 es where es: "cb_list ?cb = e0 # es"
    by (cases "cb_list ?cb") (auto simp flip: length_cb_list)
  obtain b0 bs0 where b0: "buffptr e0 = Blk b0" "blk h b0 = Some bs0"
    using dev_okD(2) [OF ok, of e0] es by (auto elim!: holdsE)
  obtain h' e1 m where w: "write_command env (Blk b) 0 i ?cb h = Inr (True, snd (cb_put e1 ?cb), h')"
    and e1: "buffptr e1 = Blk m" "entry_size e1 = of_nat (i + 1)" and m: "blk h m = None" and h': "blk h' = (blk h)(m \<mapsto> ?t, b0 := None)"
    using write_command_heap [OF env wf b i(1)] full es b0
    by (auto simp: the_inv_f_f [of Blk] inj_def)
  let ?d' = "d\<lparr>circular_buffer := snd (cb_put e1 ?cb)\<rparr>"
  have list: "cb_list (snd (cb_put e1 ?cb)) = es @ [e1]"
    using cb_put_full_list(1) [OF wf full] es by simp
  have owns: "owns h (Blk b0 # Blk b # map buffptr es)"
    using dev_okD(3) [OF ok] es b0 icb owns_move [of h "[Blk b]"] by (simp add: owned_def)
  then have ne: "b \<noteq> b0" "b \<noteq> m" "b0 \<noteq> m" using m b b0 by (auto simp: owns_def)
  have other: "blk h' b' = blk h b'" if "e \<in> set es" "buffptr e = Blk b'" for e b'
  proof -
    have "b' \<noteq> b0" using owns that by (auto simp: owns_def dest: sym)
    moreover have "b' \<noteq> m" using entry_block(2) [OF ok, of e b'] that es m by auto
    ultimately show ?thesis using h' by simp
  qed
  then have view: "contents h' (buffptr e) = contents h (buffptr e)"
      "holds h' (buffptr e) n = holds h (buffptr e) n" if "e \<in> set es" for e n
    using that by (cases "buffptr e"; auto)+
  have "unat (of_nat (i + 1) :: u64) = i + 1" using i by (intro unat_of_nat_u64) simp
  then have size: "unat (entry_size e1) = length ?t" using i e1(2) by simp
  have "owns h' (Blk m # Blk b # map buffptr es)" using owns m h' by (rule owns_replace)
  then have "owns h' (owned ?d')"
    using owns_move [of h' "Blk b # map buffptr es" "Blk m" "[]"] by (simp add: owned_def list icb e1(1))
  moreover have "holds h (Blk b) (unat (incomplete_command_size d))"
    using ok icb by (simp add: dev_ok_def)
  ultimately have "dev_ok ?d' h'"
    using cb_put_wf [OF wf, of e1] dev_okD(2) [OF ok] es view(2) size i b h' ne
    by (auto simp: dev_ok_def list icb e1(1))
  moreover have "dev_lines ?d' h' = push_line ?t (dev_lines d h)"
    using view(1) h' ne ten es by (simp add: dev_lines_def list push_line_def e1(1) flip: length_cb_list)
  ultimately show ?thesis using w b h' ne unfolding Let_def by auto
qed

lemmas command_step = command_step_room command_step_full

text \<open>The only change to the circular buffer is one \<open>add_entry\<close>, if there is a command.\<close>

definition one_put :: "bytes list \<Rightarrow> aesd_circular_buffer \<Rightarrow> aesd_circular_buffer \<Rightarrow> bool" where
  "one_put cmds cb cb' \<longleftrightarrow> (if cmds = [] then cb' = cb else \<exists>e. cb' = snd (cb_put e cb))"

lemma write_command_put:
  "cb_wf cb \<Longrightarrow> write_command env buf start i cb h = Inr (True, cb', h') \<Longrightarrow> one_put [cmd] cb cb'"
  unfolding one_put_def
  by (auto simp: write_command_def add_entry_eq res_iff Let_def case_prod_unfold
      simp del: add_Suc_right Suc_eq_plus1 split: if_split_asm)

section \<open>All commands\<close>

text \<open>
  The loop on a buffer with one newline stores the command up to it; on a buffer without one
  it does nothing.
\<close>

lemma write_loop_none:
  assumes "blk h b = Some s" and "NL \<notin> set (drop start s)" and "start + n = length s"
  shows "write_loop env (Blk b) start n cb h = Inr (True, start, cb, h)"
  using assms by (subst write_loop.simps) (simp add: memchr_Blk index_of_None [THEN iffD2])

lemma write_loop_one:
  assumes ok: "dev_ok d h" and env: "alloc_never_fails env"
    and icb: "incomplete_command_buffer d = Blk b" and b: "blk h b = Some s"
    and s: "s = l @ NL # r" "NL \<notin> set l" "NL \<notin> set r" and len: "length s < 2 ^ 64"
  shows "\<exists>cb' h'. let d' = d\<lparr>circular_buffer := cb'\<rparr> in
    write_loop env (Blk b) 0 (length s) (circular_buffer d) h =
      Inr (True, Suc (length l), cb', h') \<and> one_put [l @ [NL]] (circular_buffer d) cb' \<and>
    dev_ok d' h' \<and> blk h' b = Some s \<and> dev_lines d' h' = push_line (l @ [NL]) (dev_lines d h)"
proof -
  let ?i = "length l"
  have i: "?i < length s" and take: "take (?i + 1) s = l @ [NL]" by (simp_all add: s)
  obtain cb' h' where c: "write_command env (Blk b) 0 ?i (circular_buffer d) h = Inr (True, cb', h')"
      "dev_ok (d\<lparr>circular_buffer := cb'\<rparr>) h'" "blk h' b = Some s"
      "dev_lines (d\<lparr>circular_buffer := cb'\<rparr>) h' = push_line (l @ [NL]) (dev_lines d h)"
    using command_step [OF ok env icb b i len] unfolding take Let_def by blast
  have "memchr (Blk b) 0 NL (length s) h = Inr (Some ?i)"
    using b s by (simp add: memchr_Blk index_of_split)
  then have "write_loop env (Blk b) 0 (length s) (circular_buffer d) h =
      write_loop env (Blk b) (Suc ?i) (length s - Suc ?i) cb' h'"
    using i by (subst write_loop.simps) (simp add: c(1) s)
  also have "\<dots> = Inr (True, Suc ?i, cb', h')"
    using c(3) s by (intro write_loop_none) auto
  finally show ?thesis using c write_command_put [OF dev_okD(1) [OF ok] c(1)] unfolding Let_def by auto
qed

section \<open>The rest\<close>

lemma keep_excess_some:
  assumes ok: "dev_ok d h" and env: "alloc_never_fails env"
    and icb: "incomplete_command_buffer d = Blk b" and b: "blk h b = Some s" and start: "start < length s"
  shows "\<exists>d' h'. keep_excess env start (incomplete_command_size d) d h = Inr (True, d', h') \<and>
    dev_ok d' h' \<and> dev_lines d' h' = dev_lines d h \<and> dev_pending d' h' = drop start s \<and>
    circular_buffer d' = circular_buffer d \<and> lock d' = lock d"
proof -
  let ?c = "length h" and ?n = "length s - start"
  have size: "unat (incomplete_command_size d) = length s"
    using ok icb b by (simp add: dev_ok_def)
  then have n: "unat (of_nat ?n :: u64) = ?n"
    using unat_u64_lt [of "incomplete_command_size d"] by (intro unat_of_nat_u64) simp
  have kok: "kmalloc_ok env ?c" using env by (simp add: alloc_never_fails_def)
  obtain h1 h2 where 1: "kmalloc env ?n h = (Blk ?c, h1)" "memcpy (Blk ?c) 0 (Blk b) start ?n h1 = Inr h2"
      "blk h2 = (blk h)(?c \<mapsto> take ?n (drop start s))"
    using alloc_copy [OF kok, of ?n b s start] b start by auto
  have lt: "b < ?c" using b by (rule blk_SomeD)
  then obtain h3 where 2: "kfree (Blk b) h2 = Inr h3" "blk h3 = (blk h2)(b := None)"
    using kfree_map [of h2 b s] 1 b by auto
  let ?d' = "d\<lparr>incomplete_command_buffer := Blk ?c, incomplete_command_size := of_nat ?n\<rparr>"
  have h3: "blk h3 = (blk h)(?c \<mapsto> drop start s, b := None)"
    using 1 2 by simp
  have "keep_excess env start (incomplete_command_size d) d h = Inr (True, ?d', h3)"
    using start 1 2 by (simp add: keep_excess_def size icb del: of_nat_diff)
  moreover have frame: "same_entries d h h3"
  proof (rule same_entriesI)
    fix e b' assume "e \<in> set (cb_list (circular_buffer d))" "buffptr e = Blk b'"
    from entry_block [OF ok this] show "blk h3 b' = blk h b'" using h3 icb by auto
  qed
  have "owns h (Blk b # map buffptr (cb_list (circular_buffer d)))"
    using dev_okD(3) [OF ok] icb by (simp add: owned_def)
  then have "owns h3 (owned ?d')"
    using owns_replace [OF _ blk_length h3] by (simp add: owned_def)
  then have "dev_ok ?d' h3"
    using dev_okD(1,2) [OF ok] entries_frame(2) [OF frame] h3 lt start n
    by (simp add: dev_ok_def del: of_nat_diff)
  moreover have "dev_lines ?d' h3 = dev_lines d h"
    using dev_lines_frame [OF frame] by (simp add: dev_lines_def)
  moreover have "dev_pending ?d' h3 = drop start s" using h3 lt by (simp add: dev_pending_def)
  ultimately show ?thesis by (intro exI [of _ ?d'] exI [of _ h3]) simp
qed

lemma keep_excess_none:
  assumes ok: "dev_ok d h" and icb: "incomplete_command_buffer d = Blk b" and b: "blk h b = Some s"
  shows "\<exists>d' h'. keep_excess env (length s) (incomplete_command_size d) d h = Inr (True, d', h') \<and>
    dev_ok d' h' \<and> dev_lines d' h' = dev_lines d h \<and> dev_pending d' h' = [] \<and>
    circular_buffer d' = circular_buffer d \<and> lock d' = lock d"
proof -
  have size: "unat (incomplete_command_size d) = length s"
    using ok icb b by (simp add: dev_ok_def)
  obtain h' where h': "kfree (Blk b) h = Inr h'" "blk h' = (blk h)(b := None)"
    using kfree_map [OF b] by auto
  let ?d' = "d\<lparr>incomplete_command_buffer := NULL, incomplete_command_size := 0\<rparr>"
  have frame: "same_entries d h h'"
  proof (rule same_entriesI)
    fix e b' assume "e \<in> set (cb_list (circular_buffer d))" "buffptr e = Blk b'"
    from entry_block [OF ok this] show "blk h' b' = blk h b'" using h' icb by auto
  qed
  have "owns h (Blk b # owned ?d')" using dev_okD(3) [OF ok] icb by (simp add: owned_def)
  then have "owns h' (owned ?d')" using h'(2) by (rule owns_free)
  then have "dev_ok ?d' h'"
    using dev_okD(1,2) [OF ok] entries_frame(2) [OF frame] by (simp add: dev_ok_def)
  moreover have "dev_lines ?d' h' = dev_lines d h"
    using dev_lines_frame [OF frame] by (simp add: dev_lines_def)
  moreover have "keep_excess env (length s) (incomplete_command_size d) d h = Inr (True, ?d', h')"
    using h' by (simp add: keep_excess_def size icb)
  ultimately show ?thesis
    by (intro exI [of _ ?d'] exI [of _ h']) (simp add: dev_pending_def)
qed

lemma keep_excess_ok:
  assumes "dev_ok d h" and "alloc_never_fails env"
    and "incomplete_command_buffer d = Blk b" and "blk h b = Some s" and "start \<le> length s"
  shows "\<exists>d' h'. keep_excess env start (incomplete_command_size d) d h = Inr (True, d', h') \<and>
    dev_ok d' h' \<and> dev_lines d' h' = dev_lines d h \<and> dev_pending d' h' = drop start s \<and>
    circular_buffer d' = circular_buffer d \<and> lock d' = lock d"
  using keep_excess_some [OF assms(1-4)] keep_excess_none [OF assms(1,3,4)] assms(5)
  by (cases "start = length s") auto

section \<open>What a write should do\<close>

text \<open>
  The specification: the incomplete command and the new bytes are cut after each newline; the
  pieces join the stored commands, of which the last ten stay, and the rest is the new
  incomplete command.
\<close>

fun split_cmds :: "bytes \<Rightarrow> bytes list \<times> bytes" where
  "split_cmds [] = ([], [])"
| "split_cmds (c # cs) =
     (case split_cmds cs of
        (ls, r) \<Rightarrow>
          if c = NL then ([NL] # ls, r)
          else (case ls of [] \<Rightarrow> ([], c # r) | l # ls' \<Rightarrow> ((c # l) # ls', r)))"

definition spec_write :: "bytes \<Rightarrow> bytes list \<times> bytes \<Rightarrow> bytes list \<times> bytes" where
  "spec_write data st =
     (case split_cmds (snd st @ data) of (cmds, r) \<Rightarrow> (fold push_line cmds (fst st), r))"

lemma split_cmds_none: "NL \<notin> set s \<Longrightarrow> split_cmds s = ([], s)"
  by (induction s) auto

lemma split_cmds_cmd:
  "NL \<notin> set l \<Longrightarrow> split_cmds (l @ NL # s) = ((l @ [NL]) # fst (split_cmds s), snd (split_cmds s))"
  by (induction l) (auto split: prod.split)

lemma split_cmds_concat: "concat (fst (split_cmds s)) @ snd (split_cmds s) = s"
  by (induction s) (auto split: prod.splits list.splits)

lemma split_cmds_rest: "NL \<notin> set (snd (split_cmds s))"
  by (induction s) (auto split: prod.splits list.splits)

lemma length_push_line: "length (concat (push_line l ls)) \<le> length (concat ls) + length l"
proof -
  have "length (concat (drop n xs)) \<le> length (concat xs)" for n and xs :: "bytes list"
    by (metis append_take_drop_id concat_append length_append le_add2)
  then show ?thesis unfolding push_line_def by (metis concat_append concat.simps length_append append_Nil2)
qed

section \<open>What a write does\<close>

text \<open>
  The preconditions of the happy path: the file is open, the kernel has memory, the caller's
  buffer can be read, and the data is smaller than an address space.
\<close>

definition write_pre :: "kenv \<Rightarrow> bytes \<Rightarrow> struct_file \<Rightarrow> u64 \<Rightarrow> kernel \<Rightarrow> bool" where
  "write_pre env ubuf filp count k \<longleftrightarrow>
     alloc_never_fails env \<and> private_data filp = Dev_aesd \<and> unat count \<le> length ubuf \<and>
     length (stream k) + length (pending k) + unat count < 2 ^ 63"

text \<open>The bytes the loop works on, and the parts after the gathering.\<close>

lemma write_finish:
  assumes inv: "dev_inv k" and pre: "write_pre env ubuf filp count k"
    and gather: "write_gather env ubuf count ((aesd_device k)\<lparr>lock := True\<rparr>) (heap k) = Inr (True, d1, h1)"
    and loop: "write_loop env (incomplete_command_buffer d1) 0 (unat (incomplete_command_size d1))
        (circular_buffer d1) h1 = Inr (True, start, cb', h2)"
    and keep: "keep_excess env start (incomplete_command_size d1) (d1\<lparr>circular_buffer := cb'\<rparr>) h2
        = Inr (True, d3, h3)"
    and ok: "dev_ok d3 h3" and small: "length (concat (dev_lines d3 h3)) < 2 ^ 63"
  shows "\<exists>h'. blk h' = blk h3 \<and> aesd_write env False ubuf filp count k = Inr (int (unat count),
    k\<lparr>heap := h', aesd_device := d3\<lparr>lock := False\<rparr>,
      klog := klog k @ map (print_line (k\<lparr>heap := h3, aesd_device := d3\<rparr>)) [0..<10]\<rparr>)"
proof -
  let ?k3 = "k\<lparr>heap := h3, aesd_device := d3\<rparr>"
  have "dev_ok (aesd_device ?k3) (heap ?k3)" "length (stream ?k3) < 2 ^ 63"
    using ok small by (simp_all add: stream_def lines_def)
  then obtain h' where h': "aesd_print_cb env (circular_buffer d3) ?k3 =
      Inr (?k3\<lparr>heap := h', klog := klog k @ map (print_line ?k3) [0..<10]\<rparr>)" "blk h' = blk h3"
    using print_cb_ok [of env ?k3] pre by (auto simp: write_pre_def simp del: upt_rec_numeral)
  have "sint count = int (unat count)" using pre by (intro sint_of_small) (simp add: write_pre_def)
  moreover have "deref_dev filp k = Inr (aesd_device k)"
    using pre by (simp add: write_pre_def deref_dev_def)
  moreover have "mutex_lock_interruptible False (aesd_device k) = Inr (False, (aesd_device k)\<lparr>lock := True\<rparr>)"
    using inv by (simp add: dev_inv_def mutex_lock_interruptible_def)
  ultimately have "aesd_write env False ubuf filp count k = Inr (int (unat count),
    (?k3\<lparr>heap := h', klog := klog k @ map (print_line ?k3) [0..<10]\<rparr>)\<lparr>aesd_device := d3\<lparr>lock := False\<rparr>\<rparr>)"
    using gather loop keep h'(1)
    by (simp add: aesd_write_def Let_def mutex_unlock_def del: upt_rec_numeral)
  then show ?thesis using h'(2) by (intro exI [of _ h']) (simp del: upt_rec_numeral)
qed

lemma one_newline_cases:
  assumes "count_list s NL \<le> 1"
  obtains (none) "NL \<notin> set s" | (one) l r where "s = l @ NL # r" "NL \<notin> set l" "NL \<notin> set r"
proof (cases "NL \<in> set s")
  case True
  then obtain l r where s: "s = l @ NL # r" "NL \<notin> set l" by (blast dest: split_list_first)
  then have "count_list r NL = 0" using assms by (simp add: count_list_0_iff)
  then show ?thesis using one s by (simp add: count_list_0_iff)
qed (rule none)

text \<open>An empty write on an empty incomplete command: \<open>kmalloc(0)\<close> and nothing to copy.\<close>

lemma write_empty:
  assumes ok: "dev_ok d h" and "s = []" and s: "s = dev_pending d h @ take (unat count) ubuf"
    and "unat count \<le> length ubuf"
  shows "\<exists>d1 d3. write_gather env ubuf count d h = Inr (True, d1, h) \<and>
    write_loop env (incomplete_command_buffer d1) 0 (unat (incomplete_command_size d1))
      (circular_buffer d1) h = Inr (True, 0, circular_buffer d, h) \<and>
    keep_excess env 0 (incomplete_command_size d1) (d1\<lparr>circular_buffer := circular_buffer d\<rparr>) h
      = Inr (True, d3, h) \<and>
    dev_ok d3 h \<and> circular_buffer d3 = circular_buffer d \<and> dev_lines d3 h = dev_lines d h \<and> dev_pending d3 h = []"
proof -
  have count: "count = 0" using assms(2-4) by (auto simp: unat_eq_zero)
  have size: "incomplete_command_size d = 0"
    using dev_ok_pending [OF ok] assms(2) s by (simp add: unat_eq_zero)
  then have icb: "incomplete_command_buffer d = NULL"
    using ok by (auto simp: dev_ok_def dest: holdsD(2) split: if_splits)
  let ?d1 = "d\<lparr>incomplete_command_buffer := ZERO_SIZE_PTR, incomplete_command_size := 0\<rparr>"
  let ?d3 = "d\<lparr>incomplete_command_buffer := NULL, incomplete_command_size := 0\<rparr>"
  have "write_gather env ubuf count d h = Inr (True, ?d1, h)"
    using size icb count by (simp add: write_gather_def copy_from_user_def)
  moreover have "write_loop env ZERO_SIZE_PTR 0 0 (circular_buffer d) h = Inr (True, 0, circular_buffer d, h)"
    by (subst write_loop.simps) simp
  moreover have "?d3 = d" using size icb by simp
  ultimately show ?thesis
    using ok icb by (intro exI [of _ ?d1] exI [of _ ?d3])
      (simp add: keep_excess_def dev_pending_def)
qed

text \<open>The loop meets the specification if there is at most one newline.\<close>

lemma write_loop_spec:
  assumes ok: "dev_ok d h" and env: "alloc_never_fails env"
    and icb: "incomplete_command_buffer d = Blk b" and b: "blk h b = Some s"
    and len: "length s < 2 ^ 64" and one: "count_list s NL \<le> 1"
  shows "\<exists>start cb' h'. let d' = d\<lparr>circular_buffer := cb'\<rparr> in
    write_loop env (Blk b) 0 (length s) (circular_buffer d) h = Inr (True, start, cb', h') \<and>
    one_put (fst (split_cmds s)) (circular_buffer d) cb' \<and> dev_ok d' h' \<and> blk h' b = Some s \<and> start \<le> length s \<and>
    dev_lines d' h' = fold push_line (fst (split_cmds s)) (dev_lines d h) \<and>
    drop start s = snd (split_cmds s) \<and>
    length (concat (dev_lines d' h')) \<le> length (concat (dev_lines d h)) + length s"
  using one
proof (cases rule: one_newline_cases)
  case none
  then have "write_loop env (Blk b) 0 (length s) (circular_buffer d) h = Inr (True, 0, circular_buffer d, h)"
    using b by (intro write_loop_none) auto
  moreover have "d\<lparr>circular_buffer := circular_buffer d\<rparr> = d" by simp
  ultimately show ?thesis using ok b none
    by (intro exI [of _ 0] exI [of _ "circular_buffer d"] exI [of _ h]) (simp add: split_cmds_none one_put_def)
next
  case (one l r)
  obtain cb' h' where w: "write_loop env (Blk b) 0 (length s) (circular_buffer d) h
      = Inr (True, Suc (length l), cb', h')" "one_put [l @ [NL]] (circular_buffer d) cb'" "dev_ok (d\<lparr>circular_buffer := cb'\<rparr>) h'"
      "blk h' b = Some s" "dev_lines (d\<lparr>circular_buffer := cb'\<rparr>) h' = push_line (l @ [NL]) (dev_lines d h)"
    using write_loop_one [OF ok env icb b one len] unfolding Let_def by auto
  then show ?thesis
    using one length_push_line [of "l @ [NL]" "dev_lines d h"]
    by (intro exI [of _ "Suc (length l)"] exI [of _ cb'] exI [of _ h'])
      (simp add: split_cmds_cmd split_cmds_none)
qed

lemma write_parts:
  assumes ok: "dev_ok d h" and env: "alloc_never_fails env" and count: "unat count \<le> length ubuf"
    and s: "s = dev_pending d h @ take (unat count) ubuf" and one: "count_list s NL \<le> 1"
    and len: "length s < 2 ^ 64"
  shows "\<exists>d1 h1 start cb' h2 d3 h3.
    write_gather env ubuf count d h = Inr (True, d1, h1) \<and>
    write_loop env (incomplete_command_buffer d1) 0 (unat (incomplete_command_size d1))
      (circular_buffer d1) h1 = Inr (True, start, cb', h2) \<and>
    keep_excess env start (incomplete_command_size d1) (d1\<lparr>circular_buffer := cb'\<rparr>) h2
      = Inr (True, d3, h3) \<and> dev_ok d3 h3 \<and> one_put (fst (split_cmds s)) (circular_buffer d) (circular_buffer d3) \<and>
    dev_lines d3 h3 = fold push_line (fst (split_cmds s)) (dev_lines d h) \<and>
    dev_pending d3 h3 = snd (split_cmds s) \<and>
    length (concat (dev_lines d3 h3)) \<le> length (concat (dev_lines d h)) + length s"
proof (cases "s = []")
  case True
  then show ?thesis using write_empty [OF ok True s count, of env] unfolding one_put_def by fastforce
next
  case False
  have nowrap: "unat (incomplete_command_size d) + unat count < 2 ^ 64"
    using dev_ok_pending [OF ok] s len count by simp
  obtain c h1 where 1: "let d1 = d\<lparr>incomplete_command_buffer := Blk c,
        incomplete_command_size := incomplete_command_size d + count\<rparr> in
      write_gather env ubuf count d h = Inr (True, d1, h1) \<and> blk h1 c = Some s \<and>
      length s = unat (incomplete_command_size d1) \<and> dev_ok d1 h1 \<and> dev_lines d1 h1 = dev_lines d h"
    using gather_ok [OF ok _ count nowrap s False, of env] env by (auto simp: alloc_never_fails_def Let_def)
  define d1 where "d1 = d\<lparr>incomplete_command_buffer := Blk c,
    incomplete_command_size := incomplete_command_size d + count\<rparr>"
  have icb: "incomplete_command_buffer d1 = Blk c" by (simp add: d1_def)
  note 1 = 1 [folded d1_def, unfolded Let_def]
  then have ok1: "dev_ok d1 h1" and c: "blk h1 c = Some s"
    and size: "unat (incomplete_command_size d1) = length s" by auto
  obtain start cb' h2 where 2: "let d2 = d1\<lparr>circular_buffer := cb'\<rparr> in
      write_loop env (Blk c) 0 (length s) (circular_buffer d1) h1 = Inr (True, start, cb', h2) \<and> one_put (fst (split_cmds s)) (circular_buffer d1) cb' \<and>
      dev_ok d2 h2 \<and> blk h2 c = Some s \<and> start \<le> length s \<and>
      dev_lines d2 h2 = fold push_line (fst (split_cmds s)) (dev_lines d1 h1) \<and>
      drop start s = snd (split_cmds s) \<and>
      length (concat (dev_lines d2 h2)) \<le> length (concat (dev_lines d1 h1)) + length s"
    using write_loop_spec [OF ok1 env icb c len one] by blast
  define d2 where "d2 = d1\<lparr>circular_buffer := cb'\<rparr>"
  have d2: "incomplete_command_buffer d2 = Blk c" "incomplete_command_size d2 = incomplete_command_size d1"
    by (simp_all add: d2_def icb)
  note 2 = 2 [folded d2_def, unfolded Let_def]
  then have ok2: "dev_ok d2 h2" "blk h2 c = Some s" "start \<le> length s" by auto
  obtain d3 h3 where 3: "keep_excess env start (incomplete_command_size d2) d2 h2 = Inr (True, d3, h3)"
      "dev_ok d3 h3" "dev_lines d3 h3 = dev_lines d2 h2" "dev_pending d3 h3 = drop start s"
      "circular_buffer d3 = circular_buffer d2"
    using keep_excess_ok [OF ok2(1) env d2(1) ok2(2,3)] by blast
  have puts: "one_put (fst (split_cmds s)) (circular_buffer d) (circular_buffer d3)" using 2 3(5) by (simp add: d1_def d2_def)
  have "write_gather env ubuf count d h = Inr (True, d1, h1) \<and>
    write_loop env (incomplete_command_buffer d1) 0 (unat (incomplete_command_size d1))
      (circular_buffer d1) h1 = Inr (True, start, cb', h2) \<and>
    keep_excess env start (incomplete_command_size d1) (d1\<lparr>circular_buffer := cb'\<rparr>) h2
      = Inr (True, d3, h3) \<and> dev_ok d3 h3 \<and> one_put (fst (split_cmds s)) (circular_buffer d) (circular_buffer d3) \<and>
    dev_lines d3 h3 = fold push_line (fst (split_cmds s)) (dev_lines d h) \<and>
    dev_pending d3 h3 = snd (split_cmds s) \<and>
    length (concat (dev_lines d3 h3)) \<le> length (concat (dev_lines d h)) + length s"
    using 1 2 3 puts by (auto simp: icb size d2 simp flip: d2_def)
  then show ?thesis by blast
qed

theorem aesd_write_full:
  assumes inv: "dev_inv k" and pre: "write_pre env ubuf filp count k"
    and one: "count_list (pending k @ take (unat count) ubuf) NL \<le> 1"
  shows "\<exists>k'. aesd_write env False ubuf filp count k = Inr (int (unat count), k') \<and> dev_inv k' \<and>
    one_put (fst (split_cmds (pending k @ take (unat count) ubuf)))
      (circular_buffer (aesd_device k)) (circular_buffer (aesd_device k')) \<and>
    (lines k', pending k') = spec_write (take (unat count) ubuf) (lines k, pending k)"
proof -
  let ?d = "(aesd_device k)\<lparr>lock := True\<rparr>" and ?h = "heap k"
  define s where "s = dev_pending ?d ?h @ take (unat count) ubuf"
  have s: "s = pending k @ take (unat count) ubuf" by (simp add: s_def pending_def)
  have ok: "dev_ok ?d ?h" using inv by (simp add: dev_inv_def)
  have env: "alloc_never_fails env" and count: "unat count \<le> length ubuf"
    and small: "length (stream k) + length s < 2 ^ 63"
    using pre by (auto simp: write_pre_def s)
  obtain d1 h1 start cb' h2 d3 h3 where parts:
      "write_gather env ubuf count ?d ?h = Inr (True, d1, h1)"
      "write_loop env (incomplete_command_buffer d1) 0 (unat (incomplete_command_size d1))
        (circular_buffer d1) h1 = Inr (True, start, cb', h2)"
      "keep_excess env start (incomplete_command_size d1) (d1\<lparr>circular_buffer := cb'\<rparr>) h2
        = Inr (True, d3, h3)" "dev_ok d3 h3"
    and puts: "one_put (fst (split_cmds s)) (circular_buffer ?d) (circular_buffer d3)"
    and view: "dev_lines d3 h3 = fold push_line (fst (split_cmds s)) (lines k)"
      "dev_pending d3 h3 = snd (split_cmds s)"
      "length (concat (dev_lines d3 h3)) \<le> length (stream k) + length s"
    using write_parts [OF ok env count s_def] one small
    by (auto simp: s lines_def stream_def)
  then obtain h' where h': "blk h' = blk h3" "aesd_write env False ubuf filp count k = Inr (int (unat count),
      k\<lparr>heap := h', aesd_device := d3\<lparr>lock := False\<rparr>,
        klog := klog k @ map (print_line (k\<lparr>heap := h3, aesd_device := d3\<rparr>)) [0..<10]\<rparr>)"
    using write_finish [OF inv pre parts] small by (auto simp del: upt_rec_numeral)
  have "dev_ok d3 h'" using parts(4) h'(1) by (rule dev_ok_same)
  then show ?thesis
    using view puts [unfolded s] dev_view_same [OF h'(1), of d3]
    by (intro exI [of _ "k\<lparr>heap := h', aesd_device := d3\<lparr>lock := False\<rparr>,
        klog := klog k @ map (print_line (k\<lparr>heap := h3, aesd_device := d3\<rparr>)) [0..<10]\<rparr>"] conjI h'(2))
      (simp_all add: dev_inv_def lines_def pending_def spec_write_def s case_prod_unfold)
qed

lemma aesd_write_main:
  assumes "dev_inv k" and "write_pre env ubuf filp count k"
    and "count_list (pending k @ take (unat count) ubuf) NL \<le> 1"
  shows "\<exists>k'. aesd_write env False ubuf filp count k = Inr (int (unat count), k') \<and> dev_inv k' \<and>
    (lines k', pending k') = spec_write (take (unat count) ubuf) (lines k, pending k)"
  using aesd_write_full [OF assms] by blast

end
