(* ===== verification/Device_Ops.thy ===== *)
theory Device_Ops
  imports Device_Write
begin

text \<open>
  The other file operations of the char device and the start and end of the module: what
  each returns, what it does to the file and to the device, on every branch.
\<close>

section \<open>Read\<close>

text \<open>A read returns bytes of one stored command: the rest of the one the position is in.\<close>

definition spec_read :: "nat \<Rightarrow> nat \<Rightarrow> bytes list \<Rightarrow> bytes" where
  "spec_read count pos ls =
     (case locate (map length ls) pos of
        None \<Rightarrow> []
      | Some (i, r) \<Rightarrow> take count (drop r (ls ! i)))"

lemma concat_drop_locate:
  "locate (map length ls) pos = Some (i, r) \<Longrightarrow>
     drop pos (concat ls) = drop r (ls ! i) @ concat (drop (Suc i) ls)"
proof (induction ls arbitrary: pos i)
  case (Cons l ls)
  then show ?case
    by (cases "pos < length l") (auto split: if_splits)
qed simp

lemma spec_read_take:
  "spec_read count pos ls = take (length (spec_read count pos ls)) (drop pos (concat ls))"
proof (cases "locate (map length ls) pos")
  case (Some ir)
  then obtain i r where "locate (map length ls) pos = Some (i, r)" by (cases ir) auto
  then show ?thesis by (simp add: spec_read_def concat_drop_locate min_def)
qed (simp add: spec_read_def)

lemma spec_read_Nil_iff:
  "spec_read count pos ls = [] \<longleftrightarrow> count = 0 \<or> length (concat ls) \<le> pos"
proof (cases "locate (map length ls) pos")
  case None
  then have "length (concat ls) \<le> pos" by (simp add: locate_None_iff length_concat)
  then show ?thesis using None by (simp add: spec_read_def)
next
  case (Some ir)
  then obtain i r where ir: "locate (map length ls) pos = Some (i, r)" by (cases ir) auto
  have "pos < length (concat ls)"
    using Some locate_None_iff [of "map length ls" pos] by (simp add: length_concat)
  moreover have "r < length (ls ! i)" using ir by (auto simp: locate_Some_iff)
  ultimately show ?thesis using ir by (simp add: spec_read_def)
qed

lemma length_spec_read: "length (spec_read count pos ls) \<le> count"
  by (simp add: spec_read_def split: option.split prod.split)

lemma unlock_locked [simp]: "\<not> lock d \<Longrightarrow> mutex_unlock (d\<lparr>lock := b\<rparr>) = d"
  by (simp add: mutex_unlock_def)

text \<open>The lookup and the copy of \<open>aesd_read\<close>, with the mutex held.\<close>

lemma find_in_device:
  assumes "dev_ok d h"
  shows "aesd_circular_buffer_find_entry_offset_for_fpos (Some (circular_buffer d)) pos (Some 0) =
    Inr (case locate (map length (dev_lines d h)) (unat pos) of
        None \<Rightarrow> (None, Some 0)
      | Some (i, r) \<Rightarrow> (Some (cb_slot (circular_buffer d) i), Some (of_nat r)))"
  using find_entry_eq [OF dev_okD(1) [OF assms]] dev_ok_sizes [OF assms] by simp

lemma slot_entry:
  assumes ok: "dev_ok d h" and i: "i < length (dev_lines d h)"
  shows "\<exists>e b. entry_at (circular_buffer d) (cb_slot (circular_buffer d) i) = Inr e \<and>
    buffptr e = Blk b \<and> blk h b = Some (dev_lines d h ! i) \<and> unat (entry_size e) = length (dev_lines d h ! i)"
proof -
  let ?cb = "circular_buffer d" and ?e = "cb_list (circular_buffer d) ! i"
  have i: "i < cb_count ?cb" using i by (simp add: length_dev_lines)
  then have "holds h (buffptr ?e) (unat (entry_size ?e))"
    by (intro dev_okD(2) [OF ok]) simp
  then obtain b bs where "buffptr ?e = Blk b" "blk h b = Some bs" "length bs = unat (entry_size ?e)"
    by (elim holdsE)
  then show ?thesis
    using i cb_wfD(1) [OF dev_okD(1) [OF ok]]
    by (intro exI [of _ ?e] exI [of _ b]) (simp add: entry_at_def cb_list_nth dev_lines_def)
qed

lemma aesd_read_main:
  assumes inv: "dev_inv k" and dev: "private_data filp = Dev_aesd"
    and room: "length (spec_read (unat count) (unat pos) (lines k)) \<le> room" and small: "length (stream k) < 2 ^ 63"
  shows "aesd_read False room filp count pos k =
    (let bs = spec_read (unat count) (unat pos) (lines k) in
     Inr (int (length bs), bs, pos + of_nat (length bs), k))"
proof (cases "count = 0")
  case True
  then have "spec_read (unat count) (unat pos) (lines k) = []" by (simp add: spec_read_Nil_iff)
  then show ?thesis using True by (simp add: aesd_read_def)
next
  case False
  let ?d = "aesd_device k"
  have ok: "dev_ok ?d (heap k)" and unlocked: "\<not> lock ?d"
    using inv by (simp_all add: dev_inv_def)
  note lines = lines_def [of k, symmetric] and start = False dev unlocked
  show ?thesis
  proof (cases "locate (map length (lines k)) (unat pos)")
    case None
    then show ?thesis
      using start find_in_device [OF ok, of pos, unfolded lines]
      by (simp add: aesd_read_def deref_dev_def mutex_lock_interruptible_def lines spec_read_def)
  next
    case (Some ir)
    then obtain i r where ir: "locate (map length (lines k)) (unat pos) = Some (i, r)" by (cases ir) auto
    then have i: "i < length (lines k)" and r: "r < length (lines k ! i)"
      by (auto simp: locate_Some_iff)
    obtain e b where e: "entry_at (circular_buffer ?d) (cb_slot (circular_buffer ?d) i) = Inr e"
        "buffptr e = Blk b" "blk (heap k) b = Some (lines k ! i)" "unat (entry_size e) = length (lines k ! i)"
      using slot_entry [OF ok, unfolded lines, OF i] by auto
    have "length (lines k ! i) \<le> length (stream k)"
      using i by (auto simp: stream_def length_concat intro!: member_le_sum_list)
    then have len: "length (lines k ! i) < 2 ^ 63" using small by simp
    have off: "unat (of_nat r :: u64) = r" using r len by (intro unat_of_nat_u64) simp
    let ?n = "min count (entry_size e - of_nat r)"
    have n: "unat ?n = min (unat count) (length (lines k ! i) - r)"
      using r e(4) off by (simp add: min_def word_le_nat_alt unat_sub_u64)
    have bs: "spec_read (unat count) (unat pos) (lines k) = take (unat ?n) (drop r (lines k ! i))"
      using ir n by (simp add: spec_read_def min_def)
    moreover have "unat ?n \<le> room" using room n by (simp add: bs)
    then have "copy_to_user room (Blk b) r (unat ?n) (heap k)
        = Inr (0, take (unat ?n) (drop r (lines k ! i)))"
      using e(3) n r by (simp add: copy_to_user_def load_Blk min_absorb1)
    moreover have "sint ?n = int (unat ?n)" using n len by (intro sint_of_small) simp
    moreover have "pos + of_nat (unat ?n) = pos + ?n" by simp
    moreover have "length (take (unat ?n) (drop r (lines k ! i))) = unat ?n" using n by simp
    ultimately show ?thesis
      using start find_in_device [OF ok, of pos, unfolded lines] ir e off
      by (simp add: aesd_read_def deref_dev_def mutex_lock_interruptible_def lines Let_def)
  qed
qed

text \<open>The caller's buffer is too small: an error, a position that stays, a mutex that is free.\<close>

lemma aesd_read_efault:
  assumes inv: "dev_inv k" and dev: "private_data filp = Dev_aesd"
    and ir: "locate (map length (lines k)) (unat pos) = Some (i, r)"
    and room: "room < min (unat count) (length (lines k ! i) - r)"
  shows "aesd_read False room filp count pos k = Inr (- EFAULT, take room (drop r (lines k ! i)), pos, k)"
proof -
  let ?d = "aesd_device k"
  have ok: "dev_ok ?d (heap k)" and unlocked: "\<not> lock ?d" and count: "count \<noteq> 0"
    using inv room by (auto simp: dev_inv_def)
  note lines = lines_def [of k, symmetric]
  have i: "i < length (lines k)" and r: "r < length (lines k ! i)"
    using ir by (auto simp: locate_Some_iff)
  obtain e b where e: "entry_at (circular_buffer ?d) (cb_slot (circular_buffer ?d) i) = Inr e"
      "buffptr e = Blk b" "blk (heap k) b = Some (lines k ! i)" "unat (entry_size e) = length (lines k ! i)"
    using slot_entry [OF ok, unfolded lines, OF i] by auto
  have off: "unat (of_nat r :: u64) = r"
    using r e(4) unat_u64_lt [of "entry_size e"] by (intro unat_of_nat_u64) simp
  let ?n = "min count (entry_size e - of_nat r)"
  have n: "unat ?n = min (unat count) (length (lines k ! i) - r)"
    using r e(4) off by (simp add: min_def word_le_nat_alt unat_sub_u64)
  have "r + room \<le> length (lines k ! i)" using room r by linarith
  then have "copy_to_user room (Blk b) r (unat ?n) (heap k)
      = Inr (unat ?n - room, take room (drop r (lines k ! i)))"
    using e(3) n room r by (simp add: copy_to_user_def load_Blk)
  moreover have "unat ?n - room \<noteq> 0" using n room by linarith
  ultimately show ?thesis
    using count dev unlocked find_in_device [OF ok, of pos, unfolded lines] ir e off
    by (simp add: aesd_read_def deref_dev_def mutex_lock_interruptible_def lines Let_def)
qed

section \<open>Seek by position\<close>

text \<open>
  What the kernel's \<open>fixed_size_llseek\<close> does: a seek from the start, from the position or from the
  end; a target outside the file is refused with \<open>-EINVAL\<close> and changes nothing, and so is another
  \<open>whence\<close>. A seek by 0 from the position only asks for it: it is returned as it is, also when it
  is beyond the end. The sums are those of \<open>loff_t\<close>, which wrap in the kernel.
\<close>

definition seek_target :: "struct_file \<Rightarrow> u64 \<Rightarrow> int \<Rightarrow> u64 \<Rightarrow> int option" where
  "seek_target filp off whence eof =
     (if whence = 1 \<and> off = 0 then Some (sint (f_pos filp))
      else if whence \<in> {0, 1, 2} then
        let p = sint (if whence = 0 then off else if whence = 1 then f_pos filp + off else eof + off) in
        if 0 \<le> p \<and> p \<le> sint eof then Some p else None
      else None)"

definition llseek_documented :: "llseek_fn \<Rightarrow> bool" where
  "llseek_documented fsl \<longleftrightarrow>
     (\<forall>filp off whence eof. fsl filp off whence eof =
        (case seek_target filp off whence eof of
           None \<Rightarrow> (of_int (- EINVAL), filp)
         | Some p \<Rightarrow> (of_int p, filp\<lparr>f_pos := of_int p\<rparr>)))"

lemma scast_ucast_small:
  assumes "0 \<le> p" and "p < 2 ^ 31"
  shows "scast (ucast (of_int p :: u64) :: u32) = (of_int p :: u64)"
proof -
  have "uint (ucast (of_int p :: u64) :: u32) = p"
    using assms by (simp add: unsigned_ucast_eq unsigned_of_int take_bit_int_eq_self)
  then have "sint (ucast (of_int p :: u64) :: u32) = p"
    using assms by (simp add: sint_uint signed_take_bit_int_eq_self)
  then show ?thesis by (simp add: scast_eq)
qed

lemma llseek_eq:
  assumes inv: "dev_inv k" and doc: "llseek_documented fsl" and free: "\<not> f_pos_lock filp"
    and small: "length (stream k) < 2 ^ 63"
  shows "aesd_llseek fsl filp off whence k =
    (case seek_target filp off whence (of_nat (length (stream k))) of
       None \<Rightarrow> Inr (scast (ucast (of_int (- EINVAL) :: u64) :: u32), filp)
     | Some p \<Rightarrow> Inr (scast (ucast (of_int p :: u64) :: u32), filp\<lparr>f_pos := of_int p\<rparr>))"
proof -
  have size: "aesd_size (circular_buffer (aesd_device k)) k = Inr (of_nat (length (stream k)))"
    using inv by (intro aesd_size_eq) (simp add: dev_inv_def)
  have f: "seek_target (filp\<lparr>f_pos_lock := True\<rparr>) off whence n = seek_target filp off whence n" for n
    by (simp add: seek_target_def)
  have "filp\<lparr>f_pos_lock := False\<rparr> = filp" using free by simp
  then show ?thesis
    using free doc [unfolded llseek_documented_def]
    by (auto simp: aesd_llseek_def size lock_f_pos_def unlock_f_pos_def f split: option.splits)
qed

section \<open>Seek by command\<close>

text \<open>The loop of \<open>aesd_adjust_file_offset\<close>: the sizes of the slots before, then the offset.\<close>

definition slots_before :: "aesd_circular_buffer \<Rightarrow> nat \<Rightarrow> nat" where
  "slots_before cb w = (\<Sum>j<w. unat (entry_size (entry cb ! j)))"

lemma adjust_loop:
  assumes "length (entry cb) = 10" and "w < 10"
  shows "i \<le> w \<Longrightarrow>
    cb_foreach (\<lambda>_. cb) i
      (\<lambda>index temp acc.
         if index < w then Inr (Inr (acc + entry_size temp))
         else if index = w then Inr (Inl (acc + off)) else Inr (Inr acc)) acc
    = Inr (acc + of_nat (\<Sum>j\<in>{i..<w}. unat (entry_size (entry cb ! j))) + off)"
proof (induction "w - i" arbitrary: i acc)
  case 0
  then show ?case using assms by (subst cb_foreach.simps) (simp add: entry_at_def)
next
  case (Suc n)
  then have i: "i < w" by simp
  have "(\<Sum>j\<in>{i..<w}. unat (entry_size (entry cb ! j)))
      = unat (entry_size (entry cb ! i)) + (\<Sum>j\<in>{Suc i..<w}. unat (entry_size (entry cb ! j)))"
    using i by (simp add: sum.atLeast_Suc_lessThan)
  moreover have "n = w - Suc i" "Suc i \<le> w" using Suc.hyps(2) i by auto
  ultimately show ?case
    using Suc.hyps(1) [of "Suc i"] i assms
    by (subst cb_foreach.simps) (simp add: entry_at_def add.assoc)
qed

lemma adjust_ok:
  assumes inv: "dev_inv k" and dev: "private_data filp = Dev_aesd" and free: "\<not> f_pos_lock filp"
    and cmd: "unat cmd < 10"
    and off: "unat off < unat (entry_size (entry (circular_buffer (aesd_device k)) ! unat cmd))"
  shows "aesd_adjust_file_offset filp cmd off k =
    Inr (0, filp\<lparr>f_pos := of_nat (slots_before (circular_buffer (aesd_device k)) (unat cmd) + unat off)\<rparr>)"
proof -
  let ?cb = "circular_buffer (aesd_device k)"
  have len: "length (entry ?cb) = 10"
    using inv by (auto simp: dev_inv_def dest: dev_okD(1) cb_wfD(1))
  have "ucast off < entry_size (entry ?cb ! unat cmd)"
    using off by (simp add: word_less_nat_alt unat_ucast_u32)
  moreover have "filp\<lparr>f_pos_lock := False\<rparr> = filp" using free by simp
  moreover note adjust_loop [OF len cmd, of 0 "ucast off" 0]
  moreover have "0 + of_nat (\<Sum>j\<in>{0..<unat cmd}. unat (entry_size (entry ?cb ! j))) + ucast off
      = (of_nat (slots_before ?cb (unat cmd) + unat off) :: u64)"
    by (simp add: slots_before_def atLeast0LessThan)
  ultimately show ?thesis
    using cmd dev free len
    by (simp add: aesd_adjust_file_offset_def deref_dev_def entry_at_def lock_f_pos_def unlock_f_pos_def
        del: of_nat_add of_nat_sum)
qed

lemma adjust_einval:
  assumes inv: "dev_inv k" and dev: "private_data filp = Dev_aesd"
    and bad: "10 \<le> unat cmd \<or>
      unat (entry_size (entry (circular_buffer (aesd_device k)) ! unat cmd)) \<le> unat off"
  shows "aesd_adjust_file_offset filp cmd off k =
    (if 10 \<le> unat cmd then Inr (- EINVAL, filp)
     else bind_res (printk_string (buffptr (entry (circular_buffer (aesd_device k)) ! unat cmd)) (heap k))
       (\<lambda>_. Inr (- EINVAL, filp)))"
proof -
  have len: "length (entry (circular_buffer (aesd_device k))) = 10"
    using inv by (auto simp: dev_inv_def dest: dev_okD(1) cb_wfD(1))
  show ?thesis using bad dev len
    by (auto simp: unat_ucast_u32 aesd_adjust_file_offset_def deref_dev_def entry_at_def word_less_nat_alt)
qed

text \<open>
  The used slots in the order of the array: the oldest command is in slot \<open>out_offs\<close>, and those
  after it go on from there and around the end.
\<close>

definition in_slot_order :: "nat \<Rightarrow> 'a list \<Rightarrow> 'a list" where
  "in_slot_order out xs = rotate (length xs - out) xs"

lemma in_slot_order_simps [simp]:
  "in_slot_order 0 xs = xs" "length (in_slot_order out xs) = length xs" "set (in_slot_order out xs) = set xs"
  by (simp_all add: in_slot_order_def)

lemma in_slot_order_map: "in_slot_order out (map f xs) = map f (in_slot_order out xs)"
  by (simp add: in_slot_order_def rotate_map)

lemma sum_in_slot_order: "sum_list (in_slot_order out xs) = (sum_list xs :: nat)"
proof -
  have "sum_list (drop n xs) + sum_list (take n xs) = sum_list xs" for n
    by (metis add.commute append_take_drop_id sum_list_append)
  then show ?thesis by (simp add: in_slot_order_def rotate_drop_take)
qed

abbreviation oldest_slot :: "kernel \<Rightarrow> nat" where
  "oldest_slot k \<equiv> unat (out_offs (circular_buffer (aesd_device k)))"

definition slot_lines :: "kernel \<Rightarrow> bytes list" where
  "slot_lines k = in_slot_order (oldest_slot k) (lines k)"

lemma out_offs_full: "cb_wf cb \<Longrightarrow> out_offs cb \<noteq> 0 \<Longrightarrow> cb_count cb = 10"
  by (auto simp: cb_wf_def full_iff_count)

lemma slots_in_order:
  assumes wf: "cb_wf cb" and w: "w < cb_count cb"
  shows "entry cb ! w = in_slot_order (unat (out_offs cb)) (cb_list cb) ! w"
proof (cases "out_offs cb = 0")
  case True
  then have "cb_slot cb w = w" using w cb_count_le [of cb] by (simp add: cb_slot_def)
  then show ?thesis using True w by (simp add: cb_list_nth)
next
  case False
  note n = out_offs_full [OF wf False]
  let ?o = "unat (out_offs cb)" and ?j = "(w + (10 - unat (out_offs cb))) mod 10"
  have o: "?o < 10" using wf by (simp add: cb_wf_def)
  have "(?o + ?j) mod 10 = (?o + (w + (10 - ?o))) mod 10" by (rule mod_add_right_eq)
  also have "\<dots> = w" using o w n by simp
  finally have "cb_slot cb ?j = w" by (simp add: cb_slot_def)
  then show ?thesis using n w by (simp add: in_slot_order_def nth_rotate cb_list_nth add.commute)
qed

lemma slots_before_order:
  assumes wf: "cb_wf cb" and w: "w < cb_count cb"
  shows "slots_before cb w = sum_list (take w (in_slot_order (unat (out_offs cb)) (entry_sizes cb)))"
proof -
  let ?es = "in_slot_order (unat (out_offs cb)) (cb_list cb)"
  have "slots_before cb w = (\<Sum>j<w. map (\<lambda>e. unat (entry_size e)) ?es ! j)"
    unfolding slots_before_def using w slots_in_order [OF wf] by (intro sum.cong) simp_all
  then show ?thesis
    using w by (simp add: sum_list_sum_nth atLeast0LessThan entry_sizes_def in_slot_order_map)
qed

lemma slot_unused:
  assumes wf: "cb_wf cb" and w: "w < 10" "cb_count cb \<le> w"
  shows "entry cb ! w = zero_entry"
proof -
  have "out_offs cb = 0" using out_offs_full [OF wf] w by fastforce
  then have "cb_slot cb w = w" using w(1) by (simp add: cb_slot_def)
  then show ?thesis using wf w unfolding cb_wf_def by metis
qed

lemma slot_in_use:
  assumes wf: "cb_wf cb" and w: "w < cb_count cb"
  shows "entry cb ! w \<in> set (cb_list cb)"
  using slots_in_order [OF assms] w by (metis in_slot_order_simps(2,3) length_cb_list nth_mem)

lemma adjust_beyond:
  assumes inv: "dev_inv k" and dev: "private_data filp = Dev_aesd" and w: "unat w < length (lines k)"
    and bad: "\<forall>l \<in> set (lines k). NUL \<notin> set l \<and> length l \<le> unat b"
  shows "aesd_adjust_file_offset filp w b k = Inl Out_Of_Bounds"
proof -
  let ?cb = "circular_buffer (aesd_device k)" and ?e = "entry (circular_buffer (aesd_device k)) ! unat w"
  have ok: "dev_ok (aesd_device k) (heap k)" using inv by (simp add: dev_inv_def)
  have n: "length (lines k) = cb_count ?cb" by (simp add: lines_def length_dev_lines)
  have e: "?e \<in> set (cb_list ?cb)" using slot_in_use [OF dev_okD(1) [OF ok]] w n by simp
  note held = dev_okD(2) [OF ok e]
  have "contents (heap k) (buffptr ?e) \<in> set (lines k)" using e by (simp add: lines_def dev_lines_def)
  then show ?thesis
    using adjust_einval [OF inv dev, of w b] printk_string_holds [OF held] holdsD(1) [OF held] bad w n
      cb_count_le [of ?cb] by auto
qed

definition spec_seekto :: "nat \<Rightarrow> nat \<Rightarrow> bytes list \<Rightarrow> nat option" where
  "spec_seekto cmd off ls =
     (if cmd < length ls \<and> off < length (ls ! cmd)
      then Some (length (concat (take cmd ls)) + off) else None)"

lemma length_concat_take: "length (concat (take n ls)) = sum_list (take n (map length ls))"
  by (simp add: length_concat take_map)

text \<open>
  The error message for an offset that an existing command does not have prints the command as
  a string, which it is only if it contains a 0 byte.
\<close>

definition prints_beyond :: "nat \<Rightarrow> bytes list \<Rightarrow> bool" where
  "prints_beyond cmd ls \<longleftrightarrow> cmd < length ls \<and> NUL \<notin> set (ls ! cmd)"

text \<open>The command number of a seek is a slot of the array.\<close>

lemma seekto_slots:
  assumes inv: "dev_inv k" and dev: "private_data filp = Dev_aesd" and free: "\<not> f_pos_lock filp"
  shows "aesd_adjust_file_offset filp cmd off k =
    (case spec_seekto (unat cmd) (unat off) (slot_lines k) of
        None \<Rightarrow> if prints_beyond (unat cmd) (slot_lines k) then Inl Out_Of_Bounds else Inr (- EINVAL, filp)
      | Some p \<Rightarrow> Inr (0, filp\<lparr>f_pos := of_nat p\<rparr>))"
proof -
  let ?cb = "circular_buffer (aesd_device k)" and ?w = "unat cmd"
  have ok: "dev_ok (aesd_device k) (heap k)" using inv by (simp add: dev_inv_def)
  note wf = dev_okD(1) [OF ok]
  have sizes: "in_slot_order (oldest_slot k) (entry_sizes ?cb) = map length (slot_lines k)"
    and n: "length (slot_lines k) = cb_count ?cb"
    using dev_ok_sizes [OF ok] by (simp_all add: slot_lines_def lines_def length_dev_lines in_slot_order_map)
  consider (far) "10 \<le> ?w" | (unused) "?w < 10" "cb_count ?cb \<le> ?w" | (used) "?w < cb_count ?cb"
    by linarith
  then show ?thesis
  proof cases
    case far
    then show ?thesis using adjust_einval [OF inv dev] cb_count_le [of ?cb] n
      by (simp add: spec_seekto_def prints_beyond_def)
  next
    case unused
    then show ?thesis using adjust_einval [OF inv dev] slot_unused [OF wf] n
      by (simp add: spec_seekto_def zero_entry_def prints_beyond_def printk_string_def)
  next
    case used
    let ?e = "entry ?cb ! ?w"
    have "in_slot_order (oldest_slot k) (entry_sizes ?cb) ! ?w = unat (entry_size ?e)"
      using used slots_in_order [OF wf used] by (simp add: entry_sizes_def in_slot_order_map)
    then have size: "unat (entry_size ?e) = length (slot_lines k ! ?w)" using used n by (simp add: sizes)
    have before: "slots_before ?cb ?w = length (concat (take ?w (slot_lines k)))"
      using slots_before_order [OF wf used] by (simp add: sizes length_concat_take)
    show ?thesis
    proof (cases "unat off < length (slot_lines k ! ?w)")
      case True
      then show ?thesis
        using adjust_ok [OF inv dev free, of cmd off] used cb_count_le [of ?cb] n size before
        by (simp add: spec_seekto_def)
    next
      case False
      note held = printk_string_holds [OF dev_okD(2) [OF ok slot_in_use [OF wf used]]]
      have "contents (heap k) (buffptr ?e) = slot_lines k ! ?w"
        using used slots_in_order [OF wf used]
        by (simp add: slot_lines_def lines_def dev_lines_def in_slot_order_map)
      then show ?thesis
        using False adjust_einval [OF inv dev, of cmd off] size held used n cb_count_le [of ?cb]
        by (simp add: spec_seekto_def prints_beyond_def)
    qed
  qed
qed

text \<open>It is the age of the command only as long as the oldest one is in slot 0.\<close>

lemma seekto_aligned:
  assumes "dev_inv k" and "private_data filp = Dev_aesd" and "\<not> f_pos_lock filp"
    and "out_offs (circular_buffer (aesd_device k)) = 0"
  shows "aesd_adjust_file_offset filp cmd off k =
    (case spec_seekto (unat cmd) (unat off) (lines k) of
        None \<Rightarrow> if prints_beyond (unat cmd) (lines k) then Inl Out_Of_Bounds else Inr (- EINVAL, filp)
      | Some p \<Rightarrow> Inr (0, filp\<lparr>f_pos := of_nat p\<rparr>))"
  using seekto_slots [OF assms(1-3)] assms(4) by (simp add: slot_lines_def)

text \<open>A seek goes to a place inside the file.\<close>

lemma slot_seek_inside:
  assumes "spec_seekto cmd off (slot_lines k) = Some p"
  shows "p < length (stream k)"
proof -
  let ?ls = "slot_lines k"
  have c: "cmd < length ?ls" "off < length (?ls ! cmd)" "p = length (concat (take cmd ?ls)) + off"
    using assms by (auto simp: spec_seekto_def split: if_splits)
  have "length (concat ?ls) = length (concat (take cmd ?ls)) + (length (?ls ! cmd) + length (concat (drop (Suc cmd) ?ls)))"
    using c(1) by (subst id_take_nth_drop [OF c(1)]) simp
  moreover have "length (concat ?ls) = length (stream k)"
    using sum_in_slot_order [of "oldest_slot k" "map length (lines k)"]
    by (simp add: slot_lines_def stream_def length_concat flip: in_slot_order_map)
  ultimately show ?thesis using c by simp
qed

text \<open>What a reader gets at the position a seek by command leads to.\<close>

lemma spec_read_at_seek:
  assumes "spec_seekto cmd off ls = Some p"
  shows "spec_read n p ls = take n (drop off (ls ! cmd))"
proof -
  have "cmd < length ls" "off < length (ls ! cmd)" "p = sum_list (take cmd (map length ls)) + off"
    using assms by (auto simp: spec_seekto_def length_concat_take split: if_splits)
  then have "locate (map length ls) p = Some (cmd, off)" by (simp add: locate_Some_iff)
  then show ?thesis by (simp add: spec_read_def)
qed

section \<open>Start and end of the module\<close>

lemma zero_dev_ok: "live h = {} \<Longrightarrow> dev_ok zero_dev h"
  using init_wf by (simp add: dev_ok_def zero_dev_def owned_def owns_Nil)

lemma init_device:
  assumes "0 \<le> alloc_rc"
  shows "snd (aesd_init_module alloc_rc major cdev_rc k) =
    k\<lparr>aesd_major := major, aesd_device := zero_dev, chrdev_region := (cdev_rc = 0), cdev_added := (cdev_rc = 0)\<rparr>"
  using assms by (simp add: aesd_init_module_def aesd_setup_cdev_def zero_dev_def Let_def)

text \<open>
  The loop of \<open>aesd_cleanup_module\<close>: after slot \<open>i\<close> the blocks of the slots up to there are
  gone, the slots hold \<open>NULL\<close>, and the rest is untouched.
\<close>

definition slot_ptrs :: "aesd_circular_buffer \<Rightarrow> nat \<Rightarrow> ptr list" where
  "slot_ptrs cb i = filter (\<lambda>p. p \<noteq> NULL) (map buffptr (drop i (entry cb)))"

lemma slot_ptrs_Suc:
  "i < length (entry cb) \<Longrightarrow> slot_ptrs cb i =
     (if buffptr (entry cb ! i) = NULL then slot_ptrs cb (Suc i)
      else buffptr (entry cb ! i) # slot_ptrs cb (Suc i))"
  by (simp add: slot_ptrs_def Cons_nth_drop_Suc [symmetric])

lemma set_slot_ptrs:
  assumes ok: "dev_ok d h"
  shows "distinct (slot_ptrs (circular_buffer d) 0)"
    and "set (slot_ptrs (circular_buffer d) 0) = buffptr ` set (cb_list (circular_buffer d))"
proof -
  let ?cb = "circular_buffer d"
  note wf = dev_okD(1) [OF ok]
  have len: "length (entry ?cb) = 10" using wf by (rule cb_wfD)
  have nonnull: "e \<in> set (cb_list ?cb) \<Longrightarrow> buffptr e \<noteq> NULL" for e
    using dev_okD(2) [OF ok] by (auto dest: holdsD(3))
  have in_entry: "set (cb_list ?cb) \<subseteq> set (entry ?cb)"
    using len by (auto simp: cb_list_def)
  have "set (entry ?cb) \<subseteq> insert zero_entry (set (cb_list ?cb))"
    using slot_cases [OF wf] len by (metis in_set_conv_nth insert_iff subsetI)
  with in_entry nonnull show "set (slot_ptrs ?cb 0) = buffptr ` set (cb_list ?cb)"
    by (fastforce simp: slot_ptrs_def zero_entry_def)
  have "distinct (map buffptr (cb_list ?cb))"
    using dev_okD(3) [OF ok] by (auto simp: owns_def owned_def split: if_splits)
  have inj: "i = j" if ij: "i < 10" "j < 10" and same: "buffptr (entry ?cb ! i) = buffptr (entry ?cb ! j)"
    and used: "buffptr (entry ?cb ! i) \<noteq> NULL" for i j
  proof -
    obtain i' where i': "i' < 10" "i = cb_slot ?cb i'" using wf ij(1) by (rule cb_slot_surj)
    obtain j' where j': "j' < 10" "j = cb_slot ?cb j'" using wf ij(2) by (rule cb_slot_surj)
    have "i' < cb_count ?cb" "j' < cb_count ?cb"
      using i' j' same used wf unfolding cb_wf_def zero_entry_def
      by (metis aesd_buffer_entry.select_convs(1) not_less)+
    then show ?thesis
      using \<open>distinct (map buffptr (cb_list ?cb))\<close> i' j' same
      by (auto simp: distinct_conv_nth cb_list_nth)
  qed
  show "distinct (slot_ptrs ?cb 0)"
    unfolding slot_ptrs_def by (rule distinct_filter_nth) (auto simp: len intro: inj)
qed


definition swept :: "aesd_circular_buffer \<Rightarrow> nat \<Rightarrow> aesd_dev \<times> heap \<Rightarrow> bool" where
  "swept cb i = (\<lambda>(d, h).
     length (entry (circular_buffer d)) = 10 \<and> length (entry cb) = 10 \<and>
     drop i (entry (circular_buffer d)) = drop i (entry cb) \<and>
     (\<forall>j<i. buffptr (entry (circular_buffer d) ! j) = NULL) \<and>
     owns h (slot_ptrs cb i) \<and> incomplete_command_buffer d = NULL)"

lemma sweep_step:
  assumes i: "i < 10" and s: "swept cb i (d, h)"
  shows "\<exists>s'. free_slot i (entry (circular_buffer d) ! i) (d, h) = Inr (Inr s') \<and> swept cb (Suc i) s'"
proof -
  have len: "length (entry (circular_buffer d)) = 10" "length (entry cb) = 10"
    and drop: "drop i (entry (circular_buffer d)) = drop i (entry cb)"
    and owns: "owns h (slot_ptrs cb i)"
    using s by (auto simp: swept_def)
  have nth: "entry (circular_buffer d) ! i = entry cb ! i"
    using drop i len by (metis Cons_nth_drop_Suc list.inject)
  have drop': "drop (Suc i) (entry (circular_buffer d)) = drop (Suc i) (entry cb)"
    using drop by (metis drop_Suc tl_drop)
  show ?thesis
  proof (cases "buffptr (entry cb ! i) = NULL")
    case True
    then have "swept cb (Suc i) (d, h)"
      using s i drop' nth by (auto simp: swept_def slot_ptrs_Suc less_Suc_eq)
    then show ?thesis using True nth by (simp add: free_slot_def)
  next
    case False
    let ?p = "buffptr (entry cb ! i)"
    have own: "owns h (?p # slot_ptrs cb (Suc i))" using owns i len False by (simp add: slot_ptrs_Suc)
    then have "?p \<in> Blk ` live h" by (auto simp: owns_def)
    then obtain b bs where b: "?p = Blk b" "blk h b = Some bs" by (auto simp: live_iff)
    then obtain h' where h': "kfree ?p h = Inr h'" "blk h' = (blk h)(b := None)"
      using kfree_map by metis
    then have "owns h' (slot_ptrs cb (Suc i))" using own b(1) by (metis owns_free)
    then have "swept cb (Suc i) (set_entry i ((entry cb ! i)\<lparr>buffptr := NULL\<rparr>) d, h')"
      using s i drop' by (auto simp: swept_def set_entry_def nth_list_update less_Suc_eq)
    then show ?thesis using h'(1) False nth by (auto simp: free_slot_def)
  qed
qed

lemma sweep_all:
  assumes "swept (circular_buffer d) 0 (d, h)"
  shows "\<exists>d' h'. cb_foreach (\<lambda>(d, _). circular_buffer d) 0 free_slot (d, h) = Inr (d', h') \<and>
    live h' = {} \<and> incomplete_command_buffer d' = NULL \<and>
    (\<forall>e \<in> set (entry (circular_buffer d')). buffptr e = NULL)"
proof -
  let ?P = "swept (circular_buffer d)"
  have "\<exists>s'. cb_foreach (\<lambda>(d, _). circular_buffer d) 0 free_slot (d, h) = Inr s' \<and> ?P 10 s'"
  proof (rule cb_foreach_rule [where P = ?P])
    fix i s assume i: "i < 10" and P: "?P i s"
    obtain d' h' where s: "s = (d', h')" by (cases s)
    have "length (entry (circular_buffer d')) = 10" using P s by (simp add: swept_def)
    then show "length (entry ((\<lambda>(d, _). circular_buffer d) s)) = 10 \<and>
        (\<exists>s'. free_slot i (entry ((\<lambda>(d, _). circular_buffer d) s) ! i) s = Inr (Inr s') \<and> ?P (Suc i) s')"
      using sweep_step [OF i P [unfolded s]] s by simp
  qed (simp_all add: assms)
  then show ?thesis
    by (auto simp: swept_def slot_ptrs_def owns_Nil in_set_conv_nth)
qed

lemma cleanup_main:
  assumes inv: "dev_inv k"
  shows "\<exists>d h. aesd_cleanup_module k =
      Inr (k\<lparr>heap := h, aesd_device := d, cdev_added := False, chrdev_region := False\<rparr>) \<and>
    live h = {} \<and> incomplete_command_buffer d = NULL \<and>
    (\<forall>e \<in> set (entry (circular_buffer d)). buffptr e = NULL)"
proof -
  let ?d = "aesd_device k" and ?h = "heap k"
  have ok: "dev_ok ?d ?h" using inv by (simp add: dev_inv_def)
  have len: "length (entry (circular_buffer ?d)) = 10" using dev_okD(1) [OF ok] by (rule cb_wfD)
  have start: "swept (circular_buffer ?d) 0 (d', h')"
    if "circular_buffer d' = circular_buffer ?d" "incomplete_command_buffer d' = NULL"
      "owns h' (map buffptr (cb_list (circular_buffer ?d)))" for d' h'
    using that len owns_reorder [OF that(3) set_slot_ptrs(1) [OF ok]] set_slot_ptrs(2) [OF ok]
    by (simp add: swept_def)
  show ?thesis
  proof (cases "incomplete_command_buffer ?d = NULL")
    case True
    then have "swept (circular_buffer ?d) 0 (?d, ?h)"
      using start dev_okD(3) [OF ok] by (simp add: owned_def)
    from sweep_all [OF this] obtain d' h' where "cb_foreach (\<lambda>(d, _). circular_buffer d) 0 free_slot (?d, ?h)
        = Inr (d', h')" "live h' = {}" "incomplete_command_buffer d' = NULL"
        "\<forall>e \<in> set (entry (circular_buffer d')). buffptr e = NULL" by auto
    then show ?thesis using True
      by (intro exI [of _ d'] exI [of _ h']) (simp add: aesd_cleanup_module_def)
  next
    case False
    then obtain b bs where b: "incomplete_command_buffer ?d = Blk b" "blk ?h b = Some bs"
      using ok by (auto simp: dev_ok_def elim!: holdsE)
    obtain h0 where h0: "kfree (Blk b) ?h = Inr h0" "blk h0 = (blk ?h)(b := None)"
      using kfree_map [OF b(2)] by auto
    let ?d0 = "?d\<lparr>incomplete_command_buffer := NULL, incomplete_command_size := 0\<rparr>"
    have "owns h0 (map buffptr (cb_list (circular_buffer ?d)))"
      using dev_okD(3) [OF ok] b(1) h0(2) by (auto simp: owned_def intro: owns_free)
    then have "swept (circular_buffer ?d0) 0 (?d0, h0)" using start by simp
    from sweep_all [OF this] obtain d' h' where "cb_foreach (\<lambda>(d, _). circular_buffer d) 0 free_slot (?d0, h0)
        = Inr (d', h')" "live h' = {}" "incomplete_command_buffer d' = NULL"
        "\<forall>e \<in> set (entry (circular_buffer d')). buffptr e = NULL" by auto
    then show ?thesis using b h0
      by (intro exI [of _ d'] exI [of _ h']) (simp add: aesd_cleanup_module_def)
  qed
qed

end
