(* ===== verification/Device_Faults.thy ===== *)
theory Device_Faults
  imports Device_Ops
begin

text \<open>
  The other branches of the driver's entry points: interrupted waits, unreadable user memory,
  failing allocations, and the inputs on which \<open>aesd_write\<close> leaves the memory it owns.
\<close>

section \<open>Interrupted waits\<close>

lemma aesd_write_eintr:
  "private_data filp = Dev_aesd \<Longrightarrow> aesd_write env True ubuf filp count k = Inr (- EINTR, k)"
  by (simp add: aesd_write_def deref_dev_def mutex_lock_interruptible_def)

lemma aesd_read_eintr:
  "private_data filp = Dev_aesd \<Longrightarrow> count \<noteq> 0 \<Longrightarrow>
     aesd_read True room filp count pos k = Inr (- EINTR, [], pos, k)"
  by (simp add: aesd_read_def deref_dev_def mutex_lock_interruptible_def)

text \<open>After \<open>aesd_release\<close> the file has no device, and a call on it is a null dereference.\<close>

lemma aesd_write_closed:
  "private_data filp = Dev_NULL \<Longrightarrow> aesd_write env intr ubuf filp count k = Inl Null_Deref"
  by (simp add: aesd_write_def deref_dev_def)

section \<open>Two commands in one buffer\<close>

text \<open>
  The second command of a buffer is copied with a size counted from the start of the buffer,
  so the copy runs past the end unless enough bytes follow.
\<close>

lemma write_command_oob:
  assumes "blk h b = Some s" and "length s < start + Suc i" and "kmalloc_ok env (length h)"
  shows "write_command env (Blk b) start i cb h = Inl Out_Of_Bounds"
proof -
  have "b < length h" using assms(1) by (rule blk_SomeD)
  then show ?thesis
    using assms by (simp add: write_command_def kmalloc_ok_simp memcpy_def load_Blk_oob)
qed

lemma write_loop_two:
  assumes ok: "dev_ok d h" and env: "alloc_never_fails env"
    and icb: "incomplete_command_buffer d = Blk b" and b: "blk h b = Some s"
    and s: "s = l1 @ NL # l2 @ NL # r" "NL \<notin> set l1" "NL \<notin> set l2" and len: "length s < 2 ^ 64"
    and short: "length r \<le> length l1"
  shows "write_loop env (Blk b) 0 (length s) (circular_buffer d) h = Inl Out_Of_Bounds"
proof -
  let ?i = "length l1" and ?j = "Suc (length l1 + length l2)"
  have i: "?i < length s" by (simp add: s)
  obtain cb' h' where c: "write_command env (Blk b) 0 ?i (circular_buffer d) h = Inr (True, cb', h')"
      "blk h' b = Some s"
    using command_step [OF ok env icb b i len] unfolding Let_def by blast
  have "memchr (Blk b) 0 NL (length s) h = Inr (Some ?i)"
    using b s by (simp add: memchr_Blk index_of_split)
  then have "write_loop env (Blk b) 0 (length s) (circular_buffer d) h =
      write_loop env (Blk b) (Suc ?i) (length s - Suc ?i) cb' h'"
    using i by (subst write_loop.simps) (simp add: c(1) s)
  moreover have "memchr (Blk b) (Suc ?i) NL (length s - Suc ?i) h' = Inr (Some ?j)"
    using c(2) s by (simp add: memchr_Blk index_of_split)
  moreover have "length s < Suc ?i + Suc ?j" using short by (simp add: s)
  then have "write_command env (Blk b) (Suc ?i) ?j cb' h' = Inl Out_Of_Bounds"
    using c(2) env by (intro write_command_oob) (simp_all add: alloc_never_fails_def)
  ultimately show ?thesis by (simp add: write_loop.simps [of env "Blk b" "Suc ?i"])
qed

lemma write_two_commands:
  assumes inv: "dev_inv k" and pre: "write_pre env ubuf filp count k"
    and s: "pending k @ take (unat count) ubuf = l1 @ NL # l2 @ NL # r"
      "NL \<notin> set l1" "NL \<notin> set l2" "length r \<le> length l1"
  shows "aesd_write env False ubuf filp count k = Inl Out_Of_Bounds"
proof -
  let ?d = "(aesd_device k)\<lparr>lock := True\<rparr>" and ?h = "heap k"
  let ?s = "pending k @ take (unat count) ubuf"
  have env: "alloc_never_fails env" and count: "unat count \<le> length ubuf"
    and small: "length (stream k) + length ?s < 2 ^ 63"
    using pre by (auto simp: write_pre_def)
  have ok: "dev_ok ?d ?h" using inv by (simp add: dev_inv_def)
  have pend: "?s = dev_pending ?d ?h @ take (unat count) ubuf" by (simp add: pending_def)
  have nowrap: "unat (incomplete_command_size ?d) + unat count < 2 ^ 64"
    using dev_ok_pending [OF ok] small count by (simp add: pending_def)
  have kok: "kmalloc_ok env (length ?h)" using env by (simp add: alloc_never_fails_def)
  have ne: "?s \<noteq> []" unfolding s by simp
  obtain c h1 where g: "write_gather env ubuf count ?d ?h = Inr (True,
        ?d\<lparr>incomplete_command_buffer := Blk c,
           incomplete_command_size := incomplete_command_size ?d + count\<rparr>, h1)"
      "blk h1 c = Some ?s" "length ?s = unat (incomplete_command_size ?d + count)"
      "dev_ok (?d\<lparr>incomplete_command_buffer := Blk c,
           incomplete_command_size := incomplete_command_size ?d + count\<rparr>) h1"
    using gather_ok [OF ok kok count nowrap pend ne] unfolding Let_def by auto
  have "write_loop env (Blk c) 0 (length ?s) (circular_buffer ?d) h1 = Inl Out_Of_Bounds"
    using write_loop_two [OF g(4) env _ g(2) s(1-3)] small s(4) by simp
  moreover have "mutex_lock_interruptible False (aesd_device k) = Inr (False, ?d)"
    using inv by (simp add: dev_inv_def mutex_lock_interruptible_def)
  ultimately show ?thesis
    using pre g by (simp add: aesd_write_def write_pre_def deref_dev_def Let_def)
qed

section \<open>Unreadable user memory\<close>

text \<open>
  If the caller's bytes cannot be read, the new block is freed again. Without an incomplete
  command that undoes everything. With one, its block has been freed already, and the device
  keeps the pointer.
\<close>

lemma gather_efault_fresh:
  assumes ok: "dev_ok d h" and env: "kmalloc_ok env (length h)"
    and short: "length ubuf < unat count" and none: "incomplete_command_buffer d = NULL"
  shows "\<exists>h'. write_gather env ubuf count d h = Inr (False, d, h') \<and> blk h' = blk h"
proof -
  let ?c = "length h" and ?m = "unat count"
  let ?j = "map (kmalloc_junk env ?c) [0..<?m]" and ?z = "ubuf @ replicate (?m - length ubuf) NUL"
  have size: "incomplete_command_size d = 0" using ok none by (simp add: dev_ok_def)
  have "store (Blk ?c) 0 ?z (h @ [Some ?j]) = Inr ((h @ [Some ?j])[?c := Some ?z])"
    using short by (subst store_Blk [where bs = ?j]) auto
  then have "write_gather env ubuf count d h = Inr (False, d, ((h @ [Some ?j])[?c := Some ?z])[?c := None])"
    using env short none by (simp add: write_gather_def size copy_from_user_def kmalloc_ok_simp)
  then show ?thesis by (auto simp: fun_eq_iff)
qed

lemma gather_efault_pending:
  assumes ok: "dev_ok d h" and env: "kmalloc_ok env (length h)"
    and short: "length ubuf < unat count" and icb: "incomplete_command_buffer d \<noteq> NULL"
    and nowrap: "unat (incomplete_command_size d) + unat count < 2 ^ 64"
  shows "\<exists>h' b. write_gather env ubuf count d h = Inr (False, d, h') \<and>
    incomplete_command_buffer d = Blk b \<and> blk h' b = None \<and> b < length h'"
proof -
  let ?n = "unat (incomplete_command_size d)" and ?c = "length h" and ?m = "unat count"
  obtain b bs where b: "incomplete_command_buffer d = Blk b" "blk h b = Some bs" "length bs = ?n"
      "0 < ?n"
    using ok icb by (auto simp: dev_ok_def elim!: holdsE)
  have lt: "b < ?c" using b(2) by (rule blk_SomeD)
  have total: "unat (incomplete_command_size d + count) = ?n + ?m"
    using nowrap by (rule unat_add_u64)
  let ?j = "map (kmalloc_junk env ?c) [0..<?n + ?m]" and ?z = "ubuf @ replicate (?m - length ubuf) NUL"
  let ?h2 = "(h @ [Some ?j])[?c := Some (bs @ drop ?n ?j), b := None]"
  have "kmalloc env (?n + ?m) h = (Blk ?c, h @ [Some ?j])"
    using env b(4) by (simp add: kmalloc_ok_simp)
  moreover have "bind_res (memcpy (Blk ?c) 0 (Blk b) 0 ?n (h @ [Some ?j])) (kfree (Blk b)) = Inr ?h2"
    using b lt by (simp add: memcpy_def load_Blk store_Blk)
  moreover have "store (Blk ?c) ?n ?z ?h2 = Inr (?h2[?c := Some (bs @ ?z)])"
    using b lt short by (subst store_Blk [where bs = "bs @ drop ?n ?j"]) auto
  ultimately have "write_gather env ubuf count d h = Inr (False, d, ?h2[?c := Some (bs @ ?z), ?c := None])"
    using b lt short by (simp add: write_gather_def total copy_from_user_def)
  then show ?thesis using b(1) lt by auto
qed

lemma write_efault_fresh:
  assumes inv: "dev_inv k" and dev: "private_data filp = Dev_aesd" and env: "kmalloc_ok env (length (heap k))"
    and short: "length ubuf < unat count" and none: "pending k = []"
  shows "\<exists>k'. aesd_write env False ubuf filp count k = Inr (- EFAULT, k') \<and> dev_inv k' \<and>
    lines k' = lines k \<and> pending k' = []"
proof -
  let ?d = "(aesd_device k)\<lparr>lock := True\<rparr>"
  have ok: "dev_ok ?d (heap k)" and unlocked: "\<not> lock (aesd_device k)" using inv by (simp_all add: dev_inv_def)
  have icb: "incomplete_command_buffer ?d = NULL"
    using ok none by (auto simp: dev_ok_def pending_def dev_pending_def dest: holdsD(4) split: if_splits)
  obtain h' where h': "write_gather env ubuf count ?d (heap k) = Inr (False, ?d, h')" "blk h' = blk (heap k)"
    using gather_efault_fresh [OF ok env short icb] by blast
  then have "aesd_write env False ubuf filp count k = Inr (- EFAULT, k\<lparr>heap := h', aesd_device := aesd_device k\<rparr>)"
    using dev unlocked
    by (simp add: aesd_write_def deref_dev_def mutex_lock_interruptible_def Let_def)
  moreover have "dev_ok (aesd_device k) h'" using ok dev_ok_same [OF _ h'(2)] by simp
  ultimately show ?thesis
    using unlocked none dev_view_same [OF h'(2)]
    by (simp add: dev_inv_def lines_def pending_def)
qed

lemma write_dangling:
  assumes "incomplete_command_buffer (aesd_device k) = Blk b" and "blk (heap k) b = None"
    and "incomplete_command_size (aesd_device k) \<noteq> 0" and "\<not> lock (aesd_device k)"
    and dev: "private_data filp = Dev_aesd" and fresh: "b < length (heap k)"
  shows "aesd_write env False ubuf filp count k = Inl Use_After_Free"
proof -
  obtain p h1 where k: "kmalloc env (unat (incomplete_command_size (aesd_device k) + count)) (heap k) = (p, h1)"
    by (cases "kmalloc env (unat (incomplete_command_size (aesd_device k) + count)) (heap k)")
  then have "blk h1 b = None" using assms(2) fresh by (auto simp: kmalloc_def split: if_splits)
  moreover have "0 < unat (incomplete_command_size (aesd_device k))"
    using assms(3) by (simp add: unat_gt_0)
  ultimately show ?thesis
    using assms k by (simp add: aesd_write_def deref_dev_def mutex_lock_interruptible_def write_gather_def
        memcpy_def load_freed)
qed

lemma write_efault_pending:
  assumes inv: "dev_inv k" and dev: "private_data filp = Dev_aesd" and env: "kmalloc_ok env (length (heap k))"
    and short: "length ubuf < unat count" and pend: "pending k \<noteq> []"
    and nowrap: "length (pending k) + unat count < 2 ^ 64"
  shows "\<exists>k'. aesd_write env False ubuf filp count k = Inr (- EFAULT, k') \<and>
    (\<forall>env' ubuf' filp' count'. private_data filp' = Dev_aesd \<longrightarrow>
       aesd_write env' False ubuf' filp' count' k' = Inl Use_After_Free) \<and>
    aesd_cleanup_module k' = Inl Double_Free"
proof -
  let ?d = "(aesd_device k)\<lparr>lock := True\<rparr>"
  have ok: "dev_ok ?d (heap k)" and unlocked: "\<not> lock (aesd_device k)" using inv by (simp_all add: dev_inv_def)
  have size: "length (pending k) = unat (incomplete_command_size ?d)"
    using dev_ok_pending [OF ok] by (simp add: pending_def)
  have icb: "incomplete_command_buffer ?d \<noteq> NULL"
    using pend by (auto simp: pending_def dev_pending_def)
  obtain h' b where h': "write_gather env ubuf count ?d (heap k) = Inr (False, ?d, h')"
      "incomplete_command_buffer ?d = Blk b" "blk h' b = None" "b < length h'"
    using gather_efault_pending [OF ok env short icb] nowrap size by auto
  let ?k' = "k\<lparr>heap := h', aesd_device := aesd_device k\<rparr>"
  have "aesd_write env False ubuf filp count k = Inr (- EFAULT, ?k')"
    using h'(1) dev unlocked
    by (simp add: aesd_write_def deref_dev_def mutex_lock_interruptible_def Let_def)
  moreover have "incomplete_command_size (aesd_device k) \<noteq> 0" using size pend by auto
  then have "aesd_write env' False ubuf' filp' count' ?k' = Inl Use_After_Free"
    if "private_data filp' = Dev_aesd" for env' ubuf' filp' count'
    using h' unlocked that by (intro write_dangling) simp_all
  moreover have "aesd_cleanup_module ?k' = Inl Double_Free"
    using h'(2,3) by (simp add: aesd_cleanup_module_def)
  ultimately show ?thesis by blast
qed

section \<open>Failing allocations\<close>

text \<open>The first \<open>kmalloc\<close> is not checked.\<close>

lemma write_no_memory:
  assumes inv: "dev_inv k" and dev: "private_data filp = Dev_aesd"
    and env: "\<not> kmalloc_ok env (length (heap k))" and some: "0 < unat count"
    and nowrap: "length (pending k) + unat count < 2 ^ 64"
  shows "aesd_write env False ubuf filp count k = Inl Null_Deref"
proof -
  let ?d = "aesd_device k" and ?h1 = "heap k @ [None]"
  have ok: "dev_ok ?d (heap k)" and unlocked: "\<not> lock ?d" using inv by (simp_all add: dev_inv_def)
  have size: "length (pending k) = unat (incomplete_command_size ?d)"
    using dev_ok_pending [OF ok] by (simp add: pending_def)
  then have "unat (incomplete_command_size ?d + count) \<noteq> 0"
    using nowrap some by (simp add: unat_add_u64)
  then have alloc: "kmalloc env (unat (incomplete_command_size ?d + count)) (heap k) = (NULL, ?h1)"
    using env by (simp add: kmalloc_def)
  have null: "xs \<noteq> [] \<Longrightarrow> store NULL off xs h = Inl Null_Deref" for off xs h by (simp add: store.simps)
  show ?thesis
  proof (cases "incomplete_command_buffer ?d = NULL")
    case True
    have "take (unat count) ubuf @ replicate (unat count - length ubuf) NUL \<noteq> []"
      using some by (cases ubuf) auto
    then show ?thesis using True alloc dev unlocked null
      by (simp add: aesd_write_def deref_dev_def mutex_lock_interruptible_def write_gather_def
          copy_from_user_def)
  next
    case False
    then obtain b bs where b: "incomplete_command_buffer ?d = Blk b" "blk (heap k) b = Some bs"
        "length bs = unat (incomplete_command_size ?d)" "0 < unat (incomplete_command_size ?d)"
      using ok by (auto simp: dev_ok_def elim!: holdsE)
    then have "load (Blk b) 0 (unat (incomplete_command_size ?d)) ?h1 = Inr bs"
      by (subst load_Blk [where bs = bs]) (auto dest: blk_SomeD)
    moreover have "bs \<noteq> []" using b by auto
    ultimately show ?thesis using b alloc dev unlocked null [of bs]
      by (auto simp: aesd_write_def deref_dev_def mutex_lock_interruptible_def write_gather_def
          memcpy_def)
  qed
qed

text \<open>
  The last \<open>kmalloc\<close> of a command is checked. If it fails for the first command, nothing has
  been stored yet, and all the bytes wait in the incomplete command.
\<close>

lemma write_command_enomem:
  assumes b: "blk h b = Some s" and i: "i < length s"
    and env: "kmalloc_ok env (length h)" "\<not> kmalloc_ok env (Suc (length h))"
  shows "\<exists>h'. write_command env (Blk b) 0 i cb h = Inr (False, cb, h') \<and> blk h' = blk h"
proof -
  let ?c = "length h"
  obtain h1 h2 where 1: "kmalloc env (i + 1) h = (Blk ?c, h1)" "memcpy (Blk ?c) 0 (Blk b) 0 (i + 1) h1 = Inr h2"
      "blk h2 = (blk h)(?c \<mapsto> take (i + 1) s)" "length h2 = Suc ?c"
    using alloc_copy [OF env(1), of "i + 1" b s 0] b i by auto
  have 2: "kmalloc env (i + 1) h2 = (NULL, h2 @ [None])"
    using env(2) 1(4) by (simp add: kmalloc_def)
  have "blk (h2 @ [None]) ?c = Some (take (i + 1) s)" using 1(3,4) by simp
  then obtain h3 where 3: "kfree (Blk ?c) (h2 @ [None]) = Inr h3" "blk h3 = (blk (h2 @ [None]))(?c := None)"
    using kfree_map by blast
  have "blk h3 = blk h"
    unfolding 3(2) by (rule ext) (use 1(3,4) in \<open>auto simp: blk_beyond\<close>)
  then show ?thesis using 1 2 3(1) by (simp add: write_command_def)
qed

lemma write_enomem:
  assumes inv: "dev_inv k" and dev: "private_data filp = Dev_aesd"
    and count: "unat count \<le> length ubuf" and nl: "NL \<in> set (pending k @ take (unat count) ubuf)"
    and small: "length (pending k) + unat count < 2 ^ 64"
    and env: "kmalloc_ok env (length (heap k))" "kmalloc_ok env (Suc (length (heap k)))"
      "\<not> kmalloc_ok env (Suc (Suc (length (heap k))))"
  shows "\<exists>k'. aesd_write env False ubuf filp count k = Inr (- ENOMEM, k') \<and> dev_inv k' \<and>
    lines k' = lines k \<and> pending k' = pending k @ take (unat count) ubuf"
proof -
  let ?d = "(aesd_device k)\<lparr>lock := True\<rparr>"
  define s where "s = pending k @ take (unat count) ubuf"
  have ok: "dev_ok ?d (heap k)" and unlocked: "\<not> lock (aesd_device k)" using inv by (simp_all add: dev_inv_def)
  have pend: "s = dev_pending ?d (heap k) @ take (unat count) ubuf" by (simp add: s_def pending_def)
  have nowrap: "unat (incomplete_command_size ?d) + unat count < 2 ^ 64"
    using dev_ok_pending [OF ok] small by (simp add: pending_def)
  have "s \<noteq> []" using nl unfolding s_def by (metis list.set(1) empty_iff)
  then obtain c h1 where g: "write_gather env ubuf count ?d (heap k) = Inr (True,
        ?d\<lparr>incomplete_command_buffer := Blk c,
           incomplete_command_size := incomplete_command_size ?d + count\<rparr>, h1)"
      "blk h1 c = Some s" "length s = unat (incomplete_command_size ?d + count)"
      "dev_ok (?d\<lparr>incomplete_command_buffer := Blk c,
           incomplete_command_size := incomplete_command_size ?d + count\<rparr>) h1"
      "dev_lines (?d\<lparr>incomplete_command_buffer := Blk c,
           incomplete_command_size := incomplete_command_size ?d + count\<rparr>) h1 = dev_lines ?d (heap k)"
      "length h1 = Suc (length (heap k))"
    using gather_ok [OF ok env(1) count nowrap pend] unfolding Let_def by auto
  define d1 where "d1 = ?d\<lparr>incomplete_command_buffer := Blk c,
    incomplete_command_size := incomplete_command_size ?d + count\<rparr>"
  note g = g [folded d1_def]
  obtain i where i: "index_of NL s = Some i" "i < length s"
    using index_of_in [OF nl] unfolding s_def by blast
  obtain h2 where w: "write_command env (Blk c) 0 i (circular_buffer ?d) h1 = Inr (False, circular_buffer ?d, h2)"
      "blk h2 = blk h1"
    using write_command_enomem [OF g(2) i(2), of env "circular_buffer ?d"] env g(6) by auto
  have "memchr (Blk c) 0 NL (length s) h1 = Inr (Some i)" using g(2) i by (simp add: memchr_Blk)
  then have "write_loop env (Blk c) 0 (length s) (circular_buffer ?d) h1 = Inr (False, 0, circular_buffer ?d, h2)"
    using w by (subst write_loop.simps) simp
  moreover have "incomplete_command_buffer d1 = Blk c" "circular_buffer d1 = circular_buffer ?d"
      "incomplete_command_size d1 = incomplete_command_size ?d + count"
      "d1\<lparr>circular_buffer := circular_buffer ?d\<rparr> = d1"
    by (simp_all add: d1_def)
  ultimately have "aesd_write env False ubuf filp count k =
      Inr (- ENOMEM, k\<lparr>heap := h2, aesd_device := d1\<lparr>lock := False\<rparr>\<rparr>)"
    using g dev unlocked
    by (simp add: aesd_write_def deref_dev_def mutex_lock_interruptible_def mutex_unlock_def Let_def)
  moreover have "dev_ok d1 h2" "dev_lines d1 h2 = lines k" "dev_pending d1 h2 = s"
    using dev_ok_same [OF g(4) w(2)] dev_view_same(1) [OF w(2)] g(2,5) w(2)
    by (simp_all add: lines_def) (simp add: d1_def dev_pending_def)
  ultimately show ?thesis
    unfolding s_def [symmetric]
    by (intro exI [of _ "k\<lparr>heap := h2, aesd_device := d1\<lparr>lock := False\<rparr>\<rparr>"])
      (simp add: dev_inv_def lines_def pending_def)
qed

end
