(* ===== verification/Device_History.thy ===== *)
theory Device_History
  imports Device_Faults
begin

text \<open>
  The driver over time: which states its entry points can lead to from \<open>aesd_init_module\<close>, and
  what a state says about the bytes that were written to the device up to there.
\<close>

section \<open>The specification of a sequence of writes\<close>

lemma push_line_len: "length ls \<le> 10 \<Longrightarrow> length (push_line l ls) \<le> 10"
  by (simp add: push_line_def)

lemma fold_push_line:
  "length ls \<le> 10 \<Longrightarrow> fold push_line cs ls = drop (length ls + length cs - 10) (ls @ cs)"
proof (induction cs arbitrary: ls)
  case (Cons c cs)
  show ?case
  proof (cases "length ls < 10")
    case True
    then have "push_line c ls = ls @ [c]" by (simp add: push_line_def)
    then show ?thesis using Cons.IH [of "ls @ [c]"] True by simp
  next
    case False
    then obtain x xs where ls: "ls = x # xs" "length xs = 9"
      using Cons.prems by (cases ls) auto
    then have "push_line c ls = xs @ [c]" by (simp add: push_line_def)
    then show ?thesis using Cons.IH [of "xs @ [c]"] ls by (simp add: Suc_diff_le)
  qed
qed simp

lemma split_cmds_append:
  "split_cmds (s @ t) =
     (case split_cmds s of (ls, r) \<Rightarrow> (case split_cmds (r @ t) of (ls', r') \<Rightarrow> (ls @ ls', r')))"
proof (induction s)
  case (Cons c s)
  obtain ls r where s: "split_cmds s = (ls, r)" by (cases "split_cmds s")
  obtain ls' r' where r: "split_cmds (r @ t) = (ls', r')" by (cases "split_cmds (r @ t)")
  show ?case
  proof (cases "c = NL \<or> ls \<noteq> []")
    case True
    then show ?thesis using Cons.IH s r by (auto split: list.split)
  next
    case False
    then show ?thesis using Cons.IH s r by (auto split: list.split prod.split)
  qed
qed (simp split: prod.split)

lemma spec_write_append:
  "spec_write t (spec_write s st) = spec_write (s @ t) st"
  using split_cmds_append [of "snd st @ s" t]
  by (auto simp: spec_write_def split: prod.splits)

lemma spec_write_Nil:
  "NL \<notin> set (snd st) \<Longrightarrow> spec_write [] st = st"
  by (simp add: spec_write_def split_cmds_none)

lemma spec_write_rest: "NL \<notin> set (snd (spec_write s st))"
  using split_cmds_rest [of "snd st @ s"] by (simp add: spec_write_def case_prod_unfold)

text \<open>Written from nothing: the last ten commands of all that was written, and the rest of it.\<close>

lemma spec_write_all:
  "spec_write s ([], []) =
     (drop (length (fst (split_cmds s)) - 10) (fst (split_cmds s)), snd (split_cmds s))"
  by (simp add: spec_write_def fold_push_line split: prod.split)

text \<open>A complete line from a clean start is one command.\<close>

lemma spec_write_line:
  "NL \<notin> set l \<Longrightarrow> spec_write (l @ [NL]) (ls, []) = (push_line (l @ [NL]) ls, [])"
  by (simp add: spec_write_def split_cmds_cmd [of l "[]", simplified])

section \<open>Steps and reachable states\<close>

text \<open>
  A step is a call of one of the file operations, with any arguments, on a file that is open.
  The label is what the call says it has written. A write is admissible if there is memory,
  its bytes can be read, and it completes at most one command.
\<close>

definition admissible :: "kenv \<Rightarrow> bytes \<Rightarrow> struct_file \<Rightarrow> u64 \<Rightarrow> kernel \<Rightarrow> bool" where
  "admissible env ubuf filp count k \<longleftrightarrow>
     write_pre env ubuf filp count k \<and> count_list (pending k @ take (unat count) ubuf) NL \<le> 1"

inductive fop_step :: "kenv \<Rightarrow> bytes \<Rightarrow> kernel \<Rightarrow> kernel \<Rightarrow> bool" for env where
  fop_write: "admissible env ubuf filp count k \<Longrightarrow> aesd_write env intr ubuf filp count k = Inr (r, k') \<Longrightarrow>
    fop_step env (if r < 0 then [] else take (nat r) ubuf) k k'"
| fop_read: "private_data filp = Dev_aesd \<Longrightarrow> length (stream k) < 2 ^ 63 \<Longrightarrow>
    aesd_read intr room filp count pos k = Inr (r, bs, pos', k') \<Longrightarrow> fop_step env [] k k'"

inductive reachable :: "kenv \<Rightarrow> kernel \<Rightarrow> bytes \<Rightarrow> kernel \<Rightarrow> bool" for env k0 where
  start: "reachable env k0 [] k0"
| step: "reachable env k0 written k \<Longrightarrow> fop_step env data k k' \<Longrightarrow> reachable env k0 (written @ data) k'"

text \<open>A read changes nothing in the kernel, on any branch.\<close>

lemma aesd_read_frame:
  assumes inv: "dev_inv k" and "aesd_read intr room filp count pos k = Inr (r, bs, pos', k')"
  shows "k' = k"
proof -
  have "\<not> lock (aesd_device k)" using inv by (simp add: dev_inv_def)
  then show ?thesis using assms(2)
    by (auto simp: aesd_read_def deref_dev_def mutex_lock_interruptible_def res_iff Let_def
        split: if_splits option.splits dev_ptr.splits prod.splits)
qed

lemma write_step:
  assumes inv: "dev_inv k" and adm: "admissible env ubuf filp count k"
    and w: "aesd_write env intr ubuf filp count k = Inr (r, k')"
  shows "dev_inv k'" and "(lines k', pending k') =
    spec_write (if r < 0 then [] else take (nat r) ubuf) (lines k, pending k) \<or>
      r = - EINTR \<and> k' = k"
proof -
  have pre: "write_pre env ubuf filp count k"
    and one: "count_list (pending k @ take (unat count) ubuf) NL \<le> 1"
    using adm by (auto simp: admissible_def)
  show "dev_inv k'"
    using aesd_write_main [OF inv pre one] w pre inv
    by (cases intr) (auto simp: aesd_write_eintr write_pre_def)
  show "(lines k', pending k') =
    spec_write (if r < 0 then [] else take (nat r) ubuf) (lines k, pending k) \<or> r = - EINTR \<and> k' = k"
    using aesd_write_main [OF inv pre one] w pre
    by (cases intr) (auto simp: aesd_write_eintr write_pre_def)
qed

definition history_inv :: "bytes \<Rightarrow> kernel \<Rightarrow> bool" where
  "history_inv written k \<longleftrightarrow> dev_inv k \<and> (lines k, pending k) = spec_write written ([], [])"

lemma history_step:
  assumes hist: "history_inv written k" and "fop_step env data k k'"
  shows "history_inv (written @ data) k'"
  using assms(2)
proof (cases rule: fop_step.cases)
  case (fop_write ubuf filp count intr r)
  have inv: "dev_inv k" and spec: "(lines k, pending k) = spec_write written ([], [])"
    using hist by (auto simp: history_inv_def)
  show ?thesis
  proof (cases "r = - EINTR \<and> k' = k")
    case False
    then show ?thesis
      using write_step [OF inv fop_write(2,3)] spec unfolding history_inv_def fop_write(1)
      by (metis spec_write_append)
  next
    case True
    then show ?thesis using hist fop_write(1) by simp
  qed
next
  case (fop_read filp intr room count pos r bs pos')
  have "dev_inv k" using hist by (simp add: history_inv_def)
  then have "k' = k" using fop_read(4) by (rule aesd_read_frame)
  then show ?thesis using hist fop_read(1) by simp
qed

lemma history_reachable:
  assumes "reachable env k0 written k" and "history_inv [] k0"
  shows "history_inv written k"
  using assms(1)
proof (induction rule: reachable.induct)
  case (step written k data k')
  then show ?case by (blast intro: history_step)
qed (fact assms(2))

lemma history_init:
  assumes "live (heap k) = {}" and "0 \<le> alloc_rc"
  shows "history_inv [] (snd (aesd_init_module alloc_rc major cdev_rc k))"
proof -
  have "cb_list (circular_buffer zero_dev) = []" by (simp add: zero_dev_def)
  then show ?thesis
    using zero_dev_ok [OF assms(1)] unfolding init_device [OF assms(2)]
    by (simp add: history_inv_def dev_inv_def lines_def pending_def dev_lines_def dev_pending_def
        spec_write_Nil) (simp add: zero_dev_def)
qed

section \<open>Where the oldest command is\<close>

text \<open>The place of the next command is the number of commands so far, around the array.\<close>

lemma one_put_in_offs:
  assumes "cb_wf cb" and "one_put cmds cb cb'" and "length cmds \<le> 1"
  shows "unat (in_offs cb') = (unat (in_offs cb) + length cmds) mod 10"
proof (cases "cmds = []")
  case True
  then show ?thesis using assms(1,2) by (simp add: one_put_def cb_wf_def)
next
  case False
  then obtain e where "cb' = snd (cb_put e cb)" "length cmds = 1"
    using assms(2,3) by (cases cmds) (auto simp: one_put_def)
  then show ?thesis using cb_put_full [OF assms(1)] cb_put_not_full [OF assms(1)] by (cases "full cb") simp_all
qed

definition next_slot :: "kernel \<Rightarrow> nat" where
  "next_slot k = unat (in_offs (circular_buffer (aesd_device k)))"

lemma split_cmds_count: "length (fst (split_cmds s)) = count_list s NL"
  by (induction s) (auto split: list.split prod.split)

lemma write_next_slot:
  assumes inv: "dev_inv k" and rest: "NL \<notin> set (pending k)" and adm: "admissible env ubuf filp count k"
    and w: "aesd_write env intr ubuf filp count k = Inr (r, k')"
  shows "next_slot k' = (next_slot k + length (fst (split_cmds (pending k @ (if r < 0 then [] else take (nat r) ubuf))))) mod 10"
proof -
  let ?s = "pending k @ take (unat count) ubuf"
  have wf: "cb_wf (circular_buffer (aesd_device k))" using inv by (auto simp: dev_inv_def dest: dev_okD(1))
  have pre: "write_pre env ubuf filp count k" and one: "count_list ?s NL \<le> 1"
    using adm by (auto simp: admissible_def)
  show ?thesis
  proof (cases intr)
    case True
    then have "r = - EINTR" "k' = k" using w pre by (auto simp: aesd_write_eintr write_pre_def)
    then show ?thesis using wf rest by (simp add: split_cmds_none next_slot_def cb_wf_def)
  next
    case False
    then have "r = int (unat count)" "one_put (fst (split_cmds ?s)) (circular_buffer (aesd_device k)) (circular_buffer (aesd_device k'))"
      using aesd_write_full [OF inv pre one] w by auto
    then show ?thesis using one_put_in_offs [OF wf] one by (simp add: next_slot_def split_cmds_count)
  qed
qed

lemma reachable_next_slot:
  assumes "reachable env k0 written k" and "history_inv [] k0" and "next_slot k0 = 0"
  shows "next_slot k = length (fst (split_cmds written)) mod 10"
  using assms(1)
proof (induction rule: reachable.induct)
  case (step written k data k')
  have hist: "history_inv written k" using history_reachable [OF step.hyps(1) assms(2)] .
  then have inv: "dev_inv k" and pend: "pending k = snd (split_cmds written)"
    by (auto simp: history_inv_def spec_write_all)
  then have rest: "NL \<notin> set (pending k)" using split_cmds_rest [of written] by simp
  have count: "length (fst (split_cmds (written @ data))) =
      length (fst (split_cmds written)) + length (fst (split_cmds (pending k @ data)))" for data
    using split_cmds_append [of written data] pend by (simp add: case_prod_unfold)
  from step.hyps(2) show ?case
  proof cases
    case (fop_write ubuf filp count intr r)
    note put = write_next_slot [OF inv rest fop_write(2,3), folded fop_write(1)]
    then show ?thesis unfolding count step.IH by (simp only: mod_add_left_eq)
  next
    case (fop_read filp intr room count pos r bs pos')
    then have "k' = k" using aesd_read_frame [OF inv] by blast
    then show ?thesis using step.IH fop_read(1) by simp
  qed
qed (simp add: assms(3))

lemma oldest_slot_next:
  assumes "dev_inv k" and "next_slot k = n mod 10" and "length (lines k) = min n 10"
  shows "oldest_slot k = (if n \<le> 10 then 0 else n mod 10)"
proof -
  let ?cb = "circular_buffer (aesd_device k)"
  have wf: "cb_wf ?cb" using assms(1) by (auto simp: dev_inv_def dest: dev_okD(1))
  have count: "cb_count ?cb = min n 10" using assms(3) by (simp add: lines_def length_dev_lines)
  show ?thesis
  proof (cases "n < 10")
    case True
    then show ?thesis using not_full_offs(1) [OF wf] count by (simp add: full_iff_count)
  next
    case False
    then have "in_offs ?cb = out_offs ?cb" using wf count by (simp add: cb_wf_def full_iff_count)
    then show ?thesis using assms(2) False by (auto simp: next_slot_def)
  qed
qed

section \<open>Progress\<close>

text \<open>In a reachable state no admissible call faults: it returns.\<close>

lemma write_returns:
  assumes "dev_inv k" and adm: "admissible env ubuf filp count k"
  shows "\<exists>r k'. aesd_write env intr ubuf filp count k = Inr (r, k') \<and> (r = int (unat count) \<or> r = - EINTR)"
proof (cases intr)
  case True
  then show ?thesis using adm by (simp add: admissible_def write_pre_def aesd_write_eintr)
next
  case False
  then show ?thesis
    using aesd_write_main [OF assms(1), of env ubuf filp count] adm unfolding admissible_def by metis
qed

lemma read_returns:
  assumes inv: "dev_inv k" and dev: "private_data filp = Dev_aesd"
    and small: "length (stream k) < 2 ^ 63"
  shows "\<exists>r bs pos'. aesd_read intr room filp count pos k = Inr (r, bs, pos', k)"
proof -
  let ?bs = "spec_read (unat count) (unat pos) (lines k)"
  consider (zero) "count = 0" | (intr) "intr" "count \<noteq> 0" | (fits) "\<not> intr" "length ?bs \<le> room"
    | (short) "\<not> intr" "room < length ?bs" by linarith
  then show ?thesis
  proof cases
    case zero
    then show ?thesis by (simp add: aesd_read_def)
  next
    case intr
    then show ?thesis using dev by (simp add: aesd_read_eintr)
  next
    case fits
    then show ?thesis using aesd_read_main [OF inv dev fits(2) small] by (simp add: Let_def)
  next
    case short
    then obtain i r where ir: "locate (map length (lines k)) (unat pos) = Some (i, r)"
        "room < length (take (unat count) (drop r (lines k ! i)))"
      by (auto simp: spec_read_def split: option.splits)
    then show ?thesis using aesd_read_efault [OF inv dev ir(1)] short(1) by (simp add: min.commute)
  qed
qed

end
