(* ===== verification/Device_Theorems.thy ===== *)
theory Device_Theorems
  imports Device_History
begin

text \<open>
  The properties of the char device, each applied at a concrete device. The concrete devices
  are built by the code's own functions from a fresh module.
\<close>

section \<open>Concrete devices\<close>

definition env0 :: kenv where
  "env0 = \<lparr>kmalloc_ok = \<lambda>_. True, kmalloc_junk = \<lambda>_ _. CHR ''?''\<rparr>"

definition file0 :: struct_file where
  "file0 = snd (aesd_open \<lparr>private_data = Dev_NULL, f_pos = 7, f_pos_lock = False\<rparr>)"

definition kernel_boot :: kernel where
  "kernel_boot = \<lparr>heap = [], aesd_device = zero_dev\<lparr>lock := True\<rparr>, aesd_major = 0,
     chrdev_region = False, cdev_added = False, klog = []\<rparr>"

definition kernel0 :: kernel where
  "kernel0 = snd (aesd_init_module 0 42 0 kernel_boot)"

definition put_bytes :: "bytes \<Rightarrow> kernel \<Rightarrow> kernel" where
  "put_bytes s k =
     (case aesd_write env0 False s file0 (of_nat (length s)) k of Inr (_, k') \<Rightarrow> k' | Inl _ \<Rightarrow> k)"

definition line :: "string \<Rightarrow> bytes" where
  "line s = s @ [NL]"

lemma env0_ok [simp]: "alloc_never_fails env0" "kmalloc_ok env0 n"
  by (simp_all add: alloc_never_fails_def env0_def)

lemma file0_simps [simp]:
  "private_data file0 = Dev_aesd" "\<not> f_pos_lock file0" "f_pos file0 = 0"
  by (simp_all add: file0_def aesd_open_def)

lemma kernel0_history: "history_inv [] kernel0"
  unfolding kernel0_def by (rule history_init) (simp_all add: kernel_boot_def live_def dom_def)

lemma kernel0_inv: "dev_inv kernel0" "lines kernel0 = []" "pending kernel0 = []" "stream kernel0 = []"
  using kernel0_history by (simp_all add: history_inv_def spec_write_Nil stream_def)

lemma put_bytes_eq:
  assumes inv: "dev_inv k" and one: "count_list (pending k @ s) NL \<le> 1"
    and small: "length (stream k) + length (pending k) + length s < 2 ^ 63"
  shows "aesd_write env0 False s file0 (of_nat (length s)) k = Inr (int (length s), put_bytes s k)"
    and "dev_inv (put_bytes s k)"
    and "(lines (put_bytes s k), pending (put_bytes s k)) = spec_write s (lines k, pending k)"
proof -
  have n: "unat (of_nat (length s) :: u64) = length s" using small by (intro unat_of_nat_u64) simp
  have "write_pre env0 s file0 (of_nat (length s)) k" using small by (simp add: write_pre_def n)
  from aesd_write_main [OF inv this] one n obtain k' where
    "aesd_write env0 False s file0 (of_nat (length s)) k = Inr (int (length s), k')" "dev_inv k'"
    "(lines k', pending k') = spec_write s (lines k, pending k)" by auto
  moreover from this(1) have "put_bytes s k = k'" by (simp add: put_bytes_def)
  ultimately show "aesd_write env0 False s file0 (of_nat (length s)) k = Inr (int (length s), put_bytes s k)"
    "dev_inv (put_bytes s k)" "(lines (put_bytes s k), pending (put_bytes s k)) = spec_write s (lines k, pending k)"
    by simp_all
qed

text \<open>A device with one command stored and a part of the next one pending.\<close>

definition kernel1 :: kernel where "kernel1 = put_bytes (line ''ab'') kernel0"
definition kernel2 :: kernel where "kernel2 = put_bytes ''cd'' kernel1"

lemma kernel1_inv:
  "dev_inv kernel1" "lines kernel1 = [line ''ab'']" "pending kernel1 = []" "stream kernel1 = line ''ab''"
  using put_bytes_eq [OF kernel0_inv(1), of "line ''ab''"]
  by (simp_all add: kernel0_inv kernel1_def line_def stream_def spec_write_def push_line_def)

lemma kernel2_inv:
  "dev_inv kernel2" "lines kernel2 = [line ''ab'']" "pending kernel2 = ''cd''" "stream kernel2 = line ''ab''"
  using put_bytes_eq [OF kernel1_inv(1), of "''cd''"]
  by (simp_all add: kernel1_inv kernel2_def line_def stream_def spec_write_def)

section \<open>Writing\<close>

text \<open>C1. A write that completes at most one command returns its byte count, releases the
  mutex, and keeps the device sound: the blocks that are live are exactly those the device
  points to, so nothing leaks and nothing dangles. The stored commands and the incomplete
  one are then what the specification says: the old incomplete command and the new bytes are
  cut after each newline, the last ten commands stay, the rest waits.\<close>

theorem write_stores_commands:
  assumes "dev_inv k" and "write_pre env ubuf filp count k"
    and "count_list (pending k @ take (unat count) ubuf) NL \<le> 1"
  shows "\<exists>k'. aesd_write env False ubuf filp count k = Inr (int (unat count), k') \<and> dev_inv k' \<and>
    (lines k', pending k') = spec_write (take (unat count) ubuf) (lines k, pending k)"
  using assms by (rule aesd_write_main)

theorem write_stores_commands_witness:
  "\<exists>k'. aesd_write env0 False (''e'' @ [NL, CHR ''f'']) file0 3 kernel2 = Inr (3, k') \<and> dev_inv k' \<and>
     lines k' = [line ''ab'', line ''cde''] \<and> pending k' = ''f''"
  using write_stores_commands [of kernel2 env0 "''e'' @ [NL, CHR ''f'']" file0 3]
  by (simp add: kernel2_inv write_pre_def spec_write_def push_line_def line_def)

text \<open>C2. What the device holds in any state its file operations can lead to, from the start of
  the module on, is a function of all the bytes ever written: the last ten complete commands
  of them, and what follows the last newline. Where the writes were cut does not matter.\<close>

theorem device_history:
  assumes "live (heap k) = {}" and "0 \<le> alloc_rc"
    and "reachable env (snd (aesd_init_module alloc_rc major cdev_rc k)) written k'"
  shows "dev_inv k' \<and>
    lines k' = drop (length (fst (split_cmds written)) - 10) (fst (split_cmds written)) \<and>
    pending k' = snd (split_cmds written)"
  using history_reachable [OF assms(3) history_init [OF assms(1,2)]]
  by (simp add: history_inv_def spec_write_all)

lemma reachable_put:
  assumes "reachable env0 k0 w k" and inv: "dev_inv k" and one: "count_list (pending k @ s) NL \<le> 1"
    and small: "length (stream k) + length (pending k) + length s < 2 ^ 63"
  shows "reachable env0 k0 (w @ s) (put_bytes s k)"
proof -
  have n: "unat (of_nat (length s) :: u64) = length s" using small by (intro unat_of_nat_u64) simp
  have "admissible env0 s file0 (of_nat (length s)) k"
    using one small by (simp add: admissible_def write_pre_def n)
  from fop_write [OF this put_bytes_eq(1) [OF inv one small]]
  have "fop_step env0 s k (put_bytes s k)" by simp
  with assms(1) show ?thesis by (rule step)
qed

lemma kernel2_reachable: "reachable env0 kernel0 (line ''ab'' @ ''cd'') kernel2"
proof -
  have "reachable env0 kernel0 ([] @ line ''ab'') kernel1" unfolding kernel1_def
    by (rule reachable_put [OF start kernel0_inv(1)]) (simp_all add: kernel0_inv line_def)
  then have "reachable env0 kernel0 (([] @ line ''ab'') @ ''cd'') kernel2" unfolding kernel2_def
    by (rule reachable_put [OF _ kernel1_inv(1)]) (simp_all add: kernel1_inv line_def)
  then show ?thesis by simp
qed

theorem device_history_witness:
  "dev_inv kernel2 \<and> lines kernel2 = [line ''ab''] \<and> pending kernel2 = ''cd''"
  using device_history [of kernel_boot 0 env0 42 0 "line ''ab'' @ ''cd''" kernel2] kernel2_reachable
  by (simp add: kernel0_def kernel_boot_def live_def dom_def line_def)

section \<open>Reading\<close>

text \<open>C16. A read at a position inside the stored commands returns the rest of the command the
  position is in, at most as much as asked for; at or past the end it returns 0. The bytes are
  those of the command stream at that position, the position moves by what was returned, and
  the device, its mutex included, is as before.\<close>

theorem read_returns_stream_bytes:
  assumes "dev_inv k" and "private_data filp = Dev_aesd" and "unat count \<le> room"
    and "length (stream k) < 2 ^ 63"
  shows "\<exists>bs. aesd_read False room filp count pos k = Inr (int (length bs), bs, pos + of_nat (length bs), k) \<and>
    bs = spec_read (unat count) (unat pos) (lines k) \<and>
    bs = take (length bs) (drop (unat pos) (stream k)) \<and>
    (bs = [] \<longleftrightarrow> count = 0 \<or> length (stream k) \<le> unat pos)"
proof -
  let ?bs = "spec_read (unat count) (unat pos) (lines k)"
  have room: "length ?bs \<le> room" using length_spec_read assms(3) by (rule le_trans)
  show ?thesis
    using aesd_read_main [OF assms(1,2) room assms(4)] spec_read_take [of "unat count" "unat pos" "lines k"]
      spec_read_Nil_iff [of "unat count" "unat pos" "lines k"]
    by (intro exI [of _ ?bs]) (simp add: Let_def stream_def unat_eq_zero)
qed

theorem read_returns_stream_bytes_witness:
  "aesd_read False 8 file0 2 1 kernel2 = Inr (2, ''b'' @ [NL], 3, kernel2)"
  using read_returns_stream_bytes [of kernel2 file0 2 8 1]
  by (auto simp: kernel2_inv spec_read_def line_def)

text \<open>A caller's buffer that is too small for the bytes is answered with \<open>-EFAULT\<close>: the
  position stays, the device is as before and its mutex is free again.\<close>

theorem read_efault:
  assumes "dev_inv k" and "private_data filp = Dev_aesd"
    and "locate (map length (lines k)) (unat pos) = Some (i, r)"
    and "room < min (unat count) (length (lines k ! i) - r)"
  shows "aesd_read False room filp count pos k = Inr (- EFAULT, take room (drop r (lines k ! i)), pos, k)"
  using assms by (rule aesd_read_efault)

theorem read_efault_witness:
  "aesd_read False 1 file0 3 0 kernel2 = Inr (- EFAULT, ''a'', 0, kernel2)"
  using read_efault [of kernel2 file0 0 0 0 1 3] by (simp add: kernel2_inv line_def)

text \<open>C21. No admissible call on a reachable device faults: every read and every write returns,
  with its result or \<open>-EINTR\<close>, and leaves a sound device.\<close>

theorem device_safe:
  assumes "live (heap k) = {}" and "0 \<le> alloc_rc"
    and "reachable env (snd (aesd_init_module alloc_rc major cdev_rc k)) written k'"
  shows "(admissible env ubuf filp count k' \<longrightarrow>
      (\<exists>r k''. aesd_write env intr ubuf filp count k' = Inr (r, k'') \<and> dev_inv k'')) \<and>
    (private_data filp = Dev_aesd \<and> length (stream k') < 2 ^ 63 \<longrightarrow>
      (\<exists>r bs pos'. aesd_read intr room filp count pos k' = Inr (r, bs, pos', k')))"
proof -
  have inv: "dev_inv k'"
    using history_reachable [OF assms(3) history_init [OF assms(1,2)]] by (simp add: history_inv_def)
  have "\<exists>r k''. aesd_write env intr ubuf filp count k' = Inr (r, k'') \<and> dev_inv k''"
    if adm: "admissible env ubuf filp count k'"
    using write_returns [OF inv adm, of intr] write_step(1) [OF inv adm] by blast
  with read_returns [OF inv] show ?thesis by simp
qed

theorem device_safe_witness:
  "\<exists>r k''. aesd_write env0 False (line ''x'') file0 2 kernel0 = Inr (r, k'') \<and> dev_inv k''"
proof -
  have "admissible env0 (line ''x'') file0 2 kernel0"
    by (simp add: admissible_def write_pre_def kernel0_inv line_def)
  then show ?thesis
    using device_safe [of kernel_boot 0 env0 42 0 "[]" kernel0 "line ''x''" file0 2 False 0 0]
      start [of env0 kernel0]
    by (simp add: kernel_boot_def live_def dom_def kernel0_def)
qed

section \<open>Branches of a write that fail\<close>

text \<open>If the last allocation for the first command of a write fails, the write returns
  \<open>-ENOMEM\<close> and loses nothing: the scratch block is freed, the stored commands stay, and all
  bytes, the new ones included, wait in the incomplete command.\<close>

theorem write_enomem_keeps_bytes:
  assumes "dev_inv k" and "private_data filp = Dev_aesd" and "unat count \<le> length ubuf"
    and "NL \<in> set (pending k @ take (unat count) ubuf)"
    and "length (pending k) + unat count < 2 ^ 64"
    and "kmalloc_ok env (length (heap k))" and "kmalloc_ok env (Suc (length (heap k)))"
    and "\<not> kmalloc_ok env (Suc (Suc (length (heap k))))"
  shows "\<exists>k'. aesd_write env False ubuf filp count k = Inr (- ENOMEM, k') \<and> dev_inv k' \<and>
    lines k' = lines k \<and> pending k' = pending k @ take (unat count) ubuf"
  using assms by (rule write_enomem)

theorem write_enomem_keeps_bytes_witness:
  "\<exists>env k'. aesd_write env False (line ''e'') file0 2 kernel2 = Inr (- ENOMEM, k') \<and> dev_inv k' \<and>
     lines k' = [line ''ab''] \<and> pending k' = ''cd'' @ line ''e''"
proof -
  let ?env = "env0\<lparr>kmalloc_ok := \<lambda>n. n < Suc (Suc (length (heap kernel2)))\<rparr>"
  show ?thesis
    using write_enomem_keeps_bytes [of kernel2 file0 2 "line ''e''" ?env]
    by (intro exI [of _ ?env]) (simp add: kernel2_inv line_def)
qed

text \<open>A write whose bytes cannot be read returns \<open>-EFAULT\<close>. With no incomplete command
  that leaves the device as it was.\<close>

theorem write_efault_unchanged:
  assumes "dev_inv k" and "private_data filp = Dev_aesd" and "kmalloc_ok env (length (heap k))"
    and "length ubuf < unat count" and "pending k = []"
  shows "\<exists>k'. aesd_write env False ubuf filp count k = Inr (- EFAULT, k') \<and> dev_inv k' \<and>
    lines k' = lines k \<and> pending k' = []"
  using assms by (rule write_efault_fresh)

theorem write_efault_unchanged_witness:
  "\<exists>k'. aesd_write env0 False ''x'' file0 2 kernel1 = Inr (- EFAULT, k') \<and> dev_inv k' \<and>
     lines k' = [line ''ab''] \<and> pending k' = []"
  using write_efault_unchanged [of kernel1 file0 env0 "''x''" 2] by (simp add: kernel1_inv)

text \<open>C35. With an incomplete command it does not: its block has been freed already and the device
  keeps the pointer, so whatever is written next reads freed memory.\<close>

theorem write_efault_dangles:
  assumes "dev_inv k" and "private_data filp = Dev_aesd" and "kmalloc_ok env (length (heap k))"
    and "length ubuf < unat count" and "pending k \<noteq> []"
    and "length (pending k) + unat count < 2 ^ 64"
  shows "\<exists>k'. aesd_write env False ubuf filp count k = Inr (- EFAULT, k') \<and>
    (\<forall>env' ubuf' filp' count'. private_data filp' = Dev_aesd \<longrightarrow>
       aesd_write env' False ubuf' filp' count' k' = Inl Use_After_Free)"
  using write_efault_pending [OF assms] by blast

theorem write_efault_dangles_witness:
  "\<exists>k'. aesd_write env0 False ''x'' file0 2 kernel2 = Inr (- EFAULT, k') \<and>
     aesd_write env0 False (line ''y'') file0 2 k' = Inl Use_After_Free"
  using write_efault_dangles [of kernel2 file0 env0 "''x''" 2] file0_simps(1)
  by (fastforce simp: kernel2_inv)

text \<open>The first allocation of a write is not checked: if it fails, the driver copies to
  \<open>NULL\<close>.\<close>

theorem write_unchecked_allocation:
  assumes "dev_inv k" and "private_data filp = Dev_aesd" and "\<not> kmalloc_ok env (length (heap k))"
    and "0 < unat count" and "length (pending k) + unat count < 2 ^ 64"
  shows "aesd_write env False ubuf filp count k = Inl Null_Deref"
  using assms by (rule write_no_memory)

theorem write_unchecked_allocation_witness:
  "aesd_write (env0\<lparr>kmalloc_ok := \<lambda>_. False\<rparr>) False (line ''y'') file0 2 kernel1 = Inl Null_Deref"
  using write_unchecked_allocation [of kernel1 file0 "env0\<lparr>kmalloc_ok := \<lambda>_. False\<rparr>" 2]
  by (simp add: kernel1_inv)

text \<open>C26. Two commands in one buffer: the size of the second is counted from the start of the
  buffer, so unless more than the length of the first command follows, the copy runs past
  the end of the block.\<close>

theorem write_two_commands_out_of_bounds:
  assumes "dev_inv k" and "write_pre env ubuf filp count k"
    and "pending k @ take (unat count) ubuf = l1 @ NL # l2 @ NL # r"
    and "NL \<notin> set l1" and "NL \<notin> set l2" and "length r \<le> length l1"
  shows "aesd_write env False ubuf filp count k = Inl Out_Of_Bounds"
  using assms by (rule write_two_commands)

theorem write_two_commands_out_of_bounds_witness:
  "aesd_write env0 False (line ''x'' @ line ''y'') file0 4 kernel0 = Inl Out_Of_Bounds"
  using write_two_commands_out_of_bounds [of kernel0 env0 "line ''x'' @ line ''y''" file0 4 "''x''" "''y''" "[]"]
  by (simp add: kernel0_inv write_pre_def line_def)

text \<open>And where enough bytes follow, the second command is stored together with bytes of the
  third, which stay pending as well: three lines \<open>a\<close>, \<open>b\<close>, \<open>c\<close> written at once are stored as
  \<open>a\<close> and as \<open>b\<close> and \<open>c\<close> in one, with \<open>c\<close> left over as if it were incomplete.\<close>

theorem write_three_commands_merged:
  "map_sum id (\<lambda>(r, k). (r, lines k, pending k))
     (aesd_write env0 False (line ''a'' @ line ''b'' @ line ''c'') file0 6 kernel0)
   = Inr (6, [line ''a'', line ''b'' @ line ''c''], line ''c'')"
  by code_simp

text \<open>A signal during the wait for the mutex: \<open>-EINTR\<close>, for a read and for a write, and
  nothing has happened.\<close>

theorem interrupted_calls:
  assumes "private_data filp = Dev_aesd" and "count \<noteq> 0"
  shows "aesd_write env True ubuf filp count k = Inr (- EINTR, k) \<and>
    aesd_read True room filp count pos k = Inr (- EINTR, [], pos, k)"
  using assms by (simp add: aesd_write_eintr aesd_read_eintr)

theorem interrupted_calls_witness:
  "aesd_write env0 True ''x'' file0 1 kernel1 = Inr (- EINTR, kernel1) \<and>
   aesd_read True 1 file0 1 0 kernel1 = Inr (- EINTR, [], 0, kernel1)"
  by (rule interrupted_calls) simp_all

section \<open>Seeking\<close>

text \<open>C39. As long as the commands hold less than 2 GiB and the position is below that too,
  \<open>aesd_llseek\<close> is the kernel's \<open>fixed_size_llseek\<close> over the size of the command stream: it moves to
  the target of a \<open>SEEK_SET\<close>, \<open>SEEK_CUR\<close> or \<open>SEEK_END\<close> that lies inside and returns it, refuses
  every other with \<open>-EINVAL\<close>, and releases the lock of the position. A \<open>SEEK_CUR\<close> by 0 returns the
  position, also where it is beyond the stream, as it can be after commands were pushed out.\<close>

theorem llseek_over_stream:
  assumes "dev_inv k" and "llseek_documented fsl" and "\<not> f_pos_lock filp"
    and "length (stream k) < 2 ^ 31" and "unat (f_pos filp) < 2 ^ 31"
  shows "aesd_llseek fsl filp off whence k =
    Inr (case seek_target filp off whence (of_nat (length (stream k))) of
        None \<Rightarrow> (of_int (- EINVAL), filp)
      | Some p \<Rightarrow> (of_int p, filp\<lparr>f_pos := of_int p\<rparr>))"
proof -
  have small: "length (stream k) < 2 ^ 63" using assms(4) by simp
  have "sint (of_nat (length (stream k)) :: u64) = int (length (stream k))"
    using small by (subst sint_of_small) (simp_all add: unat_of_nat_u64)
  moreover have "sint (f_pos filp) = int (unat (f_pos filp))" using assms(5) by (intro sint_of_small) simp
  then have "0 \<le> sint (f_pos filp)" "sint (f_pos filp) < 2 ^ 31"
    using assms(5) [THEN of_nat_less_iff [where ?'a = int, THEN iffD2]] by simp_all
  ultimately have range: "0 \<le> p \<and> p < 2 ^ 31"
    if "seek_target filp off whence (of_nat (length (stream k))) = Some p" for p
    using that assms(4,5) by (auto simp: seek_target_def Let_def split: if_splits)
  have "scast (ucast (of_int (- EINVAL) :: u64) :: u32) = (of_int (- EINVAL) :: u64)" by simp
  then show ?thesis
    using llseek_eq [OF assms(1-3) small] range scast_ucast_small
    by (auto split: option.split)
qed

definition fixed_size_llseek :: llseek_fn where
  "fixed_size_llseek filp off whence eof =
     (case seek_target filp off whence eof of
        None \<Rightarrow> (of_int (- EINVAL), filp)
      | Some p \<Rightarrow> (of_int p, filp\<lparr>f_pos := of_int p\<rparr>))"

theorem llseek_over_stream_witness:
  "aesd_llseek fixed_size_llseek file0 (- 1) 2 kernel2 = Inr (2, file0\<lparr>f_pos := 2\<rparr>) \<and>
   aesd_llseek fixed_size_llseek file0 4 0 kernel2 = Inr (- 22, file0) \<and>
   aesd_llseek fixed_size_llseek (file0\<lparr>f_pos := 7\<rparr>) 0 1 kernel2 = Inr (7, file0\<lparr>f_pos := 7\<rparr>) \<and>
   aesd_llseek fixed_size_llseek (file0\<lparr>f_pos := 7\<rparr>) 1 1 kernel2 = Inr (- 22, file0\<lparr>f_pos := 7\<rparr>)"
proof -
  have doc: "llseek_documented fixed_size_llseek"
    by (simp add: llseek_documented_def fixed_size_llseek_def)
  show ?thesis
    using llseek_over_stream [OF kernel2_inv(1) doc, of file0]
      llseek_over_stream [OF kernel2_inv(1) doc, of "file0\<lparr>f_pos := 7\<rparr>"]
    by (simp add: kernel2_inv line_def seek_target_def)
qed

text \<open>\<open>AESDCHAR_IOCSEEKTO\<close> on a device whose oldest command is in slot 0: the file moves to
  byte \<open>write_cmd_offset\<close> of command number \<open>write_cmd\<close>, oldest first, and the next read
  returns that command from there; a command that does not exist is refused with \<open>-EINVAL\<close> and the file
  stays, and so is an offset that the command does not have, if the command can be printed.\<close>

theorem ioctl_seeks_to_command:
  assumes "dev_inv k" and "private_data filp = Dev_aesd" and "\<not> f_pos_lock filp"
    and "out_offs (circular_buffer (aesd_device k)) = 0" and "length (stream k) < 2 ^ 63"
  shows "(case spec_seekto (unat w) (unat b) (lines k) of
      None \<Rightarrow> aesd_unlocked_ioctl filp AESDCHAR_IOCSEEKTO (Some \<lparr>write_cmd = w, write_cmd_offset = b\<rparr>) k
        = (if prints_beyond (unat w) (lines k) then Inl Out_Of_Bounds else Inr (- EINVAL, filp))
    | Some p \<Rightarrow> \<exists>filp'. aesd_unlocked_ioctl filp AESDCHAR_IOCSEEKTO
          (Some \<lparr>write_cmd = w, write_cmd_offset = b\<rparr>) k = Inr (0, filp') \<and>
        (\<exists>n pos'. aesd_read False (unat count) filp' count (f_pos filp') k =
           Inr (n, take (unat count) (drop (unat b) (lines k ! unat w)), pos', k)))"
proof (cases "spec_seekto (unat w) (unat b) (lines k)")
  case None
  then show ?thesis using seekto_aligned [OF assms(1-4), of w b] by (simp add: aesd_unlocked_ioctl_def)
next
  case (Some p)
  let ?f = "filp\<lparr>f_pos := of_nat p\<rparr>"
  have "p < length (stream k)"
    using Some spec_read_at_seek [OF Some, of 1] spec_read_Nil_iff [of 1 p "lines k"]
    by (auto simp: stream_def spec_seekto_def split: if_splits)
  then have p: "unat (of_nat p :: u64) = p" using assms(5) by (intro unat_of_nat_u64) simp
  have "aesd_read False (unat count) ?f count (f_pos ?f) k =
      (let bs = take (unat count) (drop (unat b) (lines k ! unat w)) in
       Inr (int (length bs), bs, of_nat p + of_nat (length bs), k))"
    using aesd_read_main [of k ?f count "of_nat p" "unat count"] assms(1,2,5)
    by (simp add: p spec_read_at_seek [OF Some])
  then show ?thesis
    using Some seekto_aligned [OF assms(1-4), of w b]
    by (auto simp: aesd_unlocked_ioctl_def Let_def)
qed

theorem ioctl_seeks_to_command_witness:
  "aesd_unlocked_ioctl file0 AESDCHAR_IOCSEEKTO (Some \<lparr>write_cmd = 1, write_cmd_offset = 0\<rparr>) kernel2
     = Inr (- EINVAL, file0) \<and>
   (\<exists>f. aesd_unlocked_ioctl file0 AESDCHAR_IOCSEEKTO (Some \<lparr>write_cmd = 0, write_cmd_offset = 1\<rparr>) kernel2
     = Inr (0, f))"
proof -
  have "out_offs (circular_buffer (aesd_device kernel2)) = 0" by code_simp
  note ioctl_seeks_to_command [OF kernel2_inv(1) file0_simps(1,2) this]
  from this [of 1 0] this [of 0 1] show ?thesis
    by (auto simp: kernel2_inv line_def spec_seekto_def prints_beyond_def)
qed

text \<open>C27. An offset beyond the end of a command that exists is not refused safely: the
  error message prints the stored bytes as a C string, and as a command is stored without a
  closing 0 byte, the kernel reads beyond its block. It happens for every command number in
  use, whether the buffer has wrapped or not.\<close>

theorem ioctl_bad_offset_overreads:
  assumes "dev_inv k" and "private_data filp = Dev_aesd" and "unat w < length (lines k)"
    and "\<forall>l \<in> set (lines k). NUL \<notin> set l \<and> length l \<le> unat b"
  shows "aesd_unlocked_ioctl filp AESDCHAR_IOCSEEKTO (Some \<lparr>write_cmd = w, write_cmd_offset = b\<rparr>) k
    = Inl Out_Of_Bounds"
  using adjust_beyond [OF assms] by (simp add: aesd_unlocked_ioctl_def)

theorem ioctl_bad_offset_overreads_witness:
  "aesd_unlocked_ioctl file0 AESDCHAR_IOCSEEKTO (Some \<lparr>write_cmd = 0, write_cmd_offset = 3\<rparr>) kernel2
     = Inl Out_Of_Bounds"
  using ioctl_bad_offset_overreads [OF kernel2_inv(1) file0_simps(1), of 0 3]
  by (simp add: kernel2_inv line_def)

text \<open>A device that has wrapped: eleven commands of different sizes.\<close>

definition lines11 :: "bytes list" where
  "lines11 = [''older'', ''a'', ''b'', ''c'', ''d'', ''e'', ''f'', ''g'', ''h'', ''i'', ''jjj'']"

definition kernel11 :: kernel where
  "kernel11 = fold (\<lambda>l. put_bytes (line l)) lines11 kernel0"

lemma put_lines:
  "dev_inv k \<Longrightarrow> pending k = [] \<Longrightarrow> reachable env0 k0 w k \<Longrightarrow> \<forall>l \<in> set ls. NL \<notin> set l \<Longrightarrow>
     length (stream k) + length (concat (map line ls)) < 2 ^ 62 \<Longrightarrow>
     let k' = fold (\<lambda>l. put_bytes (line l)) ls k in
       dev_inv k' \<and> pending k' = [] \<and> lines k' = fold push_line (map line ls) (lines k) \<and>
       reachable env0 k0 (w @ concat (map line ls)) k'"
proof (induction ls arbitrary: k w)
  case (Cons l ls)
  let ?k = "put_bytes (line l) k"
  have nl: "NL \<notin> set l" using Cons.prems(4) by simp
  have one: "count_list (pending k @ line l) NL \<le> 1" using Cons.prems(2) nl by (simp add: line_def count_list_0_iff)
  have small: "length (stream k) + length (pending k) + length (line l) < 2 ^ 63" using Cons.prems(2,5) by simp
  have k: "dev_inv ?k" "lines ?k = push_line (line l) (lines k)" "pending ?k = []"
    using put_bytes_eq [OF Cons.prems(1) one small] Cons.prems(2) spec_write_line [OF nl, of "lines k"]
    by (simp_all add: line_def)
  have "length (stream ?k) \<le> length (stream k) + length (line l)"
    using length_push_line [of "line l" "lines k"] by (simp add: stream_def k(2))
  then have "length (stream ?k) + length (concat (map line ls)) < 2 ^ 62" using Cons.prems(5) by simp
  then show ?case
    using Cons.IH [OF k(1,3) reachable_put [OF Cons.prems(3,1) one small]] Cons.prems(4) k(2) by (simp add: Let_def)
qed simp

lemma kernel11_lines:
  "dev_inv kernel11" "lines kernel11 = map (\<lambda>c. line [c]) ''abcdefghi'' @ [line ''jjj'']" "pending kernel11 = []"
  and kernel11_reachable: "reachable env0 kernel0 (concat (map line lines11)) kernel11"
  using put_lines [OF kernel0_inv(1,3) start, of lines11]
  by (simp_all add: kernel11_def kernel0_inv lines11_def line_def push_line_def Let_def)

text \<open>The sizes of its ten slots, in the order of the array.\<close>

lemma kernel11_slots:
  "map entry_size (entry (circular_buffer (aesd_device kernel11))) = [4, 2, 2, 2, 2, 2, 2, 2, 2, 2]"
  by code_simp

lemma kernel11_seek:
  "map_sum id (\<lambda>(r, f). (r, f_pos f))
     (aesd_unlocked_ioctl file0 AESDCHAR_IOCSEEKTO (Some \<lparr>write_cmd = 1, write_cmd_offset = 0\<rparr>) kernel11)
     = Inr (0, 4)"
  "map_sum id (\<lambda>(r, f). (r, f_pos f))
     (aesd_unlocked_ioctl file0 AESDCHAR_IOCSEEKTO (Some \<lparr>write_cmd = 0, write_cmd_offset = 3\<rparr>) kernel11)
     = Inr (0, 3)"
proof -
  let ?cb = "circular_buffer (aesd_device kernel11)"
  have "length (entry ?cb) = 10"
    using kernel11_lines(1) by (auto simp: dev_inv_def dest: dev_okD(1) cb_wfD(1))
  then have size: "entry_size (entry ?cb ! i) = [4, 2, 2, 2, 2, 2, 2, 2, 2, 2] ! i" if "i < 10" for i
    using that kernel11_slots by (metis nth_map)
  show "map_sum id (\<lambda>(r, f). (r, f_pos f))
     (aesd_unlocked_ioctl file0 AESDCHAR_IOCSEEKTO (Some \<lparr>write_cmd = 1, write_cmd_offset = 0\<rparr>) kernel11)
     = Inr (0, 4)"
    using adjust_ok [OF kernel11_lines(1) file0_simps(1,2), of 1 0] size [of 0] size [of 1]
    by (simp add: aesd_unlocked_ioctl_def slots_before_def)
  show "map_sum id (\<lambda>(r, f). (r, f_pos f))
     (aesd_unlocked_ioctl file0 AESDCHAR_IOCSEEKTO (Some \<lparr>write_cmd = 0, write_cmd_offset = 3\<rparr>) kernel11)
     = Inr (0, 3)"
    using adjust_ok [OF kernel11_lines(1) file0_simps(1,2), of 0 3] size [of 0]
    by (simp add: aesd_unlocked_ioctl_def slots_before_def)
qed

lemma kernel11_read:
  "map_sum id (\<lambda>(r, bs, _). (r, bs)) (aesd_read False 9 file0 9 4 kernel11) = Inr (2, line ''c'')"
  using aesd_read_main [OF kernel11_lines(1) file0_simps(1), of 9 4 9]
  by (simp add: kernel11_lines(2) stream_def spec_read_def line_def Let_def)

text \<open>C30. Where \<open>AESDCHAR_IOCSEEKTO\<close> goes, in every state the device can be in, is a function of
  the bytes ever written. The command number is a slot of the array: of \<open>n\<close> commands, slot 0 has
  the oldest of the last ten only if there are at most ten, or \<open>n\<close> is a multiple of ten. The file
  moves to where that byte would be if the commands were in the order of the slots; a slot that
  is not in use is refused with \<open>-EINVAL\<close>, and so is an offset that its command does not have, if the
  command can be printed.\<close>

theorem ioctl_in_slot_order:
  assumes "live (heap k) = {}" and "0 \<le> alloc_rc"
    and "reachable env (snd (aesd_init_module alloc_rc major cdev_rc k)) written k'"
    and "private_data filp = Dev_aesd" and "\<not> f_pos_lock filp"
  shows "let cmds = fst (split_cmds written); n = length cmds;
      slots = (if n \<le> 10 then cmds else rotate (10 - n mod 10) (drop (n - 10) cmds)) in
    aesd_unlocked_ioctl filp AESDCHAR_IOCSEEKTO (Some \<lparr>write_cmd = w, write_cmd_offset = b\<rparr>) k' =
      (case spec_seekto (unat w) (unat b) slots of
         None \<Rightarrow> if prints_beyond (unat w) slots then Inl Out_Of_Bounds else Inr (- EINVAL, filp)
       | Some p \<Rightarrow> Inr (0, filp\<lparr>f_pos := of_nat p\<rparr>))"
proof -
  let ?k0 = "snd (aesd_init_module alloc_rc major cdev_rc k)" and ?cmds = "fst (split_cmds written)"
  have init: "history_inv [] ?k0" by (rule history_init [OF assms(1,2)])
  have hist: "dev_inv k'" "lines k' = drop (length ?cmds - 10) ?cmds"
    using history_reachable [OF assms(3) init] by (simp_all add: history_inv_def spec_write_all)
  have "next_slot ?k0 = 0" by (simp add: init_device [OF assms(2)] next_slot_def zero_dev_def aesd_circular_buffer_init_def)
  then have "oldest_slot k' = (if length ?cmds \<le> 10 then 0 else length ?cmds mod 10)"
    using reachable_next_slot [OF assms(3) init] hist by (intro oldest_slot_next) simp_all
  then have "slot_lines k' = (if length ?cmds \<le> 10 then ?cmds else rotate (10 - length ?cmds mod 10) (lines k'))"
    using hist(2) by (simp add: slot_lines_def in_slot_order_def)
  then show ?thesis
    using seekto_slots [OF hist(1) assms(4,5), of w b] hist(2)
    by (simp add: aesd_unlocked_ioctl_def Let_def)
qed

theorem ioctl_in_slot_order_witness:
  "aesd_unlocked_ioctl file0 AESDCHAR_IOCSEEKTO (Some \<lparr>write_cmd = 1, write_cmd_offset = 0\<rparr>) kernel11
     = Inr (0, file0\<lparr>f_pos := 4\<rparr>) \<and>
   take 2 (drop 4 (stream kernel11)) = line ''c''"
proof
  have cmds: "split_cmds (concat (map line lines11)) = (map line lines11, [])"
    by (simp add: lines11_def line_def)
  show "aesd_unlocked_ioctl file0 AESDCHAR_IOCSEEKTO (Some \<lparr>write_cmd = 1, write_cmd_offset = 0\<rparr>) kernel11
     = Inr (0, file0\<lparr>f_pos := 4\<rparr>)"
    using ioctl_in_slot_order [OF _ _ kernel11_reachable [unfolded kernel0_def] file0_simps(1,2), of 1 0]
    by (simp add: cmds kernel_boot_def live_def dom_def spec_seekto_def)
      (simp add: lines11_def line_def rotate_drop_take)
  show "take 2 (drop 4 (stream kernel11)) = line ''c''"
    by (simp add: stream_def kernel11_lines line_def)
qed

text \<open>After the buffer has wrapped, the \<open>ioctl\<close> adds up the sizes of the first slots of the
  array and no longer those of the oldest commands. With eleven commands written, of which the
  last ten are stored, a seek to command 1 lands on command 2, and an offset that command 0 does
  not have is accepted.\<close>

theorem ioctl_after_wrap:
  "lines kernel11 = map (\<lambda>c. line [c]) ''abcdefghi'' @ [line ''jjj''] \<and>
   spec_seekto 1 0 (lines kernel11) = Some 2 \<and>
   map_sum id (\<lambda>(r, f). (r, f_pos f))
     (aesd_unlocked_ioctl file0 AESDCHAR_IOCSEEKTO (Some \<lparr>write_cmd = 1, write_cmd_offset = 0\<rparr>) kernel11)
     = Inr (0, 4) \<and>
   map_sum id (\<lambda>(r, bs, _). (r, bs)) (aesd_read False 9 file0 9 4 kernel11) = Inr (2, line ''c'') \<and>
   spec_seekto 0 3 (lines kernel11) = None \<and>
   map_sum id (\<lambda>(r, f). (r, f_pos f))
     (aesd_unlocked_ioctl file0 AESDCHAR_IOCSEEKTO (Some \<lparr>write_cmd = 0, write_cmd_offset = 3\<rparr>) kernel11)
     = Inr (0, 3)"
  by (simp only: kernel11_seek kernel11_read, simp add: kernel11_lines(2) spec_seekto_def line_def)

text \<open>The other branches of the \<open>ioctl\<close>: an unknown command gives \<open>-ENOTTY\<close>; an argument
  that cannot be read gives \<open>EFAULT\<close>, which is positive, so that the caller takes it for a
  success; neither moves the file.\<close>

theorem ioctl_errors:
  "(cmd \<noteq> AESDCHAR_IOCSEEKTO \<longrightarrow> aesd_unlocked_ioctl filp cmd arg k = Inr (- ENOTTY, filp)) \<and>
   aesd_unlocked_ioctl filp AESDCHAR_IOCSEEKTO None k = Inr (EFAULT, filp) \<and> 0 < EFAULT \<and>
   AESDCHAR_IOCSEEKTO = 0xC0081601"
  by (simp add: aesd_unlocked_ioctl_def) (simp add: AESDCHAR_IOCSEEKTO_def)

theorem ioctl_errors_witness:
  "aesd_unlocked_ioctl file0 7 None kernel0 = Inr (- 25, file0)"
proof -
  have "7 \<noteq> AESDCHAR_IOCSEEKTO" by (simp add: AESDCHAR_IOCSEEKTO_def)
  then show ?thesis using ioctl_errors [of 7 file0 None kernel0] by simp
qed

section \<open>Start and end of the module, open and release\<close>

text \<open>The module is stopped and leaves nothing behind.\<close>

definition stops_clean :: "kernel \<Rightarrow> bool" where
  "stops_clean k \<longleftrightarrow>
     (case aesd_cleanup_module k of
        Inl e \<Rightarrow> False
      | Inr k' \<Rightarrow> live (heap k') = {} \<and> \<not> chrdev_region k' \<and> \<not> cdev_added k' \<and>
          incomplete_command_buffer (aesd_device k') = NULL \<and>
          (\<forall>e \<in> set (entry (circular_buffer (aesd_device k'))). buffptr e = NULL))"

lemma stops_clean_inv: "dev_inv k \<Longrightarrow> stops_clean k"
  using cleanup_main [of k] by (auto simp: stops_clean_def)

text \<open>C20. A module that starts is empty and sound, and registers its device; a step that fails
  leaves nothing registered and returns the error. After any reads and admissible writes,
  stopping it frees every block it has, clears the pointers to them and undoes the
  registration. That is so too when the last write has failed with \<open>-EFAULT\<close>, but only if no
  incomplete command was waiting: otherwise stopping the module frees its block again.\<close>

theorem module_start_and_stop:
  assumes "live (heap k) = {}" and "0 \<le> alloc_rc"
    and "reachable env (snd (aesd_init_module alloc_rc major cdev_rc k)) written k'"
  shows "fst (aesd_init_module alloc_rc major cdev_rc k) = cdev_rc \<and>
    chrdev_region (snd (aesd_init_module alloc_rc major cdev_rc k)) = (cdev_rc = 0) \<and>
    cdev_added (snd (aesd_init_module alloc_rc major cdev_rc k)) = (cdev_rc = 0) \<and>
    (\<forall>err<0. aesd_init_module err major cdev_rc k = (err, k\<lparr>aesd_major := 0, chrdev_region := False\<rparr>)) \<and>
    stops_clean k' \<and>
    (\<forall>ubuf filp count. private_data filp = Dev_aesd \<longrightarrow> kmalloc_ok env (length (heap k')) \<longrightarrow>
       length ubuf < unat count \<longrightarrow> length (pending k') + unat count < 2 ^ 64 \<longrightarrow>
       (\<exists>k''. aesd_write env False ubuf filp count k' = Inr (- EFAULT, k'') \<and>
          (if pending k' = [] then stops_clean k'' else aesd_cleanup_module k'' = Inl Double_Free)))"
proof -
  have inv: "dev_inv k'"
    using history_reachable [OF assms(3) history_init [OF assms(1,2)]] by (simp add: history_inv_def)
  have "\<exists>k''. aesd_write env False ubuf filp count k' = Inr (- EFAULT, k'') \<and>
      (if pending k' = [] then stops_clean k'' else aesd_cleanup_module k'' = Inl Double_Free)"
    if "private_data filp = Dev_aesd" "kmalloc_ok env (length (heap k'))" "length ubuf < unat count"
      "length (pending k') + unat count < 2 ^ 64" for ubuf filp count
    using write_efault_pending [OF inv that(1-3) _ that(4)] write_efault_fresh [OF inv that(1-3)] stops_clean_inv
    by (cases "pending k' = []") auto
  moreover have "fst (aesd_init_module alloc_rc major cdev_rc k) = cdev_rc"
    using assms(2) by (simp add: aesd_init_module_def aesd_setup_cdev_def Let_def)
  moreover have "\<forall>err<0. aesd_init_module err major cdev_rc k = (err, k\<lparr>aesd_major := 0, chrdev_region := False\<rparr>)"
    by (simp add: aesd_init_module_def)
  ultimately show ?thesis using stops_clean_inv [OF inv] by (simp add: init_device [OF assms(2)])
qed

text \<open>\<open>kernel2\<close> has an incomplete command, \<open>kernel0\<close> has none.\<close>

theorem module_start_and_stop_witness:
  "stops_clean kernel0 \<and> stops_clean kernel2 \<and>
   (\<exists>k'. aesd_write env0 False ''x'' file0 2 kernel0 = Inr (- EFAULT, k') \<and> stops_clean k') \<and>
   (\<exists>k'. aesd_write env0 False ''x'' file0 2 kernel2 = Inr (- EFAULT, k') \<and>
      aesd_cleanup_module k' = Inl Double_Free)"
proof -
  have live: "live (heap kernel_boot) = {}" by (simp add: kernel_boot_def live_def dom_def)
  have k0: "reachable env0 (snd (aesd_init_module 0 42 0 kernel_boot)) [] kernel0"
    using start [of env0 kernel0] by (simp add: kernel0_def)
  have k2: "reachable env0 (snd (aesd_init_module 0 42 0 kernel_boot)) (line ''ab'' @ ''cd'') kernel2"
    using kernel2_reachable by (simp add: kernel0_def)
  show ?thesis
    using module_start_and_stop [OF live _ k0] module_start_and_stop [OF live _ k2]
    by (simp add: kernel0_inv kernel2_inv)
qed

text \<open>\<open>aesd_open\<close> attaches the device and starts at position 0; after \<open>aesd_release\<close> the file
  has no device, and a read of at least one byte or a write through it would be a null
  dereference.\<close>

theorem open_and_release:
  "fst (aesd_open filp) = 0 \<and> private_data (snd (aesd_open filp)) = Dev_aesd \<and>
   f_pos (snd (aesd_open filp)) = 0 \<and> fst (aesd_release filp) = 0 \<and>
   aesd_write env intr ubuf (snd (aesd_release filp)) count k = Inl Null_Deref \<and>
   aesd_read intr room (snd (aesd_release filp)) count pos k
     = (if count = 0 then Inr (0, [], pos, k) else Inl Null_Deref)"
  by (simp add: aesd_open_def aesd_release_def aesd_write_closed aesd_read_def deref_dev_def)

end
