(* ===== verification/Device_Races.thy ===== *)
theory Device_Races
  imports Device_Theorems
begin

text \<open>
  \<open>aesd_llseek\<close> and \<open>aesd_adjust_file_offset\<close> read the circular buffer of the device without taking
  its mutex, so a write of another process can run between any two of their reads. Here the same
  functions read slot after slot, each from the kernel as it is at that moment: \<open>ks i\<close> is the
  state the \<open>i\<close>-th read finds. What they return while a write runs, and what can go wrong.
\<close>

section \<open>The functions, read by read\<close>

definition buffer_at :: "(nat \<Rightarrow> kernel) \<Rightarrow> nat \<Rightarrow> aesd_circular_buffer" where
  "buffer_at ks i = circular_buffer (aesd_device (ks i))"

definition aesd_size_racing :: "(nat \<Rightarrow> kernel) \<Rightarrow> u64 res" where
  "aesd_size_racing ks =
     map_sum id snd
       (cb_foreach (\<lambda>(i, _). buffer_at ks i) 0
          (\<lambda>_ temp (i, bytes). Inr (Inr (Suc i, bytes + entry_size temp))) (0, 0))"

definition aesd_llseek_racing ::
  "llseek_fn \<Rightarrow> struct_file \<Rightarrow> u64 \<Rightarrow> int \<Rightarrow> (nat \<Rightarrow> kernel) \<Rightarrow> (u64 \<times> struct_file) res" where
  "aesd_llseek_racing fsl filp off whence ks =
     bind_res (aesd_size_racing ks) (\<lambda>cb_size.
     bind_res (lock_f_pos filp) (\<lambda>filp.
     let (r, filp) = fsl filp off whence cb_size;
         retval = (ucast r :: u32) in
     Inr (scast retval, unlock_f_pos filp)))"

text \<open>
  The \<open>ioctl\<close> reads the size of the slot it was given. To print the error it then loads the
  pointer of the slot and, last, the bytes the pointer leads to; otherwise it reads the slots
  in turn.
\<close>

definition aesd_adjust_racing ::
  "struct_file \<Rightarrow> u32 \<Rightarrow> u32 \<Rightarrow> (nat \<Rightarrow> kernel) \<Rightarrow> (int \<times> struct_file) res" where
  "aesd_adjust_racing filp cmd offset ks =
     (if \<not> unat cmd < AESDCHAR_MAX_WRITE_OPERATIONS_SUPPORTED then Inr (- EINVAL, filp)
      else
        bind_res (deref_dev filp (ks 0)) (\<lambda>_.
        bind_res (entry_at (buffer_at ks 0) (unat cmd)) (\<lambda>selected_entry.
        if \<not> ucast offset < entry_size selected_entry then
          bind_res (entry_at (buffer_at ks 1) (unat cmd)) (\<lambda>selected_entry.
          bind_res (printk_string (buffptr selected_entry) (heap (ks 2))) (\<lambda>_. Inr (- EINVAL, filp)))
        else
          bind_res
            (cb_foreach (\<lambda>(i, _). buffer_at ks i) 0
               (\<lambda>index temp (i, calculated_offset).
                  if index < unat cmd then Inr (Inr (Suc i, calculated_offset + entry_size temp))
                  else if index = unat cmd then Inr (Inl (i, calculated_offset + ucast offset))
                  else Inr (Inr (Suc i, calculated_offset))) (1, 0))
            (\<lambda>(_, calculated_offset).
               bind_res (lock_f_pos filp) (\<lambda>filp.
                 Inr (0, unlock_f_pos (filp\<lparr>f_pos := calculated_offset\<rparr>)))))))"

section \<open>The sum of slots read at different times\<close>

lemma size_racing_sum:
  assumes "\<And>i. i < 10 \<Longrightarrow> length (entry (buffer_at ks i)) = 10"
  shows "aesd_size_racing ks = Inr (\<Sum>j<10. entry_size (entry (buffer_at ks j) ! j))"
proof -
  let ?P = "\<lambda>i (n, bytes). n = i \<and> bytes = (\<Sum>j<i. entry_size (entry (buffer_at ks j) ! j))"
  have "\<exists>s'. cb_foreach (\<lambda>(i, _). buffer_at ks i) 0
      (\<lambda>_ temp (i, bytes). Inr (Inr (Suc i, bytes + entry_size temp))) (0, 0 :: u64) = Inr s' \<and> ?P 10 s'"
    by (rule cb_foreach_rule [where P = ?P]) (auto simp: assms)
  then show ?thesis by (auto simp: aesd_size_racing_def)
qed

lemma dev_inv_slots: "dev_inv k \<Longrightarrow> length (entry (circular_buffer (aesd_device k))) = 10"
  by (auto simp: dev_inv_def dest: dev_okD(1) cb_wfD(1))

lemma size_racing_const:
  assumes "dev_inv k"
  shows "aesd_size_racing (\<lambda>_. k) = aesd_size cb k"
proof -
  let ?cb = "circular_buffer (aesd_device k)"
  have ok: "dev_ok (aesd_device k) (heap k)" using assms by (simp add: dev_inv_def)
  have "(\<Sum>j<10. entry_size (entry ?cb ! j)) = of_nat (\<Sum>j<10. unat (entry_size (entry ?cb ! j)))" by simp
  then show ?thesis
    using aesd_size_eq [OF ok, of cb] sum_slots [OF dev_okD(1) [OF ok]] dev_ok_sizes [OF ok]
    by (simp add: size_racing_sum buffer_at_def dev_inv_slots [OF assms] stream_def lines_def length_concat)
qed

lemma aesd_size_any: "aesd_size cb k = aesd_size cb' k"
  by (simp add: aesd_size_def)

text \<open>A write changes one slot at most; a scan that passes the slot before sees none of it.\<close>

lemma one_put_slot:
  assumes wf: "cb_wf cb" and put: "one_put cmds cb cb'"
  obtains j where "j < 10" and "length (entry cb') = 10" and "\<And>i. i \<noteq> j \<Longrightarrow> entry cb' ! i = entry cb ! i"
proof -
  have len: "length (entry cb) = 10" using wf by (rule cb_wfD)
  consider "cb' = cb" | e where "cb' = snd (cb_put e cb)" "full cb" | e where "cb' = snd (cb_put e cb)" "\<not> full cb"
    using put by (auto simp: one_put_def split: if_splits)
  then show ?thesis
  proof cases
    case 1
    then show ?thesis using that [of 0] len by simp
  next
    case 2
    then show ?thesis using that [of "unat (out_offs cb)"] len cb_wfD(3) [OF wf] cb_put_full [OF wf]
      by simp
  next
    case 3
    then show ?thesis using that [of "cb_count cb"] len not_full_offs(3) [OF wf] cb_put_not_full [OF wf]
      by simp
  qed
qed

section \<open>A write during a scan\<close>

lemma size_race:
  assumes inv: "dev_inv k" "dev_inv k'"
    and put: "one_put cmds (circular_buffer (aesd_device k)) (circular_buffer (aesd_device k'))"
  shows "aesd_size_racing (\<lambda>i. if i < t then k else k') \<in> {aesd_size cb k, aesd_size cb k'}"
proof -
  let ?cb = "circular_buffer (aesd_device k)" and ?cb' = "circular_buffer (aesd_device k')"
  have "cb_wf ?cb" using inv(1) by (auto simp: dev_inv_def dest: dev_okD(1))
  then obtain j where j: "\<And>i. i \<noteq> j \<Longrightarrow> entry ?cb' ! i = entry ?cb ! i"
    using one_put_slot [OF _ put] by blast
  have same: "(\<Sum>i<10. entry_size (entry (buffer_at (\<lambda>i. if i < t then k else k') i) ! i))
      = (\<Sum>i<10. entry_size (entry (if j < t then ?cb else ?cb') ! i))"
    by (intro sum.cong refl) (auto simp: buffer_at_def intro!: arg_cong [where f = entry_size] j j [symmetric])
  note len = dev_inv_slots [OF inv(1)] dev_inv_slots [OF inv(2)]
  have "aesd_size_racing (\<lambda>i. if i < t then k else k') = aesd_size_racing (\<lambda>_. if j < t then k else k')"
    by (subst (1 2) size_racing_sum) (auto simp: buffer_at_def len same [unfolded buffer_at_def] intro!: sum.cong)
  then show ?thesis using size_racing_const inv by simp
qed

text \<open>C22. A seek takes effect at one moment, although it does not take the mutex, as long as at most
  one command is added to the device while it runs: wherever in the scan of the ten slots
  the write falls, the seek returns what it would have returned before the write, or after.\<close>

theorem llseek_during_write:
  assumes "dev_inv k" and "write_pre env ubuf filp' count k"
    and "count_list (pending k @ take (unat count) ubuf) NL \<le> 1"
    and "aesd_write env False ubuf filp' count k = Inr (r, k')"
  shows "aesd_llseek_racing fsl filp off whence (\<lambda>i. if i < t then k else k')
    \<in> {aesd_llseek fsl filp off whence k, aesd_llseek fsl filp off whence k'}"
proof -
  have "dev_inv k'" "one_put (fst (split_cmds (pending k @ take (unat count) ubuf)))
      (circular_buffer (aesd_device k)) (circular_buffer (aesd_device k'))"
    using aesd_write_full [OF assms(1-3)] assms(4) by auto
  from size_race [OF assms(1) this, of t "circular_buffer (aesd_device k)"] show ?thesis
    unfolding aesd_llseek_racing_def aesd_llseek_def
    using aesd_size_any [of "circular_buffer (aesd_device k')" k' "circular_buffer (aesd_device k)"] by fastforce
qed

theorem llseek_during_write_witness:
  "aesd_llseek_racing fixed_size_llseek file0 0 2 (\<lambda>i. if i < 5 then kernel0 else kernel1)
    \<in> {Inr (0, file0\<lparr>f_pos := 0\<rparr>), Inr (3, file0\<lparr>f_pos := 3\<rparr>)}"
proof -
  have doc: "llseek_documented fixed_size_llseek"
    by (simp add: llseek_documented_def fixed_size_llseek_def)
  have wr: "aesd_write env0 False (line ''ab'') file0 3 kernel0 = Inr (3, kernel1)"
    using put_bytes_eq(1) [OF kernel0_inv(1), of "line ''ab''"]
    by (simp add: kernel0_inv kernel1_def line_def)
  have "write_pre env0 (line ''ab'') file0 3 kernel0" by (simp add: write_pre_def kernel0_inv line_def)
  from llseek_during_write [OF kernel0_inv(1) this _ wr, of fixed_size_llseek file0 0 2 5]
  show ?thesis
    using llseek_eq [OF kernel0_inv(1) doc, of file0 0 2] llseek_eq [OF kernel1_inv(1) doc, of file0 0 2]
    by (simp add: kernel0_inv kernel1_inv line_def seek_target_def)
qed

section \<open>Two writes during a scan\<close>

lemma slot_size:
  assumes inv: "dev_inv k" and room: "length (lines k) < 10" and j: "j < 10"
  shows "entry_size (entry (circular_buffer (aesd_device k)) ! j) =
    of_nat (if j < length (lines k) then length (lines k ! j) else 0)"
proof -
  let ?cb = "circular_buffer (aesd_device k)"
  have ok: "dev_ok (aesd_device k) (heap k)" using inv by (simp add: dev_inv_def)
  note wf = dev_okD(1) [OF ok]
  have n: "length (lines k) = cb_count ?cb" by (simp add: lines_def length_dev_lines)
  then have "\<not> full ?cb" using room by (simp add: full_iff_count)
  then have out: "out_offs ?cb = 0" using not_full_offs(1) [OF wf] by simp
  show ?thesis
  proof (cases "j < cb_count ?cb")
    case True
    have "unat (entry_size (cb_list ?cb ! j)) = entry_sizes ?cb ! j" using True by (simp add: entry_sizes_def)
    also have "\<dots> = length (lines k ! j)" using True n by (simp add: dev_ok_sizes [OF ok] lines_def)
    finally have "of_nat (unat (entry_size (entry ?cb ! j))) = (of_nat (length (lines k ! j)) :: u64)"
      using slots_in_order [OF wf True] out by simp
    then show ?thesis using True n by (simp add: of_nat_unat)
  next
    case False
    then show ?thesis using slot_unused [OF wf j] n by (simp add: zero_entry_def)
  qed
qed

lemma sum_lines: "length ls \<le> 10 \<Longrightarrow> (\<Sum>j<10. if j < length ls then length (ls ! j) else 0) = length (concat ls)"
  for ls :: "bytes list"
proof -
  assume "length ls \<le> 10"
  then have "(\<Sum>j<10. if j < length ls then length (ls ! j) else 0) = (\<Sum>j<length ls. length (ls ! j))"
    by (intro sum.mono_neutral_cong_right) auto
  then show ?thesis by (simp add: length_concat sum_list_sum_nth atLeast0LessThan)
qed

text \<open>With two writes the seek can use a size the device never had: the scan reads the next
  two free slots, and finds the first still empty and the second filled. It misses the first
  of the two commands and counts the second.\<close>

theorem size_never_was:
  assumes "dev_inv k" and "length (lines k) < 8"
    and "dev_inv k2" and "lines k2 = lines k @ [a, b]"
  shows "aesd_size_racing (\<lambda>i. if i \<le> length (lines k) then k else k2)
    = Inr (of_nat (length (stream k) + length b))"
proof -
  let ?n = "length (lines k)" and ?ks = "\<lambda>i. if i \<le> length (lines k) then k else k2"
  have slot: "entry_size (entry (buffer_at ?ks j) ! j) =
      of_nat ((if j < ?n then length (lines k ! j) else 0) + (if j = Suc ?n then length b else 0))"
    if "j < 10" for j
    using that assms(2,4) slot_size [OF assms(1), of j] slot_size [OF assms(3), of j]
    by (auto simp: buffer_at_def nth_append)
  have "(\<Sum>j<10. entry_size (entry (buffer_at ?ks j) ! j)) = of_nat (length (concat (lines k)) + length b)"
    using assms(2) sum_lines [of "lines k"]
    by (simp add: slot sum.distrib del: of_nat_add flip: of_nat_sum)
  then show ?thesis
    using assms(1,3) by (subst size_racing_sum) (auto simp: buffer_at_def dev_inv_slots stream_def)
qed

text \<open>Commands of 3 and 5 bytes on an empty device: the device holds 0, 3 or 8 bytes, never 5.\<close>

theorem size_never_was_witness:
  "aesd_size_racing (\<lambda>i. if i = 0 then kernel0 else put_bytes (line ''cdef'') kernel1) = Inr 5 \<and>
   aesd_size aesd_circular_buffer_init kernel0 = Inr 0 \<and> aesd_size aesd_circular_buffer_init kernel1 = Inr 3 \<and>
   aesd_size aesd_circular_buffer_init (put_bytes (line ''cdef'') kernel1) = Inr 8"
proof -
  let ?k2 = "put_bytes (line ''cdef'') kernel1"
  have k2: "dev_inv ?k2" "lines ?k2 = lines kernel0 @ [line ''ab'', line ''cdef'']"
    using put_bytes_eq(2,3) [OF kernel1_inv(1), of "line ''cdef''"]
    by (simp_all add: kernel1_inv kernel0_inv line_def spec_write_def push_line_def)
  have size: "aesd_size aesd_circular_buffer_init k = Inr (of_nat (length (stream k)))" if "dev_inv k" for k
    using that by (intro aesd_size_eq) (simp add: dev_inv_def)
  show ?thesis
    using size_never_was [OF kernel0_inv(1) _ k2] size [OF k2(1)] size [OF kernel0_inv(1)] size [OF kernel1_inv(1)] k2(2)
    by (simp add: kernel0_inv kernel1_inv stream_def line_def)
qed

section \<open>A write during the seek by command\<close>

lemma foreach_counted:
  assumes "\<And>index temp i acc. body' index temp (i, acc) =
      map_sum id (map_sum (Pair i) (Pair (Suc i))) (body index temp acc)"
  shows "map_sum id snd (cb_foreach (\<lambda>(i, _). cb) index body' (i, acc)) = cb_foreach (\<lambda>_. cb) index body acc"
proof (induction "10 - index" arbitrary: index i acc)
  case 0
  then show ?case by (subst (1 2) cb_foreach.simps) simp
next
  case (Suc n)
  then have "index < 10" "n = 10 - Suc index" by auto
  then show ?case
    using Suc.hyps(1) [of "Suc index"]
    by (subst (1 2) cb_foreach.simps) (auto simp: assms bind_res_def split: sum.split)
qed

lemma adjust_racing_const: "aesd_adjust_racing filp cmd off (\<lambda>_. k) = aesd_adjust_file_offset filp cmd off k"
proof -
  let ?cb = "circular_buffer (aesd_device k)" and ?o = "ucast off :: u64"
  have "map_sum id snd (cb_foreach (\<lambda>(i, _). ?cb) 0
      (\<lambda>index temp (i, pos). if index < unat cmd then Inr (Inr (Suc i, pos + entry_size temp))
         else if index = unat cmd then Inr (Inl (i, pos + ?o)) else Inr (Inr (Suc i, pos))) (1, 0))
    = cb_foreach (\<lambda>_. ?cb) 0 (\<lambda>index temp pos. if index < unat cmd then Inr (Inr (pos + entry_size temp))
         else if index = unat cmd then Inr (Inl (pos + ?o)) else Inr (Inr pos)) 0" (is "map_sum id snd ?l = ?r")
    by (rule foreach_counted) auto
  moreover have "bind_res ?l (\<lambda>(_, pos). f pos) = bind_res (map_sum id snd ?l) f" for f :: "u64 \<Rightarrow> (int \<times> struct_file) res"
    by (cases ?l) auto
  ultimately show ?thesis
    by (auto simp: aesd_adjust_racing_def aesd_adjust_file_offset_def buffer_at_def deref_dev_def bind_res_def
        split: dev_ptr.split sum.split)
qed

text \<open>Ten commands that can be printed, as each contains a 0 byte.\<close>

definition kernel_full :: kernel where
  "kernel_full = fold (\<lambda>_. put_bytes (line [NUL])) [0..<10::nat] kernel0"

text \<open>The seek by command is not safe beside a write. On a full device, a seek to an offset
  that command 0 does not have loads the pointer to the command for its error message; if a
  write then pushes that command out, its block is freed before the message is printed, and
  the kernel reads freed memory. Without the write the same call returns \<open>-EINVAL\<close>.\<close>

theorem ioctl_races_write:
  "aesd_adjust_racing file0 0 5 (\<lambda>i. if i < 2 then kernel_full else put_bytes (line ''x'') kernel_full)
     = Inl Use_After_Free \<and>
   aesd_adjust_file_offset file0 0 5 kernel_full = Inr (- EINVAL, file0)"
proof -
  have "aesd_adjust_racing file0 0 5
      (\<lambda>i. if i < 2 then kernel_full else put_bytes (line ''x'') kernel_full) = Inl Use_After_Free"
    by code_simp
  moreover have "aesd_adjust_racing file0 0 5 (\<lambda>_. kernel_full) = Inr (- EINVAL, file0)" by code_simp
  ultimately show ?thesis unfolding adjust_racing_const by blast
qed

end
