(* ===== verification/Thread_Manager.thy ===== *)
theory Thread_Manager
  imports C_Memory
begin

text \<open>
  The thread manager of \<open>server/aesdsocket.c\<close>: the singly linked list of client threads
  (\<open>thread_entry_t\<close>, \<open>thread_manager\<close>, \<open>manager_mutex\<close>) and its operations, at the level of
  pointers, so that the order of a removal, a free and a further step through the list is
  visible.
\<close>

section \<open>Data\<close>

text \<open>
  \<open>entries\<close> is the \<open>SLIST_ENTRY\<close>, the pointer to the next entry. \<open>thread_entry_create\<close> does not
  set it; \<open>SLIST_INSERT_HEAD\<close> does, before anything reads it.
\<close>

record thread_entry_t =
  thread_id :: nat
  client_ip :: ptr
  client_fd :: int
  is_complete :: bool
  entries :: ptr
  tmpdata_fd :: int

text \<open>
  The entries live in a store of their own: number \<open>b\<close> is the outcome of the \<open>b\<close>-th \<open>malloc\<close> of an
  entry, \<open>None\<close> if it failed or the entry has been freed. The strings of the addresses live in
  the byte heap.
\<close>

type_synonym store = "nat \<Rightarrow> thread_entry_t option"

record manager =
  entry_count :: nat
  entry_store :: store
  strings :: heap
  thread_manager :: ptr
  manager_mutex :: bool

fun get_entry :: "manager \<Rightarrow> ptr \<Rightarrow> thread_entry_t res" where
  "get_entry m (Blk b) =
     (case entry_store m b of None \<Rightarrow> Inl Use_After_Free | Some e \<Rightarrow> Inr e)"
| "get_entry m _ = Inl Null_Deref"

fun set_entry_at :: "ptr \<Rightarrow> thread_entry_t \<Rightarrow> manager \<Rightarrow> manager res" where
  "set_entry_at (Blk b) e m =
     (if entry_store m b = None then Inl Use_After_Free
      else Inr (m\<lparr>entry_store := (entry_store m)(b \<mapsto> e)\<rparr>))"
| "set_entry_at _ e m = Inl Null_Deref"

fun free_entry :: "ptr \<Rightarrow> manager \<Rightarrow> manager res" where
  "free_entry (Blk b) m =
     (if entry_store m b = None then Inl Double_Free
      else Inr (m\<lparr>entry_store := (entry_store m)(b := None)\<rparr>))"
| "free_entry _ m = Inr m"

text \<open>
  What a thread does between locking \<open>manager_mutex\<close> and unlocking it is one step of the model, as no
  other thread can see it half done, and a thread that finds the mutex taken makes its step
  later. So a mutex that is held when a step begins is held by the thread that makes the step:
  in a signal handler that has interrupted its own thread there. It waits for ever.
\<close>

definition lock_manager :: "manager \<Rightarrow> manager res" where
  "lock_manager m = (if manager_mutex m then Inl Deadlock else Inr (m\<lparr>manager_mutex := True\<rparr>))"

definition unlock_manager :: "manager \<Rightarrow> manager" where
  "unlock_manager m = m\<lparr>manager_mutex := False\<rparr>"

definition initialize_manager :: "manager \<Rightarrow> manager" where
  "initialize_manager m = m\<lparr>thread_manager := NULL\<rparr>"

section \<open>Operations\<close>

text \<open>
  \<open>ok\<close> says whether the \<open>n\<close>-th \<open>malloc\<close> of an entry succeeds; \<open>env\<close> is the allocator behind
  \<open>strdup\<close>. The block is closed with a 0 byte.
\<close>

definition thread_entry_create ::
  "(nat \<Rightarrow> bool) \<Rightarrow> kenv \<Rightarrow> nat \<Rightarrow> bytes \<Rightarrow> int \<Rightarrow> int \<Rightarrow> manager \<Rightarrow> (ptr \<times> manager) res" where
  "thread_entry_create ok env new_thread_id new_client_ip new_client_fd new_tmpdata_fd m =
     (let b = entry_count m; m = m\<lparr>entry_count := b + 1\<rparr> in
      if \<not> ok b then Inr (NULL, m)
      else
        let e = \<lparr>thread_id = new_thread_id, client_ip = NULL, client_fd = 0, is_complete = False,
                 entries = NULL, tmpdata_fd = 0\<rparr>;
            m = m\<lparr>entry_store := (entry_store m)(b \<mapsto> e)\<rparr>;
            (s, h) = kmalloc env (length new_client_ip + 1) (strings m) in
        if s = NULL then bind_res (free_entry (Blk b) (m\<lparr>strings := h\<rparr>)) (\<lambda>m. Inr (NULL, m))
        else
          bind_res (store s 0 (new_client_ip @ [NUL]) h) (\<lambda>h.
          bind_res (set_entry_at (Blk b)
                      (e\<lparr>client_ip := s, client_fd := new_client_fd, is_complete := False,
                         tmpdata_fd := new_tmpdata_fd\<rparr>) (m\<lparr>strings := h\<rparr>)) (\<lambda>m.
          Inr (Blk b, m))))"

definition thread_entry_free :: "ptr \<Rightarrow> manager \<Rightarrow> (int \<times> manager) res" where
  "thread_entry_free entry m =
     (if entry = NULL then Inr (- 1, m)
      else
        bind_res (get_entry m entry) (\<lambda>e.
        bind_res (if client_ip e \<noteq> NULL then kfree (client_ip e) (strings m) else Inr (strings m)) (\<lambda>h.
        bind_res (free_entry entry (m\<lparr>strings := h\<rparr>)) (\<lambda>m. Inr (0, m)))))"

text \<open>\<open>SLIST_INSERT_HEAD\<close>: the entry points to the old head, the head to the entry.\<close>

definition SLIST_INSERT_HEAD :: "ptr \<Rightarrow> manager \<Rightarrow> manager res" where
  "SLIST_INSERT_HEAD elm m =
     bind_res (get_entry m elm) (\<lambda>e.
     bind_res (set_entry_at elm (e\<lparr>entries := thread_manager m\<rparr>) m) (\<lambda>m.
     Inr (m\<lparr>thread_manager := elm\<rparr>)))"

definition thread_entry_add :: "ptr \<Rightarrow> manager \<Rightarrow> (int \<times> manager) res" where
  "thread_entry_add entry m =
     (if entry = NULL then Inr (- 1, m)
      else
        bind_res (lock_manager m) (\<lambda>m.
        bind_res (SLIST_INSERT_HEAD entry m) (\<lambda>m. Inr (0, unlock_manager m))))"

text \<open>
  \<open>SLIST_REMOVE\<close>: at the head the head moves on; elsewhere the predecessor is looked for from the
  head, one \<open>entries\<close> pointer after the other, until it points to the element. A list with a
  cycle would keep it going for ever, which is \<open>None\<close>.
\<close>

partial_function (option) find_prev :: "manager \<Rightarrow> ptr \<Rightarrow> ptr \<Rightarrow> ptr res option" where
  "find_prev m elm cur =
     (case get_entry m cur of
        Inl e \<Rightarrow> Some (Inl e)
      | Inr c \<Rightarrow> if entries c = elm then Some (Inr cur) else find_prev m elm (entries c))"

definition SLIST_REMOVE :: "ptr \<Rightarrow> manager \<Rightarrow> manager res" where
  "SLIST_REMOVE elm m =
     (if thread_manager m = elm then
        bind_res (get_entry m elm) (\<lambda>e. Inr (m\<lparr>thread_manager := entries e\<rparr>))
      else
        (case find_prev m elm (thread_manager m) of
           None \<Rightarrow> Inl Nonterminating
         | Some r \<Rightarrow>
             bind_res r (\<lambda>prev.
             bind_res (get_entry m prev) (\<lambda>p.
             bind_res (get_entry m elm) (\<lambda>e.
               set_entry_at prev (p\<lparr>entries := entries e\<rparr>) m)))))"

text \<open>The loop \<open>SLIST_FOREACH\<close> until an entry has the id: that entry, or \<open>NULL\<close> at the end.\<close>

partial_function (option) find_thread :: "manager \<Rightarrow> nat \<Rightarrow> ptr \<Rightarrow> ptr res option" where
  "find_thread m tid cur =
     (if cur = NULL then Some (Inr NULL)
      else
        case get_entry m cur of
          Inl e \<Rightarrow> Some (Inl e)
        | Inr c \<Rightarrow> if thread_id c = tid then Some (Inr cur) else find_thread m tid (entries c))"

declare find_prev.simps [code] find_thread.simps [code]

definition ended :: "'a res option \<Rightarrow> 'a res" where
  "ended r = (case r of None \<Rightarrow> Inl Nonterminating | Some r \<Rightarrow> r)"

definition thread_entry_remove :: "nat \<Rightarrow> manager \<Rightarrow> (int \<times> manager) res" where
  "thread_entry_remove tid m =
     bind_res (lock_manager m) (\<lambda>m.
     bind_res (ended (find_thread m tid (thread_manager m))) (\<lambda>current_entry.
     if current_entry = NULL then Inr (- 1, unlock_manager m)
     else
       bind_res (SLIST_REMOVE current_entry m) (\<lambda>m.
       bind_res (thread_entry_free current_entry m) (\<lambda>(_, m).
       Inr (0, unlock_manager m)))))"

definition thread_entry_markcomplete :: "nat \<Rightarrow> manager \<Rightarrow> (int \<times> manager) res" where
  "thread_entry_markcomplete tid m =
     bind_res (lock_manager m) (\<lambda>m.
     bind_res (ended (find_thread m tid (thread_manager m))) (\<lambda>current_entry.
     if current_entry = NULL then Inr (- 1, unlock_manager m)
     else
       bind_res (get_entry m current_entry) (\<lambda>e.
       bind_res (set_entry_at current_entry (e\<lparr>is_complete := True\<rparr>) m) (\<lambda>m.
       Inr (0, unlock_manager m)))))"

text \<open>
  \<open>pthread_join\<close> waits for the thread to end; \<open>ends\<close> says which threads do. The ids that are
  joined are collected, in order.
\<close>

partial_function (option) thread_entry_freeall ::
  "(nat \<Rightarrow> bool) \<Rightarrow> manager \<Rightarrow> nat list \<Rightarrow> (nat list \<times> manager) res option" where
  "thread_entry_freeall ends m joined =
     (if thread_manager m = NULL then Some (Inr (joined, m))
      else
        case get_entry m (thread_manager m) of
          Inl e \<Rightarrow> Some (Inl e)
        | Inr current_entry \<Rightarrow>
            if \<not> ends (thread_id current_entry) then Some (Inl Deadlock)
            else
              (case thread_entry_remove (thread_id current_entry) m of
                 Inl e \<Rightarrow> Some (Inl e)
               | Inr (_, m') \<Rightarrow> thread_entry_freeall ends m' (joined @ [thread_id current_entry])))"

text \<open>The lines \<open>thread_entry_print\<close> logs: id, address text, descriptors and completion.\<close>

type_synonym thread_line = "nat \<times> bytes \<times> int \<times> int \<times> bool"

text \<open>The 0 byte that ends the text has to be inside the block.\<close>

definition c_text :: "ptr \<Rightarrow> heap \<Rightarrow> bytes res" where
  "c_text p h =
     (case p of
        Blk b \<Rightarrow>
          (case blk h b of
             None \<Rightarrow> Inl Use_After_Free
           | Some bs \<Rightarrow>
               if NUL \<in> set bs then Inr (takeWhile (\<lambda>c. c \<noteq> NUL) bs) else Inl Out_Of_Bounds)
      | _ \<Rightarrow> Inl Null_Deref)"

definition thread_entry_print :: "ptr \<Rightarrow> manager \<Rightarrow> thread_line res" where
  "thread_entry_print entry m =
     bind_res (get_entry m entry) (\<lambda>e.
     bind_res (c_text (client_ip e) (strings m)) (\<lambda>ip.
     Inr (thread_id e, ip, client_fd e, tmpdata_fd e, is_complete e)))"

partial_function (option) print_from :: "manager \<Rightarrow> ptr \<Rightarrow> thread_line list \<Rightarrow> thread_line list res option" where
  "print_from m cur out =
     (if cur = NULL then Some (Inr out)
      else
        case thread_entry_print cur m of
          Inl e \<Rightarrow> Some (Inl e)
        | Inr l \<Rightarrow>
            (case get_entry m cur of
               Inl e \<Rightarrow> Some (Inl e)
             | Inr c \<Rightarrow> print_from m (entries c) (out @ [l])))"

definition thread_entry_printall :: "manager \<Rightarrow> (thread_line list \<times> manager) res" where
  "thread_entry_printall m =
     bind_res (lock_manager m) (\<lambda>m.
     bind_res (ended (print_from m (thread_manager m) [])) (\<lambda>out.
     Inr (out, unlock_manager m)))"

declare thread_entry_freeall.simps [code] print_from.simps [code]

end
