(* ===== verification/Client_Handler.thy ===== *)
theory Client_Handler
  imports Char_Device Thread_Manager
begin

text \<open>
  \<open>client_handler\<close> of \<open>server/aesdsocket.c\<close>. The build switch \<open>USE_AESD_CHAR_DEVICE\<close> and the system calls on the data file are arguments, because the file is the char device in
  this build and a plain file in the other; what the handler relies on about them is stated as
  a contract where the proofs are. Definitions only.
\<close>

section \<open>C library routines the handler uses\<close>

abbreviation (input) BUFFER_SIZE :: nat where
  "BUFFER_SIZE \<equiv> 1048576"

definition AESD_IOCTL_SEEKTO :: bytes where
  "AESD_IOCTL_SEEKTO = ''AESDCHAR_IOCSEEKTO:''"

text \<open>
  A buffer of \<open>BUFFER_SIZE\<close> bytes that starts with \<open>bs\<close> and is 0 behind it, read as a C string:
  up to the first 0 byte. A buffer without one is not a string.
\<close>

definition c_string :: "bytes \<Rightarrow> bytes res" where
  "c_string bs =
     (if length bs < BUFFER_SIZE \<or> NUL \<in> set bs then Inr (takeWhile (\<lambda>c. c \<noteq> NUL) bs)
      else Inl Out_Of_Bounds)"

fun strip_prefix :: "bytes \<Rightarrow> bytes \<Rightarrow> bytes option" where
  "strip_prefix [] s = Some s"
| "strip_prefix (c # cs) [] = None"
| "strip_prefix (c # cs) (d # ds) = (if c = d then strip_prefix cs ds else None)"

fun strstr :: "bytes \<Rightarrow> bytes \<Rightarrow> bytes option" where
  "strstr [] needle = (if needle = [] then Some [] else None)"
| "strstr (c # cs) needle =
     (if strip_prefix needle (c # cs) \<noteq> None then Some (c # cs) else strstr cs needle)"

text \<open>
  The conversion \<open>%ld\<close>: white space is skipped, then a sign and at least one digit. A value
  outside the range of \<open>long\<close> becomes its nearest bound.
\<close>

definition is_space :: "char \<Rightarrow> bool" where
  "is_space c \<longleftrightarrow> c = CHR '' '' \<or> (9 \<le> (of_char c :: nat) \<and> (of_char c :: nat) \<le> 13)"

definition is_digit :: "char \<Rightarrow> bool" where
  "is_digit c \<longleftrightarrow> 48 \<le> (of_char c :: nat) \<and> (of_char c :: nat) \<le> 57"

definition digits_value :: "bytes \<Rightarrow> int" where
  "digits_value ds = foldl (\<lambda>n c. 10 * n + (of_char c - 48)) 0 ds"

definition scan_sign :: "bytes \<Rightarrow> bool \<times> bytes" where
  "scan_sign s =
     (case s of [] \<Rightarrow> (False, [])
      | c # r \<Rightarrow> if c = CHR ''-'' then (True, r) else if c = CHR ''+'' then (False, r) else (False, s))"

definition scan_long :: "bytes \<Rightarrow> (int \<times> bytes) option" where
  "scan_long s =
     (let (neg, s1) = scan_sign (dropWhile is_space s);
          ds = takeWhile is_digit s1; v = digits_value ds in
      if ds = [] then None
      else Some (max (- (2 ^ 63)) (min (2 ^ 63 - 1) (if neg then - v else v)), dropWhile is_digit s1))"

text \<open>
  \<open>sscanf(s, AESD_IOCTL_SEEKTO "%ld,%ld", &index, &offset)\<close>: which of the two variables have been
  assigned, and with what.
\<close>

definition sscanf_seekto :: "bytes \<Rightarrow> int option \<times> int option" where
  "sscanf_seekto s =
     (case strip_prefix AESD_IOCTL_SEEKTO s of
        None \<Rightarrow> (None, None)
      | Some r \<Rightarrow>
          (case scan_long r of
             None \<Rightarrow> (None, None)
           | Some (index, r) \<Rightarrow>
               (case strip_prefix '','' r of
                  None \<Rightarrow> (Some index, None)
                | Some r \<Rightarrow>
                    (case scan_long r of
                       None \<Rightarrow> (Some index, None)
                     | Some (offset, _) \<Rightarrow> (Some index, Some offset)))))"

section \<open>State\<close>

text \<open>
  The build switch, and the system calls on the data file as functions of the state \<open>'s\<close> behind it. \<open>sys_read\<close> takes
  the count and returns the bytes it put into the buffer.

  \<open>sys_send\<close> is the connection's answer to \<open>send\<close>, given what it has been sent so far: how many of
  the bytes it takes, or \<open>None\<close> if it knows that the peer is gone, in which case the kernel raises
  \<open>SIGPIPE\<close>; the server leaves that signal at its default, the end of the process. A peer that
  has only closed its end still has bytes taken, until its reset arrives.
\<close>

record 's file_ops =
  USE_AESD_CHAR_DEVICE :: bool
  sys_write :: "bytes \<Rightarrow> 's \<Rightarrow> (int \<times> 's) res"
  sys_read :: "nat \<Rightarrow> 's \<Rightarrow> (int \<times> bytes \<times> 's) res"
  sys_ioctl :: "aesd_seekto \<Rightarrow> 's \<Rightarrow> (int \<times> 's) res"
  sys_send :: "bytes \<Rightarrow> bytes \<Rightarrow> nat option"

text \<open>
  One client. \<open>write_buffer\<close> holds the \<open>write_buffer_index\<close> bytes stored so far (the code clears
  the rest), \<open>read_buffer\<close> the bytes received so far, newest at the front of the array, up to
  where none has ever been. \<open>file_mutex\<close> says whether the mutex of the data file is held, \<open>sent\<close>
  collects what the client was sent.
\<close>

record 's session =
  write_buffer :: bytes
  read_buffer :: bytes
  file_mutex :: bool
  tmpdata :: 's
  sent :: bytes

definition new_session :: "bool \<Rightarrow> 's \<Rightarrow> 's session" where
  "new_session held s = \<lparr>write_buffer = [], read_buffer = [], file_mutex = held, tmpdata = s, sent = []\<rparr>"

section \<open>One packet\<close>

text \<open>
  The loop that sends the file. \<open>bytes_read\<close> is a \<open>size_t\<close>: an error of \<open>read\<close>, -1, is not
  recognised, and \<open>send\<close> is told to send that many bytes of the buffer. The result of \<open>send\<close> is
  not looked at, so what it has not taken is not sent again. \<open>None\<close> is a loop that does not end.
\<close>

definition send_bytes :: "'s file_ops \<Rightarrow> bytes \<Rightarrow> bytes \<Rightarrow> bytes res" where
  "send_bytes ops out content =
     (case sys_send ops out content of
        None \<Rightarrow> Inl Killed
      | Some n \<Rightarrow> Inr (out @ take n content))"

partial_function (option) send_file :: "'s file_ops \<Rightarrow> 's \<Rightarrow> bytes \<Rightarrow> ('s \<times> bytes) res option" where
  "send_file ops s out =
     (case sys_read ops BUFFER_SIZE s of
        Inl e \<Rightarrow> Some (Inl e)
      | Inr (bytes_read, file_content, s') \<Rightarrow>
          if bytes_read = 0 then Some (Inr (s', out))
          else if bytes_read < 0 then Some (Inl Out_Of_Bounds)
          else
            (case send_bytes ops out file_content of
               Inl e \<Rightarrow> Some (Inl e)
             | Inr out' \<Rightarrow> send_file ops s' out'))"

declare send_file.simps [code]

definition lock_file :: "'s session \<Rightarrow> 's session res" where
  "lock_file c = (if file_mutex c then Inl Deadlock else Inr (c\<lparr>file_mutex := True\<rparr>))"

text \<open>
  What is done with a complete packet while the mutex is held. \<open>False\<close> is the \<open>continue\<close> after an
  error, which skips the unlocking. A variable that \<open>sscanf\<close> did not assign is used all the
  same.
\<close>

definition packet_to_file :: "'s file_ops \<Rightarrow> 's session \<Rightarrow> (bool \<times> 's session) res" where
  "packet_to_file ops c =
     bind_res (c_string (write_buffer c)) (\<lambda>packet.
     if USE_AESD_CHAR_DEVICE ops \<and> strstr packet AESD_IOCTL_SEEKTO \<noteq> None then
       bind_res (c_string (read_buffer c)) (\<lambda>line.
       case sscanf_seekto line of
         (Some index, Some offset) \<Rightarrow>
           bind_res (sys_ioctl ops \<lparr>write_cmd = of_int index, write_cmd_offset = of_int offset\<rparr> (tmpdata c))
             (\<lambda>(rc, s). Inr (rc = 0, c\<lparr>tmpdata := s\<rparr>))
       | _ \<Rightarrow> Inl Uninitialised)
     else
       bind_res (sys_write ops (write_buffer c) (tmpdata c)) (\<lambda>(rc, s).
       let c = c\<lparr>tmpdata := s\<rparr> in
       if rc = - 1 then Inr (False, c)
       else
         bind_res (sys_write ops [NL] (tmpdata c)) (\<lambda>(rc, s).
         Inr (rc \<noteq> - 1, c\<lparr>tmpdata := s\<rparr>))))"

text \<open>A newline: log the packet as a string, take the mutex, process, release, clear, send the file.\<close>

definition packet_complete :: "'s file_ops \<Rightarrow> 's session \<Rightarrow> 's session res" where
  "packet_complete ops c =
     bind_res (c_string (write_buffer c)) (\<lambda>_.
     bind_res (lock_file c) (\<lambda>c.
     bind_res (packet_to_file ops c) (\<lambda>(ok, c).
     if \<not> ok then Inr c
     else
       let c = c\<lparr>file_mutex := False, write_buffer := []\<rparr> in
       bind_res (ended (send_file ops (tmpdata c) (sent c))) (\<lambda>(s, out).
       Inr (c\<lparr>tmpdata := s, sent := out\<rparr>)))))"

definition handle_byte :: "'s file_ops \<Rightarrow> char \<Rightarrow> 's session \<Rightarrow> 's session res" where
  "handle_byte ops ch c =
     (if ch = NL then packet_complete ops c
      else if length (write_buffer c) < BUFFER_SIZE
      then Inr (c\<lparr>write_buffer := write_buffer c @ [ch]\<rparr>)
      else Inl Out_Of_Bounds)"

fun handle_bytes :: "'s file_ops \<Rightarrow> bytes \<Rightarrow> 's session \<Rightarrow> 's session res" where
  "handle_bytes ops [] c = Inr c"
| "handle_bytes ops (b # bs) c = bind_res (handle_byte ops b c) (handle_bytes ops bs)"

section \<open>The connection\<close>

text \<open>
  What \<open>recv\<close> returns, one list of bytes per call; an empty one, or the end of the list, is the
  result 0 or -1 that ends the loop.
\<close>

fun receive_loop :: "'s file_ops \<Rightarrow> bytes list \<Rightarrow> 's session \<Rightarrow> 's session res" where
  "receive_loop ops [] c = Inr c"
| "receive_loop ops (data # rest) c =
     (if data = [] then Inr c
      else
        bind_res (handle_bytes ops data (c\<lparr>read_buffer := data @ drop (length data) (read_buffer c)\<rparr>))
          (receive_loop ops rest))"

text \<open>
  The whole thread: the loop, then \<open>thread_entry_markcomplete\<close> with the id that was read from the
  entry at the start of the thread. The last component is the descriptor it closes.
\<close>

definition client_handler ::
  "'s file_ops \<Rightarrow> ptr \<Rightarrow> bytes list \<Rightarrow> bool \<Rightarrow> 's \<Rightarrow> manager \<Rightarrow>
     ('s session \<times> manager \<times> int) res" where
  "client_handler ops arg received held s m =
     bind_res (get_entry m arg) (\<lambda>connection.
     bind_res (thread_entry_print arg m) (\<lambda>_.
     bind_res (receive_loop ops received (new_session held s)) (\<lambda>c.
     bind_res (thread_entry_markcomplete (thread_id connection) m) (\<lambda>(_, m).
     Inr (c, m, client_fd connection)))))"

end
