(* ===== verification/Line_Device.thy ===== *)
theory Line_Device
  imports Client_Handler Device_History "HOL-Library.Sublist"
begin

text \<open>
  What the server relies on when it writes packets to the data file and reads the file back:
  four contracts, each extending the one before, and what \<open>client_handler\<close> does on any file
  that keeps them.
\<close>

section \<open>A file that can be read to its end\<close>

locale byte_source =
  fixes ops :: "'s file_ops"
    and good :: "'s \<Rightarrow> bool"
    and bytes_of :: "'s \<Rightarrow> bytes"
    and position :: "'s \<Rightarrow> nat"
  assumes read_step: "good s \<Longrightarrow> \<exists>bs s'. sys_read ops BUFFER_SIZE s = Inr (int (length bs), bs, s') \<and>
      good s' \<and> bytes_of s' = bytes_of s \<and> position s' = position s + length bs \<and>
      bs = take (length bs) (drop (position s) (bytes_of s)) \<and>
      (bs = [] \<longleftrightarrow> length (bytes_of s) \<le> position s)"
begin

text \<open>
  The sending loop ends at the end of the file, whatever \<open>send\<close> does, unless the peer is gone.
  What it sends is a part of the file from the position on.
\<close>

lemma send_file_ends:
  "good s \<Longrightarrow> (\<And>out bs. sys_send ops out bs \<noteq> None) \<Longrightarrow>
     \<exists>s' sub. send_file ops s out = Some (Inr (s', out @ sub)) \<and>
       good s' \<and> bytes_of s' = bytes_of s \<and> position s' = max (position s) (length (bytes_of s)) \<and>
       subseq sub (drop (position s) (bytes_of s))"
proof (induction "length (bytes_of s) - position s" arbitrary: s out rule: less_induct)
  case less
  obtain bs s' where r: "sys_read ops BUFFER_SIZE s = Inr (int (length bs), bs, s')"
      "good s'" "bytes_of s' = bytes_of s" "position s' = position s + length bs"
      "bs = take (length bs) (drop (position s) (bytes_of s))"
      "bs = [] \<longleftrightarrow> length (bytes_of s) \<le> position s"
    using read_step [OF less.prems(1)] by blast
  show ?case
  proof (cases "bs = []")
    case True
    then show ?thesis using r by (subst send_file.simps) auto
  next
    case False
    obtain n where n: "sys_send ops out bs = Some n" using less.prems(2) [of out bs] by auto
    have lt: "length (bytes_of s') - position s' < length (bytes_of s) - position s"
      using False r(3,4,6) by (cases bs) auto
    have step: "send_file ops s out = send_file ops s' (out @ take n bs)"
      using r(1) False n by (subst send_file.simps) (simp add: send_bytes_def)
    have len: "length bs \<le> length (drop (position s) (bytes_of s))"
      using r(5) by (metis length_take min.cobounded1)
    have "bs @ drop (position s') (bytes_of s) = drop (position s) (bytes_of s)"
      using append_take_drop_id [of "length bs" "drop (position s) (bytes_of s)"] r(4,5)
      by (simp add: add.commute)
    moreover have "subseq (take n bs) bs" by (meson prefix_imp_subseq take_is_prefix)
    ultimately have "subseq (take n bs @ sub) (drop (position s) (bytes_of s))"
      if "subseq sub (drop (position s') (bytes_of s))" for sub
      using that by (metis list_emb_append_mono)
    then show ?thesis
      using less.hyps [OF lt r(2) less.prems(2), of "out @ take n bs"] r(3,4) step len by fastforce
  qed
qed

end

section \<open>A file that is read to its end and a connection that takes all of it\<close>

locale whole_source = byte_source +
  assumes sends_all: "sys_send ops out bs = Some (length bs)"
begin

lemma send_bytes_all [simp]: "send_bytes ops out bs = Inr (out @ bs)"
  by (simp add: send_bytes_def sends_all)

text \<open>The sending loop sends the file from the position to its end.\<close>

lemma send_file_all:
  "good s \<Longrightarrow> \<exists>s'. send_file ops s out = Some (Inr (s', out @ drop (position s) (bytes_of s))) \<and>
     good s' \<and> bytes_of s' = bytes_of s \<and> position s' = max (position s) (length (bytes_of s))"
proof (induction "length (bytes_of s) - position s" arbitrary: s out rule: less_induct)
  case less
  obtain bs s' where r: "sys_read ops BUFFER_SIZE s = Inr (int (length bs), bs, s')"
      "good s'" "bytes_of s' = bytes_of s" "position s' = position s + length bs"
      "bs = take (length bs) (drop (position s) (bytes_of s))"
      "bs = [] \<longleftrightarrow> length (bytes_of s) \<le> position s"
    using read_step [OF less.prems] by blast
  show ?case
  proof (cases "bs = []")
    case True
    then show ?thesis using r by (subst send_file.simps) auto
  next
    case False
    then have lt: "length (bytes_of s') - position s' < length (bytes_of s) - position s"
      using r(3,4,6) by (cases bs) auto
    have step: "send_file ops s out = send_file ops s' (out @ bs)"
      using r(1) False by (subst send_file.simps) simp
    have "length bs \<le> length (drop (position s) (bytes_of s))"
      using r(5) by (metis length_take min.cobounded1)
    moreover have "bs @ drop (position s') (bytes_of s) = drop (position s) (bytes_of s)"
      using append_take_drop_id [of "length bs" "drop (position s) (bytes_of s)"] r(4,5)
      by (simp add: add.commute)
    ultimately show ?thesis
      using less.hyps [OF lt r(2), of "out @ bs"] r(3,4) step by auto
  qed
qed

end

section \<open>A file that stores lines\<close>

text \<open>
  \<open>content\<close> are the stored lines, \<open>partial_line\<close> what has been written after the last newline; \<open>fits n s\<close>
  says that \<open>n\<close> more bytes can be written. A write is one that completes at most one line.
\<close>

locale line_device = whole_source +
  fixes content :: "'s \<Rightarrow> bytes list"
    and partial_line :: "'s \<Rightarrow> bytes"
    and fits :: "nat \<Rightarrow> 's \<Rightarrow> bool"
  assumes bytes_content: "bytes_of s = concat (content s)"
    and read_keeps: "good s \<Longrightarrow> sys_read ops BUFFER_SIZE s = Inr (r, bs, s') \<Longrightarrow>
      content s' = content s \<and> partial_line s' = partial_line s \<and> fits n s' = fits n s"
    and write_step: "good s \<Longrightarrow> fits (length d + n) s \<Longrightarrow> count_list (partial_line s @ d) NL \<le> 1 \<Longrightarrow>
      \<exists>s'. sys_write ops d s = Inr (int (length d), s') \<and> good s' \<and> position s' = position s \<and>
        (content s', partial_line s') = spec_write d (content s, partial_line s) \<and> fits n s'"
begin

lemma send_file_keeps:
  "good s \<Longrightarrow> send_file ops s out = Some (Inr (s', out')) \<Longrightarrow>
     content s' = content s \<and> partial_line s' = partial_line s \<and> fits n s' = fits n s"
proof (induction "length (bytes_of s) - position s" arbitrary: s out rule: less_induct)
  case less
  obtain bs t where r: "sys_read ops BUFFER_SIZE s = Inr (int (length bs), bs, t)"
      "good t" "bytes_of t = bytes_of s" "position t = position s + length bs"
      "bs = [] \<longleftrightarrow> length (bytes_of s) \<le> position s"
    using read_step [OF less.prems(1)] by blast
  note keep = read_keeps [OF less.prems(1) r(1)]
  show ?case
  proof (cases "bs = []")
    case True
    then have "s' = t" using less.prems(2) r(1) by (subst (asm) send_file.simps) simp
    then show ?thesis using keep by simp
  next
    case False
    then have "send_file ops t (out @ bs) = Some (Inr (s', out'))"
      using less.prems(2) r(1) by (subst (asm) send_file.simps) simp
    moreover have "length (bytes_of t) - position t < length (bytes_of s) - position s"
      using False r(3-5) by (cases bs) auto
    ultimately show ?thesis using less.hyps r(2) keep by metis
  qed
qed

end

section \<open>What a client sees\<close>

text \<open>
  A packet that is stored as it is: no newline inside, smaller than the buffer, and not one
  of the seek commands.
\<close>

definition plain :: "bytes \<Rightarrow> bool" where
  "plain l \<longleftrightarrow> length l < BUFFER_SIZE \<and> NL \<notin> set l \<and>
     strstr (takeWhile (\<lambda>c. c \<noteq> NUL) l) AESD_IOCTL_SEEKTO = None"

text \<open>
  The specification of a connection on the bytes that arrive: the packet so far, the stored
  lines, the position in the file and what has been sent back.
\<close>

type_synonym client_view = "bytes \<times> bytes list \<times> nat \<times> bytes"

fun serve_byte :: "char \<Rightarrow> client_view \<Rightarrow> client_view" where
  "serve_byte b (w, ls, pos, out) =
     (if b = NL then
        (let ls' = push_line (w @ [NL]) ls in
         ([], ls', max pos (length (concat ls')), out @ drop pos (concat ls')))
      else (w @ [b], ls, pos, out))"

text \<open>All packets that the bytes \<open>bs\<close> complete, after \<open>w\<close>, are plain and fit the buffer.\<close>

fun plain_from :: "bytes \<Rightarrow> bytes \<Rightarrow> bool" where
  "plain_from w [] \<longleftrightarrow> True"
| "plain_from w (b # bs) \<longleftrightarrow>
     (if b = NL then plain w \<and> plain_from [] bs
      else length w < BUFFER_SIZE \<and> plain_from (w @ [b]) bs)"

text \<open>Every line of the bytes, with \<open>n\<close> bytes before them, is shorter than the buffer.\<close>

fun short_from :: "nat \<Rightarrow> bytes \<Rightarrow> bool" where
  "short_from n [] \<longleftrightarrow> True"
| "short_from n (b # bs) \<longleftrightarrow> n < BUFFER_SIZE \<and> short_from (if b = NL then 0 else Suc n) bs"

lemma plain_from_short: "plain_from w bs \<Longrightarrow> short_from (length w) bs"
  by (induction w bs rule: plain_from.induct) (auto simp: plain_def split: if_splits)

lemma c_string_plain: "plain l \<Longrightarrow> c_string l = Inr (takeWhile (\<lambda>c. c \<noteq> NUL) l)"
  by (simp add: plain_def c_string_def)

context line_device
begin

definition views :: "'s session \<Rightarrow> client_view \<Rightarrow> bool" where
  "views c = (\<lambda>(w, ls, pos, out). write_buffer c = w \<and> \<not> file_mutex c \<and> good (tmpdata c) \<and>
     content (tmpdata c) = ls \<and> partial_line (tmpdata c) = [] \<and> position (tmpdata c) = pos \<and> sent c = out)"

lemma packet_plain:
  assumes v: "views c (w, ls, pos, out)" and plain: "plain w" and fits: "fits (Suc (length w + n)) (tmpdata c)"
  shows "\<exists>c'. packet_complete ops c = Inr c' \<and> views c' (serve_byte NL (w, ls, pos, out)) \<and>
    fits n (tmpdata c')"
proof -
  let ?s = "tmpdata c" and ?ls = "push_line (w @ [NL]) ls"
  have w: "write_buffer c = w" and good: "good ?s" and free: "\<not> file_mutex c" and ls: "content ?s = ls"
    and part: "partial_line ?s = []" and pos: "position ?s = pos" and out: "sent c = out"
    using v by (simp_all add: views_def)
  have nl: "NL \<notin> set w" using plain by (simp add: plain_def)
  then have cnt: "count_list w NL = 0" by (simp add: count_list_0_iff)
  obtain s1 where 1: "sys_write ops w ?s = Inr (int (length w), s1)" "good s1" "position s1 = pos"
      "(content s1, partial_line s1) = (ls, w)" "fits (Suc n) s1"
    using write_step [OF good, of w "Suc n"] fits part cnt ls pos nl
    by (auto simp: spec_write_def split_cmds_none)
  have "spec_write [NL] (ls, w) = (?ls, [])"
    using nl by (simp add: spec_write_def split_cmds_cmd [of w "[]", simplified])
  then obtain s2 where 2: "sys_write ops [NL] s1 = Inr (1, s2)" "good s2" "position s2 = pos"
      "content s2 = ?ls" "partial_line s2 = []" "fits n s2"
    using write_step [OF 1(2), of "[NL]" n] 1(3-5) cnt by auto
  obtain s3 where 3: "send_file ops s2 out = Some (Inr (s3, out @ drop pos (concat ?ls)))" "good s3"
      "bytes_of s3 = concat ?ls" "position s3 = max pos (length (concat ?ls))"
    using send_file_all [OF 2(2), of out] 2(3,4) bytes_content by auto
  note keep = send_file_keeps [OF 2(2) 3(1)]
  have "packet_complete ops c =
      Inr (c\<lparr>file_mutex := False, write_buffer := [], tmpdata := s3, sent := out @ drop pos (concat ?ls)\<rparr>)"
    using w free plain 1(1) 2(1) 3(1) out
    by (simp add: packet_complete_def packet_to_file_def lock_file_def c_string_plain ended_def Let_def)
      (simp add: plain_def)
  then show ?thesis
    using 2 3 keep by (auto simp: views_def Let_def)
qed

lemma bytes_plain:
  "views c (w, ls, pos, out) \<Longrightarrow> plain_from w bs \<Longrightarrow> fits (length w + length bs + n) (tmpdata c) \<Longrightarrow>
     \<exists>c'. handle_bytes ops bs c = Inr c' \<and> views c' (fold serve_byte bs (w, ls, pos, out)) \<and>
       fits (length (write_buffer c') + n) (tmpdata c')"
proof (induction bs arbitrary: c w ls pos out)
  case Nil
  then show ?case by (auto simp: views_def)
next
  case (Cons b bs)
  show ?case
  proof (cases "b = NL")
    case True
    obtain c' where c': "packet_complete ops c = Inr c'" "views c' (serve_byte NL (w, ls, pos, out))"
        "fits (length bs + n) (tmpdata c')"
      using packet_plain [OF Cons.prems(1), of "length bs + n"] Cons.prems(2,3) True
      by (auto simp: add.assoc)
    then show ?thesis
      using Cons.IH [of c' "[]"] Cons.prems(2) True by (auto simp: handle_byte_def Let_def)
  next
    case False
    let ?c' = "c\<lparr>write_buffer := w @ [b]\<rparr>"
    have "views ?c' (w @ [b], ls, pos, out)" "write_buffer c = w"
      using Cons.prems(1) by (auto simp: views_def)
    then show ?thesis
      using Cons.IH [of ?c' "w @ [b]" ls pos out] Cons.prems(2,3) False
      by (simp add: handle_byte_def)
  qed
qed

text \<open>How the bytes were cut into \<open>recv\<close> results does not matter.\<close>

lemma receive_plain:
  "views c (w, ls, pos, out) \<Longrightarrow> [] \<notin> set chunks \<Longrightarrow> plain_from w (concat chunks) \<Longrightarrow>
     fits (length w + length (concat chunks) + n) (tmpdata c) \<Longrightarrow>
     \<exists>c'. receive_loop ops chunks c = Inr c' \<and>
       views c' (fold serve_byte (concat chunks) (w, ls, pos, out))"
proof (induction chunks arbitrary: c w ls pos out)
  case (Cons data rest)
  let ?c = "c\<lparr>read_buffer := data @ drop (length data) (read_buffer c)\<rparr>"
  have split: "plain_from w (data @ more') \<Longrightarrow> plain_from w data \<and>
      plain_from (fst (fold serve_byte data (w, ls, pos, out))) more'" for more' data w ls pos out
    by (induction data arbitrary: w ls pos out) (auto simp: Let_def split: if_splits)
  have ok: "plain_from w data" "plain_from (fst (fold serve_byte data (w, ls, pos, out))) (concat rest)"
    using split [of w data "concat rest"] Cons.prems(3) by auto
  have "views ?c (w, ls, pos, out)" using Cons.prems(1) by (simp add: views_def)
  from bytes_plain [OF this ok(1), of "length (concat rest) + n"] obtain c' where
    c': "handle_bytes ops data ?c = Inr c'" "views c' (fold serve_byte data (w, ls, pos, out))"
      "fits (length (write_buffer c') + (length (concat rest) + n)) (tmpdata c')"
    using Cons.prems(4) by (auto simp: add.assoc)
  obtain w' ls' pos' out' where v: "fold serve_byte data (w, ls, pos, out) = (w', ls', pos', out')"
    by (cases "fold serve_byte data (w, ls, pos, out)")
  then have "write_buffer c' = w'" using c'(2) by (simp add: views_def)
  then show ?case
    using Cons.IH [of c' w' ls' pos' out'] c' ok(2) v Cons.prems(2) by (auto simp: add.assoc)
qed auto

end

section \<open>A file that can be positioned by line\<close>

text \<open>
  The seek command moves the file to a byte of a line. It counts the lines in the order of
  \<open>slots\<close>, and the bytes as if the file had its lines in this order; a line that does not exist
  is an error, and an offset that does not exist is one if the line can be printed, and a fault
  if it cannot.
\<close>

locale seekable_device = line_device +
  fixes slots :: "'a \<Rightarrow> bytes list"
  assumes char_device: "USE_AESD_CHAR_DEVICE ops"
    and ioctl_fails: "good s \<Longrightarrow> spec_seekto (unat w) (unat b) (slots s) = None \<Longrightarrow>
      sys_ioctl ops \<lparr>write_cmd = w, write_cmd_offset = b\<rparr> s =
        (if prints_beyond (unat w) (slots s) then Inl Out_Of_Bounds else Inr (- 1, s))"
    and ioctl_seeks: "good s \<Longrightarrow> spec_seekto (unat w) (unat b) (slots s) = Some p \<Longrightarrow>
      \<exists>s'. sys_ioctl ops \<lparr>write_cmd = w, write_cmd_offset = b\<rparr> s = Inr (0, s') \<and> good s' \<and>
        content s' = content s \<and> partial_line s' = partial_line s \<and> position s' = p"
begin

lemma packet_seek:
  assumes c: "c_string (write_buffer c) = Inr cmd" "strstr cmd AESD_IOCTL_SEEKTO \<noteq> None"
    and r: "c_string (read_buffer c) = Inr l" "sscanf_seekto l = (Some i, Some j)"
    and s: "\<not> file_mutex c" "good (tmpdata c)"
  shows "case spec_seekto (unat (of_int i :: u32)) (unat (of_int j :: u32)) (slots (tmpdata c)) of
      None \<Rightarrow> packet_complete ops c =
        (if prints_beyond (unat (of_int i :: u32)) (slots (tmpdata c)) then Inl Out_Of_Bounds
         else Inr (c\<lparr>file_mutex := True\<rparr>))
    | Some p \<Rightarrow> \<exists>c'. packet_complete ops c = Inr c' \<and> \<not> file_mutex c' \<and> write_buffer c' = [] \<and>
        good (tmpdata c') \<and> content (tmpdata c') = content (tmpdata c) \<and>
        sent c' = sent c @ drop p (concat (content (tmpdata c)))"
proof (cases "spec_seekto (unat (of_int i :: u32)) (unat (of_int j :: u32)) (slots (tmpdata c))")
  case None
  then show ?thesis
    using c r s char_device ioctl_fails [OF s(2) None]
    by (simp add: packet_complete_def lock_file_def packet_to_file_def)
next
  case (Some p)
  obtain s1 where 1: "sys_ioctl ops \<lparr>write_cmd = of_int i, write_cmd_offset = of_int j\<rparr> (tmpdata c) = Inr (0, s1)"
      "good s1" "content s1 = content (tmpdata c)" "position s1 = p"
    using ioctl_seeks [OF s(2) Some] by blast
  obtain s2 where 2: "send_file ops s1 (sent c) = Some (Inr (s2, sent c @ drop p (concat (content s1))))" "good s2"
    using send_file_all [OF 1(2), of "sent c"] 1(4) bytes_content by auto
  note keep = send_file_keeps [OF 1(2) 2(1)]
  have "packet_complete ops c = Inr (c\<lparr>file_mutex := False, write_buffer := [], tmpdata := s2,
      sent := sent c @ drop p (concat (content s1))\<rparr>)"
    using c r s(1) 1(1) 2(1) char_device
    by (simp add: packet_complete_def lock_file_def packet_to_file_def ended_def Let_def)
  then show ?thesis using Some 1(3) 2(2) keep by simp
qed

end

end
