(* ===== verification/Device_File.thy ===== *)
theory Device_File
  imports Line_Device
begin

text \<open>
  An open file of the char device as the server sees it: the entry points of the driver behind
  \<open>write\<close>, \<open>read\<close> and \<open>ioctl\<close>, and the proof that this is a file of the kind the server relies
  on.
\<close>

section \<open>The system calls\<close>

text \<open>
  A system call runs the operation of \<open>aesd_fops\<close> for it. The kernel hands \<open>read\<close> the position
  of the open file and stores the new one there, and the C library turns a negative result
  into -1. The buffers are the server's own, so all of them can be accessed, and no signal
  interrupts the wait for the device.
\<close>

record device_file =
  kern :: kernel
  open_file :: struct_file

definition char_write :: "kenv \<Rightarrow> bytes \<Rightarrow> device_file \<Rightarrow> (int \<times> device_file) res" where
  "char_write env buf s =
     bind_res (aesd_write env False buf (open_file s) (of_nat (length buf)) (kern s)) (\<lambda>(r, k).
     Inr (if r < 0 then - 1 else r, s\<lparr>kern := k\<rparr>))"

definition char_read :: "nat \<Rightarrow> device_file \<Rightarrow> (int \<times> bytes \<times> device_file) res" where
  "char_read n s =
     bind_res (aesd_read False n (open_file s) (of_nat n) (f_pos (open_file s)) (kern s)) (\<lambda>(r, bs, pos, k).
     Inr (if r < 0 then - 1 else r, bs, s\<lparr>kern := k, open_file := (open_file s)\<lparr>f_pos := pos\<rparr>\<rparr>))"

definition char_ioctl :: "aesd_seekto \<Rightarrow> device_file \<Rightarrow> (int \<times> device_file) res" where
  "char_ioctl arg s =
     bind_res (aesd_unlocked_ioctl (open_file s) AESDCHAR_IOCSEEKTO (Some arg) (kern s)) (\<lambda>(r, f).
     Inr (if r < 0 then - 1 else r, s\<lparr>open_file := f\<rparr>))"

definition char_file :: "kenv \<Rightarrow> device_file file_ops" where
  "char_file env = \<lparr>USE_AESD_CHAR_DEVICE = True, sys_write = char_write env, sys_read = char_read, sys_ioctl = char_ioctl,
     sys_send = \<lambda>_ bs. Some (length bs)\<rparr>"

section \<open>The contract\<close>

definition good_file :: "kenv \<Rightarrow> device_file \<Rightarrow> bool" where
  "good_file env s \<longleftrightarrow> alloc_never_fails env \<and> dev_inv (kern s) \<and>
     private_data (open_file s) = Dev_aesd \<and> \<not> f_pos_lock (open_file s) \<and>
     length (stream (kern s)) + length (pending (kern s)) < 2 ^ 63"

definition file_position :: "device_file \<Rightarrow> nat" where
  "file_position s = unat (f_pos (open_file s))"

definition fits_file :: "nat \<Rightarrow> device_file \<Rightarrow> bool" where
  "fits_file n s \<longleftrightarrow> length (stream (kern s)) + length (pending (kern s)) + n < 2 ^ 63"

lemma spec_write_length:
  "length (concat (fst (spec_write s st))) + length (snd (spec_write s st))
     \<le> length (concat (fst st)) + length (snd st) + length s"
proof -
  have push: "length (concat (fold push_line cs ls)) \<le> length (concat ls) + length (concat cs)" for cs ls
  proof (induction cs arbitrary: ls)
    case (Cons c cs)
    have "length (concat (fold push_line (c # cs) ls))
        \<le> length (concat (push_line c ls)) + length (concat cs)"
      using Cons.IH by simp
    then show ?case using length_push_line [of c ls] by simp
  qed simp
  have "length (concat (fst (split_cmds (snd st @ s)))) + length (snd (split_cmds (snd st @ s)))
      = length (snd st @ s)"
    by (metis length_append split_cmds_concat)
  then show ?thesis
    using push [of "fst (split_cmds (snd st @ s))" "fst st"]
    by (simp add: spec_write_def case_prod_unfold)
qed

lemma char_read_ok:
  assumes good: "good_file env s"
  shows "\<exists>bs. char_read BUFFER_SIZE s =
      Inr (int (length bs), bs, s\<lparr>open_file := (open_file s)\<lparr>f_pos := f_pos (open_file s) + of_nat (length bs)\<rparr>\<rparr>) \<and>
    unat (f_pos (open_file s) + of_nat (length bs)) = file_position s + length bs \<and>
    bs = take (length bs) (drop (file_position s) (stream (kern s))) \<and>
    (bs = [] \<longleftrightarrow> length (stream (kern s)) \<le> file_position s) \<and>
    bs = spec_read BUFFER_SIZE (file_position s) (lines (kern s))"
proof -
  let ?pos = "f_pos (open_file s)"
  define bs where "bs = spec_read BUFFER_SIZE (unat ?pos) (lines (kern s))"
  have inv: "dev_inv (kern s)" and dev: "private_data (open_file s) = Dev_aesd"
    and small: "length (stream (kern s)) < 2 ^ 63"
    using good by (simp_all add: good_file_def)
  have n: "unat (of_nat BUFFER_SIZE :: u64) = BUFFER_SIZE" by simp
  have "length bs \<le> BUFFER_SIZE" unfolding bs_def by (rule length_spec_read)
  then have "aesd_read False BUFFER_SIZE (open_file s) (of_nat BUFFER_SIZE) ?pos (kern s) =
      Inr (int (length bs), bs, ?pos + of_nat (length bs), kern s)"
    using aesd_read_main [OF inv dev, of "of_nat BUFFER_SIZE" ?pos BUFFER_SIZE] small n
    by (simp add: bs_def Let_def)
  then have run: "char_read BUFFER_SIZE s =
      Inr (int (length bs), bs, s\<lparr>open_file := (open_file s)\<lparr>f_pos := ?pos + of_nat (length bs)\<rparr>\<rparr>)"
    by (simp add: char_read_def)
  have cut: "bs = take (length bs) (drop (unat ?pos) (stream (kern s)))"
    unfolding bs_def stream_def by (rule spec_read_take)
  have nil: "bs = [] \<longleftrightarrow> length (stream (kern s)) \<le> unat ?pos"
    unfolding bs_def stream_def by (simp add: spec_read_Nil_iff)
  have "unat (?pos + of_nat (length bs)) = unat ?pos + length bs"
  proof (cases "bs = []")
    case False
    have "length bs \<le> length (stream (kern s)) - unat ?pos" using arg_cong [OF cut, of length] by simp
    then have "unat ?pos + length bs < 2 ^ 63" using False nil small by linarith
    then show ?thesis by (subst unat_add_u64) (simp_all add: unat_of_nat_u64)
  qed simp
  then show ?thesis using run cut nil bs_def [folded file_position_def] by (auto simp: file_position_def)
qed

lemma char_write_ok:
  assumes good: "good_file env s" and fits: "fits_file (length d + n) s"
    and one: "count_list (pending (kern s) @ d) NL \<le> 1"
  shows "\<exists>s'. char_write env d s = Inr (int (length d), s') \<and> good_file env s' \<and>
    file_position s' = file_position s \<and>
    (lines (kern s'), pending (kern s')) = spec_write d (lines (kern s), pending (kern s)) \<and>
    fits_file n s'"
proof -
  have inv: "dev_inv (kern s)" using good by (simp add: good_file_def)
  have len: "unat (of_nat (length d) :: u64) = length d"
    using fits by (intro unat_of_nat_u64) (simp add: fits_file_def)
  have "write_pre env d (open_file s) (of_nat (length d)) (kern s)"
    using good fits len by (simp add: write_pre_def good_file_def fits_file_def)
  from aesd_write_main [OF inv this] one len obtain k' where
    k': "aesd_write env False d (open_file s) (of_nat (length d)) (kern s) = Inr (int (length d), k')" "dev_inv k'"
      "(lines k', pending k') = spec_write d (lines (kern s), pending (kern s))"
    by auto
  then have "length (stream k') + length (pending k')
      \<le> length (stream (kern s)) + length (pending (kern s)) + length d"
    using spec_write_length [of d "(lines (kern s), pending (kern s))"] unfolding stream_def
    by (metis fst_conv snd_conv)
  then have "good_file env (s\<lparr>kern := k'\<rparr>)" "fits_file n (s\<lparr>kern := k'\<rparr>)"
    using good fits k'(2) by (simp_all add: good_file_def fits_file_def)
  then show ?thesis
    using k'(1,3) by (intro exI [of _ "s\<lparr>kern := k'\<rparr>"]) (simp add: char_write_def file_position_def)
qed

interpretation dev: line_device "char_file env" "good_file env" "\<lambda>s. stream (kern s)" file_position
  "\<lambda>s. lines (kern s)" "\<lambda>s. pending (kern s)" fits_file
  for env
proof unfold_locales
  fix s assume good: "good_file env s"
  from char_read_ok [OF good] show "\<exists>bs s'. sys_read (char_file env) BUFFER_SIZE s = Inr (int (length bs), bs, s') \<and>
      good_file env s' \<and> stream (kern s') = stream (kern s) \<and>
      file_position s' = file_position s + length bs \<and>
      bs = take (length bs) (drop (file_position s) (stream (kern s))) \<and>
      (bs = [] \<longleftrightarrow> length (stream (kern s)) \<le> file_position s)"
    using good by (auto simp: char_file_def good_file_def file_position_def)
  fix r bs s' n assume "sys_read (char_file env) BUFFER_SIZE s = Inr (r, bs, s')"
  then have "kern s' = kern s"
    using char_read_ok [OF good] by (auto simp: char_file_def)
  then show "lines (kern s') = lines (kern s) \<and> pending (kern s') = pending (kern s) \<and>
      fits_file n s' = fits_file n s"
    by (simp add: fits_file_def)
next
  show "stream (kern s) = concat (lines (kern s))" for s by (simp add: stream_def)
next
  show "\<exists>s'. sys_write (char_file env) d s = Inr (int (length d), s') \<and> good_file env s' \<and>
      file_position s' = file_position s \<and>
      (lines (kern s'), pending (kern s')) = spec_write d (lines (kern s), pending (kern s)) \<and>
      fits_file n s'"
    if "good_file env s" "fits_file (length d + n) s" "count_list (pending (kern s) @ d) NL \<le> 1" for d n s
    using char_write_ok [OF that] by (simp add: char_file_def)
next
  show "sys_send (char_file env) out bs = Some (length bs)" for out bs by (simp add: char_file_def)
qed

text \<open>The seek command counts the slots of the array.\<close>

lemma char_ioctl_eq:
  assumes "good_file env s"
  shows "char_ioctl \<lparr>write_cmd = w, write_cmd_offset = b\<rparr> s =
    (case spec_seekto (unat w) (unat b) (slot_lines (kern s)) of
        None \<Rightarrow> if prints_beyond (unat w) (slot_lines (kern s)) then Inl Out_Of_Bounds else Inr (- 1, s)
      | Some p \<Rightarrow> Inr (0, s\<lparr>open_file := (open_file s)\<lparr>f_pos := of_nat p\<rparr>\<rparr>))"
proof -
  have "s\<lparr>open_file := open_file s\<rparr> = s" by simp
  then show ?thesis
    using assms seekto_slots [of "kern s" "open_file s" w b]
    by (simp add: char_ioctl_def aesd_unlocked_ioctl_def good_file_def split: option.split)
qed

interpretation seek: seekable_device "char_file env" "good_file env" "\<lambda>s. stream (kern s)" file_position
  "\<lambda>s. lines (kern s)" "\<lambda>s. pending (kern s)" fits_file "\<lambda>s. slot_lines (kern s)"
  for env
proof unfold_locales
  show "USE_AESD_CHAR_DEVICE (char_file env)" by (simp add: char_file_def)
next
  fix s w b assume s: "good_file env s"
  show "sys_ioctl (char_file env) \<lparr>write_cmd = w, write_cmd_offset = b\<rparr> s =
      (if prints_beyond (unat w) (slot_lines (kern s)) then Inl Out_Of_Bounds else Inr (- 1, s))"
    if "spec_seekto (unat w) (unat b) (slot_lines (kern s)) = None"
    using that char_ioctl_eq [OF s, of w b] by (simp add: char_file_def)
  fix p assume p: "spec_seekto (unat w) (unat b) (slot_lines (kern s)) = Some p"
  then have "unat (of_nat p :: u64) = p"
    using s slot_seek_inside [OF p] by (intro unat_of_nat_u64) (simp add: good_file_def)
  then show "\<exists>s'. sys_ioctl (char_file env) \<lparr>write_cmd = w, write_cmd_offset = b\<rparr> s = Inr (0, s') \<and>
      good_file env s' \<and> lines (kern s') = lines (kern s) \<and> pending (kern s') = pending (kern s) \<and>
      file_position s' = p"
    using p s char_ioctl_eq [OF s, of w b] by (simp add: char_file_def good_file_def file_position_def)
qed

end
