(* ===== verification/Decimal_Text.thy ===== *)
theory Decimal_Text
  imports Client_Handler
begin

text \<open>
  Numbers as decimal text: how the program's strings contain them (\<open>printf\<close>, \<open>inet_ntop\<close>, a
  client's seek command), and that \<open>%ld\<close> of \<open>sscanf\<close> reads them back.
\<close>

section \<open>A number as its digits\<close>

fun dec :: "nat \<Rightarrow> bytes" where
  "dec n = (if n < 10 then [] else dec (n div 10)) @ [char_of (n mod 10 + 48)]"

declare dec.simps [simp del]

lemma dec_step: "dec n = (if n < 10 then [] else dec (n div 10)) @ [char_of (n mod 10 + 48)]"
  by (rule dec.simps)

lemma digit_code: "d < 10 \<Longrightarrow> (of_char (char_of (d + 48)) :: nat) = d + 48"
  by (simp add: take_bit_nat_eq_self)

lemma digits_value_snoc: "digits_value (ds @ [c]) = 10 * digits_value ds + (of_char c - 48)"
  by (simp add: digits_value_def)

lemma dec_digits: "dec n \<noteq> [] \<and> list_all is_digit (dec n) \<and> digits_value (dec n) = int n"
proof (induction n rule: dec.induct)
  case (1 n)
  have code: "(of_char (char_of (n mod 10 + 48)) :: nat) = n mod 10 + 48" by (rule digit_code) simp
  have icode: "(of_char (char_of (n mod 10 + 48)) :: int) = int (n mod 10 + 48)"
    by (subst of_nat_of_char [symmetric]) (simp only: code)
  have dig: "is_digit (char_of (n mod 10 + 48))" unfolding is_digit_def code by simp
  show ?case
  proof (cases "n < 10")
    case True
    then show ?thesis using dig icode by (subst (1 2 3) dec_step) (simp add: digits_value_def)
  next
    case False
    have "10 * (n div 10) + n mod 10 = n" by simp
    then have "10 * int (n div 10) + int (n mod 10) = int n" by (metis of_nat_add of_nat_mult of_nat_numeral)
    then show ?thesis using 1 False dig icode
      by (subst (1 2 3) dec_step) (simp add: digits_value_snoc)
  qed
qed

lemma scan_dec:
  assumes n: "n < 2 ^ 63" and r: "r = [] \<or> \<not> is_digit (hd r)"
  shows "scan_long (dec n @ r) = Some (int n, r)"
proof -
  note d = dec_digits [of n]
  obtain c cs where c: "dec n = c # cs" "is_digit c" using d by (cases "dec n") auto
  have "\<not> is_space c" "c \<noteq> CHR ''-''" "c \<noteq> CHR ''+''" using c(2) by (auto simp: is_digit_def is_space_def)
  then have "scan_sign (dropWhile is_space (dec n @ r)) = (False, dec n @ r)"
    using c(1) by (simp add: scan_sign_def)
  moreover have "takeWhile is_digit (dec n @ r) = dec n" "dropWhile is_digit (dec n @ r) = r"
    using d r by (cases r; simp add: takeWhile_append dropWhile_append list_all_iff)+
  ultimately show ?thesis using d n by (simp add: scan_long_def)
qed

lemma length_dec: "n < 10 ^ Suc k \<Longrightarrow> length (dec n) \<le> Suc k"
proof (induction k arbitrary: n)
  case 0
  then show ?case by (subst dec_step) simp
next
  case (Suc k)
  have "n div 10 < 10 ^ Suc k" using Suc.prems by (simp add: less_mult_imp_div_less)
  then show ?case using Suc.IH [of "n div 10"] by (subst dec_step) simp
qed

lemma dec_chars: "c \<in> set (dec n) \<Longrightarrow> is_digit c"
  using dec_digits [of n] by (simp add: list_all_iff)

lemma strip_prefix_append: "strip_prefix p (p @ r) = Some r"
  by (induction p) auto

end
