(* ===== verification/Client_Theorems.thy ===== *)
theory Client_Theorems
  imports Device_File Device_Theorems Decimal_Text
begin

text \<open>
  The properties of \<open>client_handler\<close>: on the char device through the contract of
  \<open>Line_Device\<close>, and on any data file where the handler goes wrong.
\<close>

section \<open>Lines and replies\<close>

text \<open>The bytes of a sequence of lines, and what they do to the view of a connection.\<close>

lemma fold_serve_line:
  "NL \<notin> set l \<Longrightarrow> fold serve_byte (l @ bs) (w, ls, pos, out) = fold serve_byte bs (w @ l, ls, pos, out)"
  by (induction l arbitrary: w) auto

lemma fold_serve_packet:
  "NL \<notin> set l \<Longrightarrow> ls' = push_line (w @ line l) ls \<Longrightarrow>
     fold serve_byte (line l) (w, ls, pos, out) = ([], ls', max pos (length (concat ls')), out @ drop pos (concat ls'))"
  by (simp add: line_def fold_serve_line Let_def del: fold_append)

lemma plain_from_line:
  "NL \<notin> set l \<Longrightarrow> plain (w @ l) \<Longrightarrow> plain_from [] bs \<Longrightarrow> plain_from w (l @ NL # bs)"
proof (induction l arbitrary: w)
  case (Cons b l)
  then have "plain ((w @ [b]) @ l)" by simp
  with Cons show ?case by (auto simp: plain_def)
qed simp

lemma plain_NL: "plain l \<Longrightarrow> NL \<notin> set l"
  by (simp add: plain_def)

definition open_char :: "kernel \<Rightarrow> device_file" where
  "open_char k = \<lparr>kern = k,
     open_file = snd (aesd_open \<lparr>private_data = Dev_NULL, f_pos = 0, f_pos_lock = False\<rparr>)\<rparr>"

lemma open_char_simps [simp]:
  "kern (open_char k) = k" "private_data (open_file (open_char k)) = Dev_aesd"
  "\<not> f_pos_lock (open_file (open_char k))" "file_position (open_char k) = 0"
  by (simp_all add: open_char_def aesd_open_def file_position_def)

lemma receive_char:
  assumes good: "good_file env s" and part: "pending (kern s) = []" and chunks: "[] \<notin> set chunks"
    and plain: "plain_from [] (concat chunks)" and fits: "fits_file (length (concat chunks)) s"
  shows "\<exists>c. receive_loop (char_file env) chunks (new_session False s) = Inr c \<and> \<not> file_mutex c \<and>
    dev_inv (kern (tmpdata c)) \<and> pending (kern (tmpdata c)) = [] \<and>
    (write_buffer c, lines (kern (tmpdata c)), file_position (tmpdata c), sent c)
      = fold serve_byte (concat chunks) ([], lines (kern s), file_position s, [])"
proof -
  have "dev.views env (new_session False s) ([], lines (kern s), file_position s, [])"
    using good part by (simp add: dev.views_def new_session_def)
  from dev.receive_plain [OF this chunks plain, of 0] fits obtain c where
    c: "receive_loop (char_file env) chunks (new_session False s) = Inr c"
      "dev.views env c (fold serve_byte (concat chunks) ([], lines (kern s), file_position s, []))"
    by (auto simp: new_session_def)
  moreover obtain w ls pos out where
    "fold serve_byte (concat chunks) ([], lines (kern s), file_position s, []) = (w, ls, pos, out)"
    by (cases "fold serve_byte (concat chunks) ([], lines (kern s), file_position s, [])")
  ultimately show ?thesis by (auto simp: dev.views_def good_file_def)
qed

section \<open>Properties on the char device\<close>

text \<open>C3. A connection to the server on the char device, whatever way the received bytes are cut
  into \<open>recv\<close> results: nothing faults, the driver's own fault with several commands in one
  write is never met, the mutex of the data file is free at the end, every complete packet is
  stored as a command, and the replies are, after each packet, the command stream from the
  position of the connection's file to the end.\<close>

theorem client_stores_packets:
  assumes "good_file env s" and "pending (kern s) = []" and "[] \<notin> set chunks"
    and "plain_from [] (concat chunks)" and "fits_file (length (concat chunks)) s"
  shows "\<exists>c. receive_loop (char_file env) chunks (new_session False s) = Inr c \<and> \<not> file_mutex c \<and>
    dev_inv (kern (tmpdata c)) \<and> pending (kern (tmpdata c)) = [] \<and>
    (write_buffer c, lines (kern (tmpdata c)), file_position (tmpdata c), sent c)
      = fold serve_byte (concat chunks) ([], lines (kern s), file_position s, [])"
  using assms by (rule receive_char)

lemma open_char_good:
  "dev_inv k \<Longrightarrow> length (stream k) + length (pending k) < 2 ^ 63 \<Longrightarrow> good_file env0 (open_char k)"
  by (simp add: good_file_def)

theorem client_stores_packets_witness:
  "\<exists>c. receive_loop (char_file env0) [''x'', ''y'' @ [NL] @ ''z''] (new_session False (open_char kernel1)) = Inr c \<and>
     \<not> file_mutex c \<and> lines (kern (tmpdata c)) = [line ''ab'', line ''xy''] \<and>
     sent c = line ''ab'' @ line ''xy'' \<and> write_buffer c = ''z''"
proof -
  have "good_file env0 (open_char kernel1)" "fits_file (Suc (Suc (Suc (Suc 0)))) (open_char kernel1)"
    by (simp_all add: open_char_good kernel1_inv fits_file_def line_def)
  moreover have "plain ''xy''" by (simp add: plain_def AESD_IOCTL_SEEKTO_def)
  ultimately show ?thesis
    using client_stores_packets [of env0 "open_char kernel1" "[''x'', ''y'' @ [NL] @ ''z'']"]
    by (auto simp: kernel1_inv push_line_def line_def simp del: receive_loop.simps)
qed

text \<open>C15. A client that connects, sends one line and waits gets the whole content of the device
  back: the last ten lines, its own included, in the order they came.\<close>

theorem client_echo:
  assumes "good_file env s" and "pending (kern s) = []" and "file_position s = 0"
    and "[] \<notin> set chunks" and "concat chunks = l @ [NL]" and "plain l"
    and "fits_file (length l + 1) s"
  shows "\<exists>c. receive_loop (char_file env) chunks (new_session False s) = Inr c \<and> \<not> file_mutex c \<and>
    lines (kern (tmpdata c)) = push_line (l @ [NL]) (lines (kern s)) \<and>
    sent c = concat (push_line (l @ [NL]) (lines (kern s)))"
proof -
  have nl: "NL \<notin> set l" using assms(6) by (rule plain_NL)
  have "plain_from [] (concat chunks)" using plain_from_line [of l "[]" "[]"] nl assms(5,6) by simp
  moreover have "fits_file (length (concat chunks)) s" using assms(5,7) by simp
  ultimately obtain c where
    "receive_loop (char_file env) chunks (new_session False s) = Inr c" "\<not> file_mutex c"
    "(write_buffer c, lines (kern (tmpdata c)), file_position (tmpdata c), sent c)
      = fold serve_byte (l @ [NL]) ([], lines (kern s), 0, [])"
    using receive_char [OF assms(1,2,4)] assms(3,5) by auto
  then show ?thesis using fold_serve_line [OF nl, of "[NL]" "[]" "lines (kern s)" 0 "[]"]
    by (simp add: Let_def)
qed

theorem client_echo_witness:
  "\<exists>c. receive_loop (char_file env0) [''x'', [NL]] (new_session False (open_char kernel1)) = Inr c \<and>
     sent c = line ''ab'' @ line ''x''"
proof -
  have "good_file env0 (open_char kernel1)" "fits_file (Suc (Suc 0)) (open_char kernel1)"
    by (simp_all add: open_char_good kernel1_inv fits_file_def line_def)
  moreover have "plain ''x''" by (simp add: plain_def AESD_IOCTL_SEEKTO_def)
  ultimately show ?thesis
    using client_echo [of env0 "open_char kernel1" "[''x'', [NL]]" "''x''"]
    by (auto simp: kernel1_inv push_line_def line_def simp del: receive_loop.simps)
qed

text \<open>The position of the file is not moved back, though the comment in the handler says that
  the entire contents are sent: the second line of a connection is answered with that line only
  while the device has room, and with nothing at all when it pushes out a line that is at
  least as long.\<close>

theorem client_second_reply:
  assumes "good_file env s" and "pending (kern s) = []" and "file_position s = 0"
    and "[] \<notin> set chunks" and "concat chunks = line l1 @ line l2" and "plain l1" and "plain l2"
    and "fits_file (length (concat chunks)) s"
    and "first = push_line (line l1) (lines (kern s))"
  shows "\<exists>c. receive_loop (char_file env) chunks (new_session False s) = Inr c \<and>
    lines (kern (tmpdata c)) = push_line (line l2) first \<and>
    sent c = concat first @
      (if length first < 10 then line l2
       else drop (length (hd first)) (line l2))"
proof -
  have nl: "NL \<notin> set l1" "NL \<notin> set l2" using assms(6,7) by (simp_all add: plain_NL)
  have "plain_from [] (concat chunks)"
    using plain_from_line [of l1 "[]"] plain_from_line [of l2 "[]" "[]"] nl assms(5-7) by (simp add: line_def)
  then obtain c where
    c: "receive_loop (char_file env) chunks (new_session False s) = Inr c"
    "(write_buffer c, lines (kern (tmpdata c)), file_position (tmpdata c), sent c)
      = fold serve_byte (line l1 @ line l2) ([], lines (kern s), 0, [])"
    using receive_char [OF assms(1,2,4)] assms(3,5,8) by auto
  have "first \<noteq> []" "length first \<le> 10"
    using push_line_len lines_len [of "kern s"] by (auto simp: assms(9) push_line_def)
  then have "drop (length (concat first)) (concat (push_line (line l2) first)) =
      (if length first < 10 then line l2 else drop (length (hd first)) (line l2))"
    by (cases first) (auto simp: push_line_def numeral_eq_Suc not_less less_Suc_eq le_Suc_eq)
  moreover have "fold serve_byte (line l1 @ line l2) ([], lines (kern s), 0, []) =
      ([], push_line (line l2) first, max (length (concat first)) (length (concat (push_line (line l2) first))),
       concat first @ drop (length (concat first)) (concat (push_line (line l2) first)))"
    using nl assms(9) by (simp add: fold_serve_packet)
  ultimately show ?thesis using c by simp
qed

theorem client_second_reply_witness:
  "\<exists>c. receive_loop (char_file env0) [line ''x'' @ line ''y''] (new_session False (open_char kernel1)) = Inr c \<and>
     sent c = line ''ab'' @ line ''x'' @ line ''y''"
proof -
  have "good_file env0 (open_char kernel1)" "fits_file (Suc (Suc (Suc (Suc 0)))) (open_char kernel1)"
    by (simp_all add: open_char_good kernel1_inv fits_file_def line_def)
  moreover have "plain ''x''" "plain ''y''" by (simp_all add: plain_def AESD_IOCTL_SEEKTO_def)
  ultimately show ?thesis
    using client_second_reply [of env0 "open_char kernel1" "[line ''x'' @ line ''y'']" "''x''" "''y''", OF _ _ _ _ _ _ _ _ refl]
    by (auto simp: kernel1_inv push_line_def line_def simp del: receive_loop.simps)
qed

section \<open>Properties on any data file\<close>

lemma handle_bytes_append:
  "handle_bytes ops (xs @ ys) c = bind_res (handle_bytes ops xs c) (handle_bytes ops ys)"
  by (induction xs arbitrary: c) (auto simp: bind_res_assoc intro!: bind_res_cong)

lemma handle_bytes_plain:
  "NL \<notin> set w \<Longrightarrow> length (write_buffer c) + length w \<le> BUFFER_SIZE \<Longrightarrow>
     handle_bytes ops w c = Inr (c\<lparr>write_buffer := write_buffer c @ w\<rparr>)"
  by (induction w arbitrary: c) (auto simp: handle_byte_def)

text \<open>C28. A packet whose write fails, or whose newline cannot be written, is left with \<open>continue\<close>,
  and the mutex of the data file stays locked: no client sends a complete packet any more. The
  session keeps its bytes and gets no reply; and every session that finds the mutex as it was
  left, the same one or one of another client, blocks for ever at its next newline, whatever it
  has received before it and whatever comes after it.\<close>

theorem client_write_error_deadlocks:
  assumes "\<not> file_mutex c" and "plain (write_buffer c)"
    and "sys_write ops (write_buffer c) (tmpdata c) = Inr (n, s)"
    and "n \<noteq> - 1 \<longrightarrow> sys_write ops [NL] s = Inr (- 1, s')"
  shows "\<exists>c'. packet_complete ops c = Inr c' \<and> file_mutex c' \<and> write_buffer c' = write_buffer c \<and> sent c' = sent c \<and>
    (\<forall>c2 w rest. file_mutex c2 = file_mutex c' \<longrightarrow> NL \<notin> set w \<longrightarrow> length (write_buffer c2) + length w < BUFFER_SIZE \<longrightarrow>
       handle_bytes ops (w @ NL # rest) c2 = Inl Deadlock)"
proof -
  let ?c = "c\<lparr>file_mutex := True, tmpdata := if n = - 1 then s else s'\<rparr>"
  have "packet_complete ops c = Inr ?c"
    using assms by (simp add: packet_complete_def lock_file_def packet_to_file_def c_string_plain) (simp add: plain_def)
  moreover have "handle_bytes ops (w @ NL # rest) c2 = Inl Deadlock"
    if "file_mutex c2" "NL \<notin> set w" "length (write_buffer c2) + length w < BUFFER_SIZE" for c2 w rest
    using that handle_bytes_plain [of w c2 ops]
    by (simp add: handle_bytes_append handle_byte_def packet_complete_def lock_file_def c_string_def)
  ultimately show ?thesis by (intro exI [of _ ?c]) simp
qed

text \<open>A file on which every call fails.\<close>

definition broken_file :: "unit file_ops" where
  "broken_file = \<lparr>USE_AESD_CHAR_DEVICE = True, sys_write = \<lambda>_ s. Inr (- 1, s), sys_read = \<lambda>_ s. Inr (- 1, [], s), sys_ioctl = \<lambda>_ s. Inr (- 1, s),
     sys_send = \<lambda>_ bs. Some (length bs)\<rparr>"

text \<open>The session \<open>a\<close> fails; its own next newline blocks, and so does that of a session \<open>b\<close>.\<close>

theorem client_write_error_deadlocks_witness:
  "\<exists>a'. packet_complete broken_file ((new_session False ())\<lparr>write_buffer := ''a''\<rparr>) = Inr a' \<and> file_mutex a' \<and>
     handle_bytes broken_file (''x'' @ [NL]) a' = Inl Deadlock \<and>
     handle_bytes broken_file (''y'' @ [NL]) ((new_session (file_mutex a') ())\<lparr>write_buffer := ''b''\<rparr>) = Inl Deadlock"
proof -
  let ?a = "(new_session False ())\<lparr>write_buffer := ''a''\<rparr>"
  have "\<not> file_mutex ?a" "plain (write_buffer ?a)" "sys_write broken_file (write_buffer ?a) (tmpdata ?a) = Inr (- 1, ())"
    by (simp_all add: new_session_def broken_file_def plain_def AESD_IOCTL_SEEKTO_def)
  from client_write_error_deadlocks [OF this, of "()"] obtain a' where
    a': "packet_complete broken_file ?a = Inr a'" "file_mutex a'" "write_buffer a' = ''a''"
    and block: "\<And>c2 w rest. file_mutex c2 \<Longrightarrow> NL \<notin> set w \<Longrightarrow> length (write_buffer c2) + length w < BUFFER_SIZE \<Longrightarrow>
      handle_bytes broken_file (w @ NL # rest) c2 = Inl Deadlock"
    by (auto simp: new_session_def)
  from block [of a' "''x''" "[]"] block [of "(new_session (file_mutex a') ())\<lparr>write_buffer := ''b''\<rparr>" "''y''" "[]"]
  show ?thesis using a' by (simp add: new_session_def del: handle_bytes.simps)
qed

text \<open>An error of \<open>read\<close> while the file is sent back is taken for a huge byte count, because
  the count is kept in an unsigned variable: the handler sends memory behind its buffer.\<close>

theorem client_read_error_overruns:
  assumes "\<not> file_mutex c" and "plain (write_buffer c)"
    and "sys_write ops (write_buffer c) (tmpdata c) = Inr (n1, s1)" and "n1 \<noteq> - 1"
    and "sys_write ops [NL] s1 = Inr (n2, s2)" and "n2 \<noteq> - 1"
    and "sys_read ops BUFFER_SIZE s2 = Inr (- 1, bs, s3)"
  shows "packet_complete ops c = Inl Out_Of_Bounds"
proof -
  have "send_file ops s2 (sent c) = Some (Inl Out_Of_Bounds)"
    using assms(7) by (subst send_file.simps) simp
  then show ?thesis
    using assms by (simp add: packet_complete_def lock_file_def packet_to_file_def c_string_plain ended_def Let_def)
      (simp add: plain_def)
qed

theorem client_read_error_overruns_witness:
  "packet_complete (broken_file\<lparr>sys_write := \<lambda>bs s. Inr (int (length bs), s)\<rparr>)
     ((new_session False ())\<lparr>write_buffer := ''a''\<rparr>) = Inl Out_Of_Bounds"
  by (rule client_read_error_overruns [where ?s1.0 = "()" and ?s2.0 = "()" and bs = "[]" and ?s3.0 = "()"
        and ?n1.0 = 1 and ?n2.0 = 1])
    (simp_all add: new_session_def broken_file_def plain_def AESD_IOCTL_SEEKTO_def)

text \<open>A packet is not checked against the size of its buffer: one byte more than fits without a
  newline is stored behind it.\<close>

theorem client_packet_overflow:
  assumes "NL \<notin> set (concat chunks)" and "[] \<notin> set chunks" and "BUFFER_SIZE < length (concat chunks)"
  shows "receive_loop ops chunks (new_session held s) = Inl Out_Of_Bounds"
proof -
  have long: "handle_bytes ops w c = Inl Out_Of_Bounds"
    if "NL \<notin> set w" "length (write_buffer c) \<le> BUFFER_SIZE" "BUFFER_SIZE < length (write_buffer c) + length w" for w c
    using that by (induction w arbitrary: c) (auto simp: handle_byte_def)
  have "receive_loop ops chunks c = Inl Out_Of_Bounds"
    if "NL \<notin> set (concat chunks)" "[] \<notin> set chunks" "length (write_buffer c) \<le> BUFFER_SIZE"
      "BUFFER_SIZE < length (write_buffer c) + length (concat chunks)" for c
    using that
  proof (induction chunks arbitrary: c)
    case (Cons data rest)
    let ?c = "c\<lparr>read_buffer := data @ drop (length data) (read_buffer c)\<rparr>"
    show ?case
    proof (cases "length (write_buffer c) + length data \<le> BUFFER_SIZE")
      case True
      then have "handle_bytes ops data ?c = Inr (?c\<lparr>write_buffer := write_buffer ?c @ data\<rparr>)"
        using Cons.prems(1) by (intro handle_bytes_plain) simp_all
      then show ?thesis using Cons.IH [of "?c\<lparr>write_buffer := write_buffer ?c @ data\<rparr>"] Cons.prems True
        by (cases "data = []") simp_all
    next
      case False
      then have "handle_bytes ops data ?c = Inl Out_Of_Bounds"
        using Cons.prems by (intro long) auto
      then show ?thesis using Cons.prems(2) by (cases "data = []") simp_all
    qed
  qed simp
  then show ?thesis using assms by (simp add: new_session_def)
qed

theorem client_packet_overflow_witness:
  "receive_loop broken_file [replicate 1048576 CHR ''x'', ''x''] (new_session False ()) = Inl Out_Of_Bounds"
  by (rule client_packet_overflow) simp_all

section \<open>Seek commands\<close>

text \<open>The seek command as a client sends it.\<close>

definition seek_command :: "nat \<Rightarrow> nat \<Rightarrow> bytes" where
  "seek_command i j = AESD_IOCTL_SEEKTO @ dec i @ '','' @ dec j"

lemma sscanf_command:
  assumes "i < 2 ^ 63" and "j < 2 ^ 63" and "r = [] \<or> \<not> is_digit (hd r)"
  shows "sscanf_seekto (seek_command i j @ r) = (Some (int i), Some (int j))"
proof -
  have "\<not> is_digit (CHR '','')" by (simp add: is_digit_def)
  then have "scan_long (dec i @ '','' @ dec j @ r) = Some (int i, '','' @ dec j @ r)"
    using assms(1) by (intro scan_dec) simp_all
  then show ?thesis
    using scan_dec [OF assms(2,3)] by (simp add: sscanf_seekto_def seek_command_def strip_prefix_append)
qed

lemma seek_command_chars:
  assumes "i < 2 ^ 32" and "j < 2 ^ 32"
  shows "length (seek_command i j) \<le> 40" and "NUL \<notin> set (seek_command i j)"
    and "NL \<notin> set (seek_command i j)" and "strstr (seek_command i j) AESD_IOCTL_SEEKTO \<noteq> None"
proof -
  have "length (dec i) \<le> 10" "length (dec j) \<le> 10"
    using assms length_dec [of i 9] length_dec [of j 9] by simp_all
  then show "length (seek_command i j) \<le> 40" by (simp add: seek_command_def AESD_IOCTL_SEEKTO_def)
  have "\<not> is_digit NUL" "\<not> is_digit NL" by (simp_all add: is_digit_def)
  then show "NUL \<notin> set (seek_command i j)" "NL \<notin> set (seek_command i j)"
    using dec_chars by (auto simp: seek_command_def AESD_IOCTL_SEEKTO_def)
  show "strstr (seek_command i j) AESD_IOCTL_SEEKTO \<noteq> None"
    by (simp add: seek_command_def AESD_IOCTL_SEEKTO_def)
qed

lemma takeWhile_all: "x \<notin> set xs \<Longrightarrow> takeWhile (\<lambda>y. y \<noteq> x) xs = xs"
  by (induction xs) auto

text \<open>C31. A seek command that arrives in one piece at the start of a connection: the client gets
  the command stream from the byte on that lies as far behind its start as that byte of that
  slot lies behind the start of the array; nothing is stored. If the slot is not in use, the client
  gets nothing and the mutex of the data file stays locked; an offset that its command does not
  have makes the driver read beyond the command, unless the command contains a 0 byte.\<close>

theorem client_seek:
  assumes "good_file env s" and "i < 2 ^ 32" and "j < 2 ^ 32"
  shows "case spec_seekto i j (slot_lines (kern s)) of
      None \<Rightarrow> if prints_beyond i (slot_lines (kern s))
        then receive_loop (char_file env) [seek_command i j @ [NL]] (new_session False s) = Inl Out_Of_Bounds
        else \<exists>c. receive_loop (char_file env) [seek_command i j @ [NL]] (new_session False s) = Inr c \<and>
          file_mutex c \<and> sent c = []
    | Some p \<Rightarrow> \<exists>c. receive_loop (char_file env) [seek_command i j @ [NL]] (new_session False s) = Inr c \<and>
        \<not> file_mutex c \<and> lines (kern (tmpdata c)) = lines (kern s) \<and> sent c = drop p (stream (kern s))"
proof -
  let ?w = "seek_command i j" and ?start = "(new_session False s)\<lparr>read_buffer := seek_command i j @ [NL]\<rparr>"
  let ?c = "?start\<lparr>write_buffer := ?w\<rparr>"
  note w = seek_command_chars [OF assms(2,3)]
  have run: "receive_loop (char_file env) [?w @ [NL]] (new_session False s) = packet_complete (char_file env) ?c"
  proof -
    have "write_buffer ?start = []" by (simp add: new_session_def)
    then have "handle_bytes (char_file env) ?w ?start = Inr ?c"
      using w(1,3) by (subst handle_bytes_plain) simp_all
    then show ?thesis
      by (simp add: handle_bytes_append handle_byte_def new_session_def bind_res_def split: sum.split)
  qed
  have "c_string (write_buffer ?c) = Inr ?w" "c_string (read_buffer ?c) = Inr (?w @ [NL])"
    using w by (simp_all add: c_string_def takeWhile_all new_session_def)
  moreover have "sscanf_seekto (?w @ [NL]) = (Some (int i), Some (int j))"
    using assms(2,3) by (intro sscanf_command) (simp_all add: is_digit_def)
  moreover have "unat (of_int (int i) :: u32) = i" "unat (of_int (int j) :: u32) = j"
    using assms(2,3) by (simp_all add: unat_of_nat)
  moreover have "tmpdata ?c = s" "\<not> file_mutex ?c" "sent ?c = []" by (simp_all add: new_session_def)
  ultimately show ?thesis
    using seek.packet_seek [of ?c ?w "?w @ [NL]" "int i" "int j" env] w(4) assms(1) run
    by (auto simp: stream_def split: option.splits)
qed

theorem client_seek_witness:
  "\<exists>c. receive_loop (char_file env0) [''AESDCHAR_IOCSEEKTO:0,1'' @ [NL]] (new_session False (open_char kernel1)) = Inr c \<and>
     sent c = ''b'' @ [NL]"
proof -
  have "dec 0 = ''0''" "dec 1 = ''1''" by code_simp+
  then have cmd: "seek_command 0 1 = ''AESDCHAR_IOCSEEKTO:0,1''"
    by (simp add: seek_command_def AESD_IOCTL_SEEKTO_def)
  have "good_file env0 (open_char kernel1)" by (simp add: open_char_good kernel1_inv line_def)
  moreover have "slot_lines (kern (open_char kernel1)) = lines kernel1" by code_simp
  ultimately show ?thesis
    using client_seek [of env0 "open_char kernel1" 0 1] unfolding cmd
    by (auto simp: kernel1_inv spec_seekto_def line_def simp del: receive_loop.simps)
qed

text \<open>The packet is searched for the seek command, but the numbers are read from the start of
  the bytes of the last \<open>recv\<close>: a command that arrives in two pieces, or behind another line in
  the same piece, is not parsed, and the handler goes on to seek with variables that have no
  value.\<close>

theorem client_seek_misparsed:
  assumes "USE_AESD_CHAR_DEVICE ops" and "\<not> file_mutex c" and "c_string (write_buffer c) = Inr w" and "strstr w AESD_IOCTL_SEEKTO \<noteq> None"
    and "c_string (read_buffer c) = Inr r" and "strip_prefix AESD_IOCTL_SEEKTO r = None"
  shows "packet_complete ops c = Inl Uninitialised"
  using assms by (simp add: packet_complete_def lock_file_def packet_to_file_def sscanf_seekto_def)

theorem client_seek_misparsed_witness:
  "receive_loop (char_file env0) [''AESDCHAR_IOCSEEKTO:0'', '',1'' @ [NL]] (new_session False (open_char kernel0)) = Inl Uninitialised"
proof -
  let ?r = "'',1'' @ [NL] @ drop 3 ''AESDCHAR_IOCSEEKTO:0''"
  let ?c = "\<lparr>write_buffer = ''AESDCHAR_IOCSEEKTO:0,1'', read_buffer = ?r, file_mutex = False, tmpdata = open_char kernel0, sent = []\<rparr>"
  have "packet_complete (char_file env0) ?c = Inl Uninitialised"
    by (rule client_seek_misparsed [where w = "''AESDCHAR_IOCSEEKTO:0,1''" and r = ?r])
      (simp_all add: c_string_def AESD_IOCTL_SEEKTO_def char_file_def)
  then show ?thesis by (simp add: handle_byte_def new_session_def)
qed

end
