(* ===== verification/Concurrent_Clients.thy ===== *)
theory Concurrent_Clients
  imports Client_Theorems
begin

text \<open>
  Several client threads of \<open>server/aesdsocket.c\<close> at once, on one char device. \<open>client_step\<close> cuts
  \<open>client_handler\<close> into what it does between two points where another thread may run. One system
  call on the data file is one step: \<open>read\<close> and \<open>write\<close> hold the mutex of the device meanwhile, and
  the \<open>ioctl\<close>, which does not take it, is called with the mutex of the data file, under which all
  the writes are. A client that runs alone ends as \<open>receive_loop\<close> says, with a fault too.
\<close>

section \<open>The steps of one client\<close>

text \<open>
  Where a client is: between two bytes; with the mutex of the data file, before the write of the
  packet, before the write of the newline, before the release; sending the file; at its end.
\<close>

datatype phase = Receiving | Locked | Newline | Unlocking | Sending | Closed

text \<open>\<open>todo\<close> are the bytes of the last \<open>recv\<close> that are still to be looked at, \<open>incoming\<close> the next results of \<open>recv\<close>.\<close>

record 's client =
  phase :: phase
  todo :: bytes
  incoming :: "bytes list"
  sess :: "'s session"

definition receive_step :: "'s client \<Rightarrow> 's client" where
  "receive_step c =
     (case incoming c of
        [] \<Rightarrow> c\<lparr>phase := Closed\<rparr>
      | data # rest \<Rightarrow>
          if data = [] then c\<lparr>phase := Closed\<rparr>
          else c\<lparr>todo := data, incoming := rest,
                 sess := (sess c)\<lparr>read_buffer := data @ drop (length data) (read_buffer (sess c))\<rparr>\<rparr>)"

text \<open>The packet goes to the file while the mutex is held; \<open>continue\<close> leaves it held.\<close>

definition locked_step :: "'s file_ops \<Rightarrow> 's client \<Rightarrow> 's client res" where
  "locked_step ops c =
     (let s = sess c in
      bind_res (c_string (write_buffer s)) (\<lambda>packet.
      if USE_AESD_CHAR_DEVICE ops \<and> strstr packet AESD_IOCTL_SEEKTO \<noteq> None then
        bind_res (c_string (read_buffer s)) (\<lambda>line.
        case sscanf_seekto line of
          (Some index, Some offset) \<Rightarrow>
            bind_res (sys_ioctl ops \<lparr>write_cmd = of_int index, write_cmd_offset = of_int offset\<rparr> (tmpdata s))
              (\<lambda>(rc, t). Inr (c\<lparr>phase := (if rc = 0 then Unlocking else Receiving), sess := s\<lparr>tmpdata := t\<rparr>\<rparr>))
        | _ \<Rightarrow> Inl Uninitialised)
      else
        bind_res (sys_write ops (write_buffer s) (tmpdata s)) (\<lambda>(rc, t).
        Inr (c\<lparr>phase := (if rc = - 1 then Receiving else Newline), sess := s\<lparr>tmpdata := t\<rparr>\<rparr>))))"

definition newline_step :: "'s file_ops \<Rightarrow> 's client \<Rightarrow> 's client res" where
  "newline_step ops c =
     bind_res (sys_write ops [NL] (tmpdata (sess c))) (\<lambda>(rc, t).
     Inr (c\<lparr>phase := (if rc = - 1 then Receiving else Unlocking), sess := (sess c)\<lparr>tmpdata := t\<rparr>\<rparr>))"

definition sending_step :: "'s file_ops \<Rightarrow> 's client \<Rightarrow> 's client res" where
  "sending_step ops c =
     bind_res (sys_read ops BUFFER_SIZE (tmpdata (sess c))) (\<lambda>(bytes_read, file_content, t).
     if bytes_read = 0 then Inr (c\<lparr>phase := Receiving, sess := (sess c)\<lparr>tmpdata := t\<rparr>\<rparr>)
     else if bytes_read < 0 then Inl Out_Of_Bounds
     else
       bind_res (send_bytes ops (sent (sess c)) file_content) (\<lambda>out.
       Inr (c\<lparr>sess := (sess c)\<lparr>tmpdata := t, sent := out\<rparr>\<rparr>)))"

text \<open>\<open>None\<close>: the client is at its end, or waits for the mutex.\<close>

definition client_step :: "'s file_ops \<Rightarrow> 's client \<Rightarrow> 's client res option" where
  "client_step ops c =
     (let s = sess c in
      case phase c of
        Receiving \<Rightarrow>
          (case todo c of
             [] \<Rightarrow> Some (Inr (receive_step c))
           | b # bs \<Rightarrow>
               if b = NL then
                 (case c_string (write_buffer s) of
                    Inl e \<Rightarrow> Some (Inl e)
                  | Inr _ \<Rightarrow>
                      if file_mutex s then None
                      else Some (Inr (c\<lparr>phase := Locked, todo := bs, sess := s\<lparr>file_mutex := True\<rparr>\<rparr>)))
               else if length (write_buffer s) < BUFFER_SIZE
               then Some (Inr (c\<lparr>todo := bs, sess := s\<lparr>write_buffer := write_buffer s @ [b]\<rparr>\<rparr>))
               else Some (Inl Out_Of_Bounds))
      | Locked \<Rightarrow> Some (locked_step ops c)
      | Newline \<Rightarrow> Some (newline_step ops c)
      | Unlocking \<Rightarrow>
          Some (Inr (c\<lparr>phase := Sending, sess := s\<lparr>file_mutex := False, write_buffer := []\<rparr>\<rparr>))
      | Sending \<Rightarrow> Some (sending_step ops c)
      | Closed \<Rightarrow> None)"

section \<open>A client alone\<close>

definition goes_on :: "'s file_ops \<Rightarrow> 's client \<Rightarrow> 's client \<Rightarrow> bool" where
  "goes_on ops c c' \<longleftrightarrow> client_step ops c = Some (Inr c')"

abbreviation runs_alone :: "'s file_ops \<Rightarrow> 's client \<Rightarrow> 's client \<Rightarrow> bool" where
  "runs_alone ops \<equiv> (goes_on ops)\<^sup>*\<^sup>*"

definition client_at :: "phase \<Rightarrow> bytes \<Rightarrow> bytes list \<Rightarrow> 's session \<Rightarrow> 's client" where
  "client_at p bs chunks s = \<lparr>phase = p, todo = bs, incoming = chunks, sess = s\<rparr>"

lemma client_at_simps [simp]:
  "phase (client_at p bs chunks s) = p" "todo (client_at p bs chunks s) = bs"
  "incoming (client_at p bs chunks s) = chunks" "sess (client_at p bs chunks s) = s"
  "(client_at p bs chunks s)\<lparr>phase := p'\<rparr> = client_at p' bs chunks s"
  "(client_at p bs chunks s)\<lparr>todo := bs'\<rparr> = client_at p bs' chunks s"
  "(client_at p bs chunks s)\<lparr>incoming := chunks'\<rparr> = client_at p bs chunks' s"
  "(client_at p bs chunks s)\<lparr>sess := s'\<rparr> = client_at p bs chunks s'"
  by (simp_all add: client_at_def)

lemma goes_then: "client_step ops c = Some (Inr c') \<Longrightarrow> runs_alone ops c' d \<Longrightarrow> runs_alone ops c d"
  by (meson converse_rtranclp_into_rtranclp goes_on_def)

lemma sending_alone:
  "send_file ops t out = Some r \<Longrightarrow> r = Inr (t', out') \<Longrightarrow> tmpdata s = t \<Longrightarrow> sent s = out \<Longrightarrow>
     runs_alone ops (client_at Sending bs chunks s) (client_at Receiving bs chunks (s\<lparr>tmpdata := t', sent := out'\<rparr>))"
proof (induction ops t out r arbitrary: s rule: send_file.raw_induct [rotated, consumes 1])
  case (1 send_file' ops t out r)
  obtain n data u where rd: "sys_read ops BUFFER_SIZE t = Inr (n, data, u)"
    using 1 by (auto split: sum.splits)
  consider (none) "n = 0" | (fails) "n < 0" | (some) "n > 0" by linarith
  then show ?case
  proof cases
    case none
    then have "client_step ops (client_at Sending bs chunks s) =
        Some (Inr (client_at Receiving bs chunks (s\<lparr>tmpdata := t', sent := out'\<rparr>)))"
      using 1 none rd by (simp add: client_step_def sending_step_def)
    then show ?thesis by (blast intro: goes_then)
  next
    case fails
    then show ?thesis using 1 fails rd by simp
  next
    case some
    obtain out1 where out1: "send_bytes ops out data = Inr out1"
      using 1 rd some by (auto split: sum.splits)
    let ?s = "s\<lparr>tmpdata := u, sent := out1\<rparr>"
    have "client_step ops (client_at Sending bs chunks s) = Some (Inr (client_at Sending bs chunks ?s))"
      using 1 rd some out1 by (simp add: client_step_def sending_step_def)
    moreover have "runs_alone ops (client_at Sending bs chunks ?s)
        (client_at Receiving bs chunks (?s\<lparr>tmpdata := t', sent := out'\<rparr>))"
      using 1 rd some out1 by (intro 1(1)) auto
    ultimately show ?thesis by (simp add: goes_then)
  qed
qed

lemma locked_alone:
  assumes c: "c_string (write_buffer s) = Inr cmd" "packet_to_file ops s = Inr (ok, s1)"
  shows "runs_alone ops (client_at Locked bs chunks s)
    (client_at (if ok then Unlocking else Receiving) bs chunks s1)"
proof (cases "USE_AESD_CHAR_DEVICE ops \<and> strstr cmd AESD_IOCTL_SEEKTO \<noteq> None")
  case True
  then obtain line where line: "c_string (read_buffer s) = Inr line"
    using c True by (auto simp: packet_to_file_def bind_res_Inr_iff)
  obtain i j where ij: "sscanf_seekto line = (i, j)" by (cases "sscanf_seekto line")
  then obtain index offset where seek: "i = Some index" "j = Some offset"
    using True c line by (cases i; cases j) (auto simp: packet_to_file_def)
  then obtain rc t where
    "sys_ioctl ops \<lparr>write_cmd = of_int index, write_cmd_offset = of_int offset\<rparr> (tmpdata s) = Inr (rc, t)"
    "ok = (rc = 0)" "s1 = s\<lparr>tmpdata := t\<rparr>"
    using True c line ij by (auto simp: packet_to_file_def bind_res_Inr_iff)
  then have "client_step ops (client_at Locked bs chunks s) =
      Some (Inr (client_at (if ok then Unlocking else Receiving) bs chunks s1))"
    using c(1) True line ij seek by (simp add: client_step_def locked_step_def)
  then show ?thesis by (blast intro: goes_then)
next
  case False
  then obtain rc t where w: "sys_write ops (write_buffer s) (tmpdata s) = Inr (rc, t)"
    "if rc = - 1 then \<not> ok \<and> s1 = s\<lparr>tmpdata := t\<rparr>
     else \<exists>rc' t'. sys_write ops [NL] t = Inr (rc', t') \<and> ok = (rc' \<noteq> - 1) \<and> s1 = s\<lparr>tmpdata := t'\<rparr>"
    using c False by (auto simp: packet_to_file_def Let_def bind_res_Inr_iff split: if_splits)
  have "client_step ops (client_at Locked bs chunks s) =
      Some (Inr (client_at (if rc = - 1 then Receiving else Newline) bs chunks (s\<lparr>tmpdata := t\<rparr>)))"
    using False c(1) w(1) by (auto simp: client_step_def locked_step_def Let_def)
  then show ?thesis
  proof (rule goes_then)
    show "runs_alone ops (client_at (if rc = - 1 then Receiving else Newline) bs chunks (s\<lparr>tmpdata := t\<rparr>))
        (client_at (if ok then Unlocking else Receiving) bs chunks s1)"
      using w(2) by (auto simp: client_step_def newline_step_def intro: goes_then split: if_splits)
  qed
qed

lemma packet_alone:
  assumes "packet_complete ops s = Inr s'"
  shows "runs_alone ops (client_at Receiving (NL # bs) chunks s) (client_at Receiving bs chunks s')"
proof -
  obtain cmd ok s1 where c: "c_string (write_buffer s) = Inr cmd" "\<not> file_mutex s"
      "packet_to_file ops (s\<lparr>file_mutex := True\<rparr>) = Inr (ok, s1)"
      "\<not> ok \<Longrightarrow> s' = s1"
      "ok \<Longrightarrow> \<exists>t out. send_file ops (tmpdata s1) (sent s1) = Some (Inr (t, out)) \<and>
         s' = s1\<lparr>file_mutex := False, write_buffer := [], tmpdata := t, sent := out\<rparr>"
    using assms by (auto simp: packet_complete_def lock_file_def ended_def Let_def bind_res_Inr_iff
        split: if_splits option.splits)
  let ?s = "s\<lparr>file_mutex := True\<rparr>" and ?c = "client_at Receiving (NL # bs) chunks"
  have lock: "client_step ops (?c s) = Some (Inr (client_at Locked bs chunks ?s))"
    using c(1,2) by (simp add: client_step_def)
  have "runs_alone ops (client_at Locked bs chunks ?s)
      (client_at (if ok then Unlocking else Receiving) bs chunks s1)"
    using c(1,3) by (intro locked_alone) simp_all
  moreover have "runs_alone ops (client_at (if ok then Unlocking else Receiving) bs chunks s1)
      (client_at Receiving bs chunks s')"
  proof (cases ok)
    case True
    then obtain t out where "send_file ops (tmpdata s1) (sent s1) = Some (Inr (t, out))"
        "s' = s1\<lparr>file_mutex := False, write_buffer := [], tmpdata := t, sent := out\<rparr>"
      using c(5) by blast
    then have "runs_alone ops (client_at Sending bs chunks (s1\<lparr>file_mutex := False, write_buffer := []\<rparr>))
        (client_at Receiving bs chunks s')"
      using sending_alone [of ops _ _ _ t out "s1\<lparr>file_mutex := False, write_buffer := []\<rparr>"] by simp
    moreover have "client_step ops (client_at Unlocking bs chunks s1) =
        Some (Inr (client_at Sending bs chunks (s1\<lparr>file_mutex := False, write_buffer := []\<rparr>)))"
      by (simp add: client_step_def Let_def)
    ultimately show ?thesis using True by (auto intro: goes_then)
  qed (use c(4) in simp)
  ultimately show ?thesis using goes_then [OF lock] by (meson rtranclp_trans)
qed

lemma byte_alone:
  assumes "handle_byte ops b s = Inr s1"
  shows "runs_alone ops (client_at Receiving (b # bs) chunks s) (client_at Receiving bs chunks s1)"
proof (cases "b = NL")
  case True
  then show ?thesis using assms packet_alone [of ops s s1 bs chunks] by (simp add: handle_byte_def)
next
  case False
  then have "client_step ops (client_at Receiving (b # bs) chunks s) = Some (Inr (client_at Receiving bs chunks s1))"
    using assms by (auto simp: handle_byte_def client_step_def split: if_splits)
  then show ?thesis by (blast intro: goes_then)
qed

lemma bytes_alone:
  "handle_bytes ops bs s = Inr s' \<Longrightarrow>
     runs_alone ops (client_at Receiving bs chunks s) (client_at Receiving [] chunks s')"
proof (induction bs arbitrary: s)
  case (Cons b bs)
  then obtain s1 where s1: "handle_byte ops b s = Inr s1" "handle_bytes ops bs s1 = Inr s'"
    by (auto simp: bind_res_Inr_iff)
  then show ?case using byte_alone [OF s1(1)] Cons.IH [OF s1(2)] by (meson rtranclp_trans)
qed simp

lemma receive_alone:
  "receive_loop ops chunks s = Inr s' \<Longrightarrow>
     \<exists>rest. runs_alone ops (client_at Receiving [] chunks s) (client_at Closed [] rest s')"
proof (induction chunks arbitrary: s)
  case Nil
  have "client_step ops (client_at Receiving [] [] s) = Some (Inr (client_at Closed [] [] s))"
    by (simp add: client_step_def receive_step_def)
  then show ?case using Nil by (auto intro: goes_then)
next
  case (Cons data rest)
  show ?case
  proof (cases "data = []")
    case True
    then have "client_step ops (client_at Receiving [] (data # rest) s) = Some (Inr (client_at Closed [] (data # rest) s))"
      by (simp add: client_step_def receive_step_def)
    then show ?thesis using Cons.prems True by (auto intro: goes_then)
  next
    case False
    let ?s = "s\<lparr>read_buffer := data @ drop (length data) (read_buffer s)\<rparr>"
    obtain s1 where s1: "handle_bytes ops data ?s = Inr s1" "receive_loop ops rest s1 = Inr s'"
      using Cons.prems False by (auto simp: bind_res_Inr_iff)
    have "client_step ops (client_at Receiving [] (data # rest) s) = Some (Inr (client_at Receiving data rest ?s))"
      using False by (simp add: client_step_def receive_step_def)
    then show ?thesis
      using Cons.IH [OF s1(2)] bytes_alone [OF s1(1), of rest] by (meson goes_then rtranclp_trans)
  qed
qed

text \<open>
  How a client ends if no other runs: a step of it faults, it is through, or it waits for a mutex
  that nobody will release. Each client ends in at most one way.
\<close>

definition outcome :: "'s file_ops \<Rightarrow> 's client \<Rightarrow> 's session res option" where
  "outcome ops c =
     (case client_step ops c of
        Some (Inr c') \<Rightarrow> None
      | Some (Inl e) \<Rightarrow> Some (Inl e)
      | None \<Rightarrow> Some (if phase c = Closed then Inr (sess c) else Inl Deadlock))"

definition ends_with :: "'s file_ops \<Rightarrow> 's client \<Rightarrow> 's session res \<Rightarrow> bool" where
  "ends_with ops c r \<longleftrightarrow> (\<exists>d. runs_alone ops c d \<and> outcome ops d = Some r)"

lemma ends_now: "outcome ops c = Some r \<Longrightarrow> ends_with ops c r"
  by (auto simp: ends_with_def)

lemma ends_later: "runs_alone ops c d \<Longrightarrow> ends_with ops d r \<Longrightarrow> ends_with ops c r"
  unfolding ends_with_def by (meson rtranclp_trans)

lemma ends_step: "client_step ops c = Some (Inr d) \<Longrightarrow> ends_with ops d r \<Longrightarrow> ends_with ops c r"
  by (meson ends_later goes_then rtranclp.rtrancl_refl)

lemma ends_fault: "client_step ops c = Some (Inl e) \<Longrightarrow> ends_with ops c (Inl e)"
  by (rule ends_now) (simp add: outcome_def)

lemma ends_deterministic:
  assumes "ends_with ops c r" and "ends_with ops c r'"
  shows "r = r'"
proof -
  obtain d d' where d: "runs_alone ops c d" "outcome ops d = Some r"
      and d': "runs_alone ops c d'" "outcome ops d' = Some r'"
    using assms by (auto simp: ends_with_def)
  have still: "d1 = d2" if "runs_alone ops d1 d2" "outcome ops d1 \<noteq> None" for d1 d2
    using that by (cases rule: converse_rtranclpE) (auto simp: goes_on_def outcome_def)
  have "runs_alone ops d d' \<or> runs_alone ops d' d"
    using d(1) d'(1)
  proof (induction rule: converse_rtranclp_induct)
    case (step c c1)
    note hyps = step.hyps and IH = step.IH
    from step.prems show ?case
    proof (cases rule: converse_rtranclpE)
      case base
      then show ?thesis using hyps by (blast intro: converse_rtranclp_into_rtranclp)
    next
      case (step c2)
      then have "c2 = c1" using hyps(1) by (simp add: goes_on_def)
      then show ?thesis using IH step by blast
    qed
  qed blast
  then show ?thesis using still d(2) d'(2) by fastforce
qed

text \<open>The faults of a client alone are those of \<open>receive_loop\<close>.\<close>

lemma sending_faults:
  "send_file ops t out = Some r \<Longrightarrow> r = Inl e \<Longrightarrow> tmpdata s = t \<Longrightarrow> sent s = out \<Longrightarrow>
     ends_with ops (client_at Sending bs chunks s) (Inl e)"
proof (induction ops t out r arbitrary: s rule: send_file.raw_induct [rotated, consumes 1])
  case (1 send_file' ops t out r)
  show ?case
  proof (cases "sys_read ops BUFFER_SIZE t")
    case (Inl e')
    then show ?thesis using 1 by (auto simp: client_step_def sending_step_def intro: ends_fault)
  next
    case (Inr x)
    then obtain n data u where rd: "sys_read ops BUFFER_SIZE t = Inr (n, data, u)" by (cases x) auto
    consider (fails) "n < 0" | (none) "n = 0" | (some) "n > 0" by linarith
    then show ?thesis
    proof cases
      case some
      show ?thesis
      proof (cases "send_bytes ops out data")
        case (Inl e')
        then show ?thesis using 1 rd some by (auto simp: client_step_def sending_step_def intro: ends_fault)
      next
        case (Inr out1)
        let ?s = "s\<lparr>tmpdata := u, sent := out1\<rparr>"
        have "client_step ops (client_at Sending bs chunks s) = Some (Inr (client_at Sending bs chunks ?s))"
          using 1 rd some Inr by (simp add: client_step_def sending_step_def)
        moreover have "ends_with ops (client_at Sending bs chunks ?s) (Inl e)"
          using 1 rd some Inr by (intro 1(1)) auto
        ultimately show ?thesis by (rule ends_step)
      qed
    qed (use 1 rd in \<open>auto simp: client_step_def sending_step_def intro: ends_fault\<close>)
  qed
qed

lemma seek_faults:
  assumes "c_string (write_buffer s) = Inr p" and "USE_AESD_CHAR_DEVICE ops \<and> strstr p AESD_IOCTL_SEEKTO \<noteq> None"
    and "packet_to_file ops s = Inl e"
  shows "locked_step ops (client_at Locked bs chunks s) = Inl e"
proof (cases "c_string (read_buffer s)")
  case (Inr line)
  obtain i j where ij: "sscanf_seekto line = (i, j)" by (cases "sscanf_seekto line")
  show ?thesis
  proof (cases "i = None \<or> j = None")
    case True
    then show ?thesis using assms Inr ij by (auto simp: locked_step_def packet_to_file_def split: option.splits)
  next
    case False
    then show ?thesis using assms Inr ij by (auto simp: locked_step_def packet_to_file_def bind_res_Inl_iff)
  qed
qed (use assms in \<open>simp add: locked_step_def packet_to_file_def\<close>)

lemma locked_faults:
  assumes e: "packet_to_file ops s = Inl e"
  shows "ends_with ops (client_at Locked bs chunks s) (Inl e)"
proof -
  let ?c = "client_at Locked bs chunks s"
  have step: "client_step ops ?c = Some (locked_step ops ?c)" by (simp add: client_step_def)
  show ?thesis
  proof (cases "c_string (write_buffer s)")
    case (Inl e')
    then show ?thesis using e step by (intro ends_fault) (simp add: locked_step_def packet_to_file_def)
  next
    case (Inr p)
    show ?thesis
    proof (cases "USE_AESD_CHAR_DEVICE ops \<and> strstr p AESD_IOCTL_SEEKTO \<noteq> None")
      case True
      then show ?thesis using seek_faults [OF Inr True e] step by (intro ends_fault) simp
    next
      case False
      then have locked: "locked_step ops ?c = bind_res (sys_write ops (write_buffer s) (tmpdata s)) (\<lambda>(rc, t).
          Inr (client_at (if rc = - 1 then Receiving else Newline) bs chunks (s\<lparr>tmpdata := t\<rparr>)))"
        using Inr by (auto simp: locked_step_def Let_def)
      show ?thesis
      proof (cases "sys_write ops (write_buffer s) (tmpdata s)")
        case (Inl e')
        then have "e' = e" using e Inr False by (auto simp: packet_to_file_def)
        then show ?thesis using step locked Inl by (intro ends_fault) simp
      next
        case w: (Inr r)
        obtain rc t where r: "r = (rc, t)" by (cases r)
        have nl: "rc \<noteq> - 1" "sys_write ops [NL] t = Inl e"
          using e Inr False w r by (auto simp: packet_to_file_def Let_def bind_res_Inl_iff split: if_splits)
        then have "ends_with ops (client_at Newline bs chunks (s\<lparr>tmpdata := t\<rparr>)) (Inl e)"
          by (intro ends_fault) (simp add: client_step_def newline_step_def)
        then show ?thesis using step locked w r nl(1) by (intro ends_step [of ops ?c]) simp_all
      qed
    qed
  qed
qed

lemma packet_faults:
  assumes "packet_complete ops s = Inl e" and "e \<noteq> Nonterminating"
  shows "ends_with ops (client_at Receiving (NL # bs) chunks s) (Inl e)"
proof (cases "c_string (write_buffer s)")
  case (Inl e')
  then show ?thesis using assms by (auto simp: packet_complete_def client_step_def intro: ends_fault)
next
  case (Inr cmd)
  let ?s = "s\<lparr>file_mutex := True\<rparr>"
  show ?thesis
  proof (cases "file_mutex s")
    case True
    then show ?thesis
      using assms Inr by (auto simp: packet_complete_def lock_file_def client_step_def outcome_def intro: ends_now)
  next
    case False
    have lock: "client_step ops (client_at Receiving (NL # bs) chunks s) = Some (Inr (client_at Locked bs chunks ?s))"
      using Inr False by (simp add: client_step_def)
    show ?thesis
    proof (cases "packet_to_file ops ?s")
      case (Inl e')
      then have "e' = e" using assms Inr False by (simp add: packet_complete_def lock_file_def)
      then show ?thesis using ends_step [OF lock locked_faults] Inl by simp
    next
      case (Inr r)
      then obtain s1 where s1: "packet_to_file ops ?s = Inr (True, s1)"
          "ended (send_file ops (tmpdata s1) (sent s1)) = Inl e"
        using assms \<open>c_string (write_buffer s) = Inr cmd\<close> False
        by (cases r) (auto simp: packet_complete_def lock_file_def Let_def bind_res_Inl_iff split: if_splits)
      let ?t = "s1\<lparr>file_mutex := False, write_buffer := []\<rparr>"
      have "send_file ops (tmpdata s1) (sent s1) = Some (Inl e)"
        using s1(2) assms(2) by (auto simp: ended_def split: option.splits)
      then have "ends_with ops (client_at Sending bs chunks ?t) (Inl e)" by (rule sending_faults) simp_all
      then have "ends_with ops (client_at Unlocking bs chunks s1) (Inl e)"
        by (rule ends_step [rotated]) (simp add: client_step_def Let_def)
      moreover have "runs_alone ops (client_at Locked bs chunks ?s) (client_at Unlocking bs chunks s1)"
        using locked_alone [of ?s cmd ops True s1] s1(1) \<open>c_string (write_buffer s) = Inr cmd\<close> by simp
      ultimately show ?thesis using ends_later ends_step [OF lock] by blast
    qed
  qed
qed

lemma bytes_fault:
  "handle_bytes ops bs s = Inl e \<Longrightarrow> e \<noteq> Nonterminating \<Longrightarrow>
     ends_with ops (client_at Receiving bs chunks s) (Inl e)"
proof (induction bs arbitrary: s)
  case (Cons b bs)
  show ?case
  proof (cases "handle_byte ops b s")
    case (Inl e')
    then show ?thesis
      using Cons.prems packet_faults [of ops s e bs chunks]
      by (cases "b = NL") (auto simp: handle_byte_def client_step_def intro!: ends_fault split: if_splits)
  next
    case (Inr s1)
    then have "runs_alone ops (client_at Receiving (b # bs) chunks s) (client_at Receiving bs chunks s1)"
      by (intro byte_alone) simp
    then show ?thesis using Cons Inr by (auto intro: ends_later)
  qed
qed simp

lemma receive_faults:
  "receive_loop ops chunks s = Inl e \<Longrightarrow> e \<noteq> Nonterminating \<Longrightarrow>
     ends_with ops (client_at Receiving [] chunks s) (Inl e)"
proof (induction chunks arbitrary: s)
  case (Cons data rest)
  let ?s = "s\<lparr>read_buffer := data @ drop (length data) (read_buffer s)\<rparr>"
  have data: "data \<noteq> []" using Cons.prems by auto
  have recv: "client_step ops (client_at Receiving [] (data # rest) s) = Some (Inr (client_at Receiving data rest ?s))"
    using data by (simp add: client_step_def receive_step_def)
  show ?case
  proof (cases "handle_bytes ops data ?s")
    case (Inl e')
    then show ?thesis using Cons.prems data by (intro ends_step [OF recv] bytes_fault) simp_all
  next
    case (Inr s1)
    then have "ends_with ops (client_at Receiving [] rest s1) (Inl e)" using Cons data by simp
    then show ?thesis using bytes_alone [OF Inr, of rest] ends_step [OF recv] ends_later by blast
  qed
qed simp

lemma receive_ends:
  assumes "receive_loop ops chunks s \<noteq> Inl Nonterminating"
  shows "ends_with ops (client_at Receiving [] chunks s) r \<longleftrightarrow> r = receive_loop ops chunks s"
proof -
  have "ends_with ops (client_at Receiving [] chunks s) (receive_loop ops chunks s)"
  proof (cases "receive_loop ops chunks s")
    case (Inl e)
    then show ?thesis using receive_faults [of ops chunks s e] assms by simp
  next
    case (Inr s')
    moreover have "outcome ops (client_at Closed [] rest s') = Some (Inr s')" for rest
      by (simp add: outcome_def client_step_def)
    ultimately show ?thesis using receive_alone [OF Inr] unfolding ends_with_def by metis
  qed
  then show ?thesis using ends_deterministic by metis
qed

section \<open>Where the bytes of a client are\<close>

text \<open>The bytes that are still to come, the packet so far, and whether the client holds the mutex of the data file.\<close>

definition rest_of :: "'s client \<Rightarrow> bytes" where
  "rest_of c = todo c @ concat (incoming c)"

definition packet :: "'s client \<Rightarrow> bytes" where
  "packet c = write_buffer (sess c)"

text \<open>The bytes taken from \<open>recv\<close> of which no whole line is in the data file yet.\<close>

definition at_hand :: "'s client \<Rightarrow> bytes" where
  "at_hand c =
     (case phase c of Receiving \<Rightarrow> packet c | Locked \<Rightarrow> line (packet c) | Newline \<Rightarrow> line (packet c)
     | Unlocking \<Rightarrow> [] | Sending \<Rightarrow> [] | Closed \<Rightarrow> packet c)"

definition holder :: "'s client \<Rightarrow> bool" where
  "holder c \<longleftrightarrow> phase c \<in> {Locked, Newline, Unlocking}"

lemma holder_phases [simp]: "phase c = Locked \<Longrightarrow> holder c" "phase c = Newline \<Longrightarrow> holder c"
  by (simp_all add: holder_def)

text \<open>How far a client is from its next byte, in steps; its measures are built on it.\<close>

fun phase_weight :: "phase \<Rightarrow> nat" where
  "phase_weight Locked = 5"
| "phase_weight Newline = 4"
| "phase_weight Unlocking = 3"
| "phase_weight Sending = 2"
| "phase_weight Receiving = 1"
| "phase_weight Closed = 0"

text \<open>The mutex is held exactly if one of the clients is at a place where it holds it, and never by two.\<close>

definition lock_inv :: "bool \<Rightarrow> 's client list \<Rightarrow> bool" where
  "lock_inv held cs \<longleftrightarrow>
     (\<forall>i < length cs. holder (cs ! i) \<longrightarrow> held \<and> (\<forall>j < length cs. holder (cs ! j) \<longrightarrow> j = i)) \<and>
     (held \<longrightarrow> (\<exists>i < length cs. holder (cs ! i)))"

lemma lock_inv_update:
  assumes "lock_inv held cs" and i: "i < length cs"
    and same: "holder (cs ! i) = holder c' \<Longrightarrow> held' = held"
    and turns: "holder (cs ! i) \<noteq> holder c' \<Longrightarrow> held = holder (cs ! i) \<and> held' = holder c'"
  shows "lock_inv held' (cs[i := c'])"
proof (cases "holder (cs ! i) = holder c'")
  case True
  then have "holder (cs[i := c'] ! j) = holder (cs ! j)" if "j < length cs" for j
    using that by (cases "j = i") simp_all
  then show ?thesis using assms(1) i same True by (auto simp: lock_inv_def)
next
  case False
  then show ?thesis using assms(1) i turns by (auto simp: lock_inv_def nth_list_update)
qed

lemma lock_inv_only:
  "lock_inv held cs \<Longrightarrow> i < length cs \<Longrightarrow> j < length cs \<Longrightarrow> holder (cs ! i) \<Longrightarrow> holder (cs ! j) \<Longrightarrow> i = j"
  unfolding lock_inv_def by metis

end
