(* ===== verification/Client_Turns.thy ===== *)
theory Client_Turns
  imports Concurrent_Clients
begin

text \<open>
  What one step of a client does to a device that it shares with others: what it needs of the
  device when it is its turn, and what it leaves. Packets can be seek commands; one that fails
  leaves the client with the mutex of the data file for ever.
\<close>

section \<open>What one client keeps\<close>

text \<open>The handler takes a packet for a seek command if it finds the name of the command in it.\<close>

definition seeks :: "bytes \<Rightarrow> bool" where
  "seeks p \<longleftrightarrow> strstr (takeWhile (\<lambda>c. c \<noteq> NUL) p) AESD_IOCTL_SEEKTO \<noteq> None"

lemma plain_not_seeks: "plain p \<Longrightarrow> \<not> seeks p"
  by (simp add: plain_def seeks_def)

definition to_write :: "'s client \<Rightarrow> nat" where
  "to_write c = (if phase c = Newline then 1 else length (at_hand c)) + length (rest_of c)"

text \<open>\<open>gave\<close> says that the client has given up: a seek command of it has failed.\<close>

definition conn_ok :: "bool \<Rightarrow> device_file client \<Rightarrow> bool" where
  "conn_ok gave c \<longleftrightarrow>
     private_data (open_file (tmpdata (sess c))) = Dev_aesd \<and> \<not> f_pos_lock (open_file (tmpdata (sess c))) \<and>
     [] \<notin> set (incoming c) \<and> NL \<notin> set (packet c) \<and>
     (if gave then phase c = Receiving \<or> phase c = Closed
      else
        case phase c of
          Receiving \<Rightarrow> short_from (length (packet c)) (rest_of c)
        | Locked \<Rightarrow> length (packet c) < BUFFER_SIZE \<and> short_from 0 (rest_of c)
        | Newline \<Rightarrow> \<not> seeks (packet c) \<and> short_from 0 (rest_of c)
        | Unlocking \<Rightarrow> short_from 0 (rest_of c)
        | Sending \<Rightarrow> packet c = [] \<and> short_from 0 (rest_of c)
        | Closed \<Rightarrow> rest_of c = [])"

text \<open>
  Steps that are left, when no file is longer than \<open>b\<close>. A seek can take the client back to the
  start of the file, so \<open>q\<close> has to be \<open>b\<close> if there are seeks; otherwise it can be 0.
\<close>

definition weight :: "nat \<Rightarrow> nat \<Rightarrow> device_file client \<Rightarrow> nat" where
  "weight q b c = (q + 6) * length (rest_of c) + length (incoming c) + phase_weight (phase c)
     + (if phase c = Locked then q else 0) + (b - file_position (tmpdata (sess c)))"

abbreviation kernel_of :: "device_file client \<Rightarrow> kernel" where
  "kernel_of c \<equiv> kern (tmpdata (sess c))"

definition stored_bytes :: "kernel \<Rightarrow> nat" where
  "stored_bytes k = length (stream k) + length (pending k)"

text \<open>The device as the client finds it when it is its turn.\<close>

definition turn_ok :: "kenv \<Rightarrow> nat \<Rightarrow> bool \<Rightarrow> device_file client \<Rightarrow> bool" where
  "turn_ok env b gave c \<longleftrightarrow> alloc_never_fails env \<and> conn_ok gave c \<and> dev_inv (kernel_of c) \<and>
     (phase c = Locked \<longrightarrow> pending (kernel_of c) = []) \<and>
     (phase c = Newline \<longrightarrow> pending (kernel_of c) = packet c) \<and>
     (holder c \<or> gave \<longrightarrow> file_mutex (sess c)) \<and>
     stored_bytes (kernel_of c) + to_write c \<le> b \<and> b < 2 ^ 63"

text \<open>What becomes of a packet in a step: it is stored, it has moved the file, or its client gives up.\<close>

datatype deed = Nothing | Stores | Seeks | Gives_up

fun deed_of :: "phase \<Rightarrow> phase \<Rightarrow> deed" where
  "deed_of Newline _ = Stores"
| "deed_of Locked Unlocking = Seeks"
| "deed_of Locked Receiving = Gives_up"
| "deed_of _ _ = Nothing"

text \<open>What its step does to the shared state and to what it still has to do.\<close>

definition step_does :: "nat \<Rightarrow> nat \<Rightarrow> bool \<Rightarrow> device_file client \<Rightarrow> device_file client \<Rightarrow> bool" where
  "step_does q b gave c c' \<longleftrightarrow>
     (let deed = deed_of (phase c) (phase c') in
      conn_ok (gave \<or> deed = Gives_up) c' \<and> dev_inv (kernel_of c') \<and>
      lines (kernel_of c') =
        (if deed = Stores then push_line (line (packet c)) (lines (kernel_of c)) else lines (kernel_of c)) \<and>
      pending (kernel_of c') =
        (if deed = Stores then [] else if phase c' = Newline then packet c else pending (kernel_of c)) \<and>
      (phase c \<noteq> Locked \<and> phase c \<noteq> Newline \<longrightarrow> kernel_of c' = kernel_of c) \<and>
      (\<not> gave \<and> deed \<noteq> Gives_up \<longrightarrow>
         (if deed = Nothing then [] else line (packet c)) @ at_hand c' @ rest_of c' = at_hand c @ rest_of c) \<and>
      stored_bytes (kernel_of c') + to_write c' \<le> stored_bytes (kernel_of c) + to_write c \<and>
      (b \<le> q \<or> \<not> (phase c = Locked \<and> seeks (packet c)) \<longrightarrow> weight q b c' < weight q b c) \<and>
      (phase c' = Newline \<longrightarrow> phase c = Locked \<and> packet c' = packet c) \<and>
      (deed = Stores \<longrightarrow> \<not> seeks (packet c)) \<and> (deed = Seeks \<or> deed = Gives_up \<longrightarrow> seeks (packet c)) \<and>
      (if deed = Gives_up \<or> holder c = holder c' then file_mutex (sess c') = file_mutex (sess c)
       else file_mutex (sess c) = holder c \<and> file_mutex (sess c') = holder c'))"

lemmas turn_defs = turn_ok_def conn_ok_def step_does_def client_step_def at_hand_def to_write_def weight_def
  holder_def rest_of_def packet_def Let_def

lemma deed_of_phases:
  "deed_of p p' = Stores \<longleftrightarrow> p = Newline"
  "deed_of p p' = Seeks \<longleftrightarrow> p = Locked \<and> p' = Unlocking"
  "deed_of p p' = Gives_up \<longleftrightarrow> p = Locked \<and> p' = Receiving"
  by (cases p; cases p'; simp)+

lemma step_doesD:
  assumes "step_does q b gave c c'"
  shows "conn_ok (gave \<or> deed_of (phase c) (phase c') = Gives_up) c'" and "dev_inv (kernel_of c')"
    and "lines (kernel_of c') =
      (if phase c = Newline then push_line (line (packet c)) (lines (kernel_of c)) else lines (kernel_of c))"
    and "pending (kernel_of c') =
      (if phase c = Newline then [] else if phase c' = Newline then packet c else pending (kernel_of c))"
    and "phase c \<noteq> Locked \<Longrightarrow> phase c \<noteq> Newline \<Longrightarrow> kernel_of c' = kernel_of c"
    and "\<not> gave \<Longrightarrow> deed_of (phase c) (phase c') \<noteq> Gives_up \<Longrightarrow>
      (if deed_of (phase c) (phase c') = Nothing then [] else line (packet c)) @ at_hand c' @ rest_of c' = at_hand c @ rest_of c"
    and "stored_bytes (kernel_of c') + to_write c' \<le> stored_bytes (kernel_of c) + to_write c"
    and "b \<le> q \<or> \<not> (phase c = Locked \<and> seeks (packet c)) \<Longrightarrow> weight q b c' < weight q b c"
    and "phase c' = Newline \<Longrightarrow> phase c = Locked \<and> packet c' = packet c"
    and "deed_of (phase c) (phase c') = Stores \<Longrightarrow> \<not> seeks (packet c)"
    and "deed_of (phase c) (phase c') = Seeks \<or> deed_of (phase c) (phase c') = Gives_up \<Longrightarrow> seeks (packet c)"
    and "deed_of (phase c) (phase c') = Gives_up \<or> holder c = holder c' \<Longrightarrow> file_mutex (sess c') = file_mutex (sess c)"
    and "deed_of (phase c) (phase c') \<noteq> Gives_up \<Longrightarrow> holder c \<noteq> holder c' \<Longrightarrow>
      file_mutex (sess c) = holder c \<and> file_mutex (sess c') = holder c'"
  using assms unfolding step_does_def Let_def deed_of_phases(1) by (blast, blast, blast, blast, blast, blast, blast, blast, blast, blast, blast, argo, argo)

section \<open>The steps of one client\<close>

lemma write_turn:
  assumes "alloc_never_fails env" and "dev_inv (kern f)" and "private_data (open_file f) = Dev_aesd"
    and "\<not> f_pos_lock (open_file f)" and "stored_bytes (kern f) + length d < 2 ^ 63"
    and "count_list (pending (kern f) @ d) NL \<le> 1"
  shows "\<exists>k'. char_write env d f = Inr (int (length d), f\<lparr>kern := k'\<rparr>) \<and> dev_inv k' \<and>
    (lines k', pending k') = spec_write d (lines (kern f), pending (kern f)) \<and>
    stored_bytes k' \<le> stored_bytes (kern f) + length d"
proof -
  have "good_file env f" "fits_file (length d + 0) f"
    using assms(1-5) by (simp_all add: good_file_def fits_file_def stored_bytes_def)
  from char_write_ok [OF this assms(6)] obtain f' where
    f': "char_write env d f = Inr (int (length d), f')" "good_file env f'"
      "(lines (kern f'), pending (kern f')) = spec_write d (lines (kern f), pending (kern f))"
    by blast
  then obtain k' where "f' = f\<lparr>kern := k'\<rparr>" by (auto simp: char_write_def bind_res_Inr_iff)
  moreover have "stored_bytes (kern f') \<le> stored_bytes (kern f) + length d"
    using spec_write_length [of d "(lines (kern f), pending (kern f))"] f'(3)
    unfolding stored_bytes_def stream_def by (metis fst_conv snd_conv)
  ultimately show ?thesis using f' by (auto simp: good_file_def)
qed

lemma spec_write_partial: "NL \<notin> set d \<Longrightarrow> spec_write d (ls, []) = (ls, d)"
  by (simp add: spec_write_def split_cmds_none)

lemma spec_write_newline: "NL \<notin> set l \<Longrightarrow> spec_write [NL] (ls, l) = (push_line (line l) ls, [])"
  by (simp add: spec_write_def line_def split_cmds_cmd [of l "[]", simplified])

lemma count_NL: "NL \<notin> set l \<Longrightarrow> count_list l NL = 0"
  by (simp add: count_list_0_iff)

text \<open>While it is between two packets.\<close>

lemma turn_receive:
  assumes "turn_ok env b gave c" and "phase c = Receiving" and "todo c = []"
  shows "\<exists>c'. client_step (char_file env) c = Some (Inr c') \<and> step_does q b gave c c'"
  using assms by (cases "incoming c") (auto simp: turn_defs receive_step_def)

lemma turn_byte:
  assumes "turn_ok env b gave c" and "phase c = Receiving" and "todo c = x # xs" and "x \<noteq> NL"
    and "length (packet c) < BUFFER_SIZE"
  shows "\<exists>c'. client_step (char_file env) c = Some (Inr c') \<and> step_does q b gave c c'"
  using assms by (auto simp: turn_defs)

lemma turn_lock:
  assumes "turn_ok env b False c" and "phase c = Receiving" and "todo c = NL # xs" and "\<not> file_mutex (sess c)"
  shows "\<exists>c'. client_step (char_file env) c = Some (Inr c') \<and> step_does q b False c c'"
  using assms by (auto simp: turn_defs c_string_def line_def)

lemma turn_unlock:
  assumes "turn_ok env b False c" and "phase c = Unlocking"
  shows "\<exists>c'. client_step (char_file env) c = Some (Inr c') \<and> step_does q b False c c'"
  using assms by (auto simp: turn_defs)

lemma turn_write:
  assumes t: "turn_ok env b False c" and p: "phase c = Locked" and plain: "\<not> seeks (packet c)"
  shows "\<exists>c'. client_step (char_file env) c = Some (Inr c') \<and> step_does q b False c c'"
proof -
  let ?f = "tmpdata (sess c)"
  have short: "length (packet c) < BUFFER_SIZE" and nl: "NL \<notin> set (packet c)" and none: "pending (kernel_of c) = []"
    and fits: "stored_bytes (kernel_of c) + to_write c \<le> b" "b < 2 ^ 63"
    using t p by (auto simp: turn_ok_def conn_ok_def)
  have len: "to_write c = Suc (length (packet c)) + length (rest_of c)"
    using p by (simp add: to_write_def at_hand_def line_def)
  obtain k' where w: "char_write env (packet c) ?f = Inr (int (length (packet c)), ?f\<lparr>kern := k'\<rparr>)"
      "dev_inv k'" "(lines k', pending k') = (lines (kernel_of c), packet c)"
      "stored_bytes k' \<le> stored_bytes (kernel_of c) + length (packet c)"
    using write_turn [of env ?f "packet c"] t nl none fits len
    by (auto simp: turn_ok_def conn_ok_def count_NL spec_write_partial)
  let ?c' = "c\<lparr>phase := Newline, sess := (sess c)\<lparr>tmpdata := ?f\<lparr>kern := k'\<rparr>\<rparr>\<rparr>"
  have "client_step (char_file env) c = Some (Inr ?c')"
    using w(1) plain p short
    by (simp add: client_step_def locked_step_def c_string_def packet_def char_file_def seeks_def Let_def)
  moreover have "step_does q b False c ?c'"
    using t p w len plain by (auto simp: turn_defs file_position_def)
  ultimately show ?thesis by blast
qed

lemma turn_newline:
  assumes t: "turn_ok env b False c" and p: "phase c = Newline"
  shows "\<exists>c'. client_step (char_file env) c = Some (Inr c') \<and> step_does q b False c c'"
proof -
  let ?f = "tmpdata (sess c)"
  have nl: "NL \<notin> set (packet c)" and pend: "pending (kernel_of c) = packet c"
    and fits: "stored_bytes (kernel_of c) + to_write c \<le> b" "b < 2 ^ 63"
    using t p by (auto simp: turn_ok_def conn_ok_def)
  have len: "to_write c = 1 + length (rest_of c)"
    using p by (simp add: to_write_def at_hand_def line_def)
  obtain k' where w: "char_write env [NL] ?f = Inr (1, ?f\<lparr>kern := k'\<rparr>)"
      "dev_inv k'" "(lines k', pending k') = (push_line (line (packet c)) (lines (kernel_of c)), [])"
      "stored_bytes k' \<le> stored_bytes (kernel_of c) + 1"
    using write_turn [of env ?f "[NL]"] t nl pend fits len
    by (auto simp: turn_ok_def conn_ok_def count_NL spec_write_newline)
  let ?c' = "c\<lparr>phase := Unlocking, sess := (sess c)\<lparr>tmpdata := ?f\<lparr>kern := k'\<rparr>\<rparr>\<rparr>"
  have "client_step (char_file env) c = Some (Inr ?c')"
    using w(1) p by (simp add: client_step_def newline_step_def char_file_def)
  moreover have "step_does q b False c ?c'"
    using t p w len by (auto simp: turn_defs file_position_def)
  ultimately show ?thesis by blast
qed

lemma turn_send:
  assumes t: "turn_ok env b False c" and p: "phase c = Sending"
  shows "\<exists>c'. client_step (char_file env) c = Some (Inr c') \<and> step_does q b False c c'"
proof -
  let ?f = "tmpdata (sess c)"
  have "good_file env ?f"
    using t by (auto simp: turn_ok_def conn_ok_def good_file_def stored_bytes_def)
  from char_read_ok [OF this] obtain bs where
    r: "char_read BUFFER_SIZE ?f = Inr (int (length bs), bs,
          ?f\<lparr>open_file := (open_file ?f)\<lparr>f_pos := f_pos (open_file ?f) + of_nat (length bs)\<rparr>\<rparr>)"
      "unat (f_pos (open_file ?f) + of_nat (length bs)) = file_position ?f + length bs"
      "bs = take (length bs) (drop (file_position ?f) (stream (kern ?f)))"
    by blast
  let ?f' = "?f\<lparr>open_file := (open_file ?f)\<lparr>f_pos := f_pos (open_file ?f) + of_nat (length bs)\<rparr>\<rparr>"
  have short: "length (stream (kern ?f)) \<le> b" using t by (simp add: turn_ok_def stored_bytes_def)
  have "length bs \<le> length (stream (kern ?f)) - file_position ?f" using arg_cong [OF r(3), of length] by simp
  then have nearer: "bs \<noteq> [] \<Longrightarrow> b - (file_position ?f + length bs) < b - file_position ?f"
    using short by (cases bs) auto
  let ?c' = "if bs = [] then c\<lparr>phase := Receiving, sess := (sess c)\<lparr>tmpdata := ?f'\<rparr>\<rparr>
    else c\<lparr>sess := (sess c)\<lparr>tmpdata := ?f', sent := sent (sess c) @ bs\<rparr>\<rparr>"
  have "client_step (char_file env) c = Some (Inr ?c')"
    using r(1) p by (simp add: client_step_def sending_step_def char_file_def send_bytes_def)
  moreover have "step_does q b False c ?c'"
    using t p nearer r(2) by (auto simp: turn_defs file_position_def)
  ultimately show ?thesis by blast
qed

text \<open>
  A seek command: it faults if the bytes of the last \<open>recv\<close> do not have the two numbers or the
  driver's message cannot be printed; it fails, which leaves the client with the mutex, if there
  is no such command; or it moves the file.
\<close>

definition seek_result :: "bytes \<Rightarrow> bytes list \<Rightarrow> nat option res" where
  "seek_result received slots =
     bind_res (c_string received) (\<lambda>l.
     case sscanf_seekto l of
       (Some i, Some j) \<Rightarrow>
         let w = unat (of_int i :: u32) in
         (case spec_seekto w (unat (of_int j :: u32)) slots of
            Some p \<Rightarrow> Inr (Some p)
          | None \<Rightarrow> if prints_beyond w slots then Inl Out_Of_Bounds else Inr None)
     | _ \<Rightarrow> Inl Uninitialised)"

definition after_seek :: "device_file client \<Rightarrow> nat option \<Rightarrow> device_file client" where
  "after_seek c target =
     (case target of
        None \<Rightarrow> c\<lparr>phase := Receiving\<rparr>
      | Some p \<Rightarrow>
          c\<lparr>phase := Unlocking, sess := (sess c)\<lparr>tmpdata := (tmpdata (sess c))\<lparr>open_file :=
            (open_file (tmpdata (sess c)))\<lparr>f_pos := of_nat p\<rparr>\<rparr>\<rparr>\<rparr>)"

lemma turn_seek_step:
  assumes t: "turn_ok env b False c" and p: "phase c = Locked" and seek: "seeks (packet c)"
  shows "client_step (char_file env) c =
    Some (bind_res (seek_result (read_buffer (sess c)) (slot_lines (kernel_of c))) (\<lambda>target. Inr (after_seek c target)))"
proof -
  have good: "good_file env (tmpdata (sess c))"
    using t by (auto simp: turn_ok_def conn_ok_def good_file_def stored_bytes_def)
  have same: "c\<lparr>phase := Receiving, sess := (sess c)\<lparr>tmpdata := tmpdata (sess c)\<rparr>\<rparr> = c\<lparr>phase := Receiving\<rparr>"
    by simp
  have packet: "c_string (write_buffer (sess c)) = Inr (takeWhile (\<lambda>c. c \<noteq> NUL) (packet c))"
    using t p by (simp add: turn_ok_def conn_ok_def packet_def c_string_def)
  show ?thesis
  proof (cases "c_string (read_buffer (sess c))")
    case (Inl e)
    then show ?thesis
      using p seek packet by (simp add: client_step_def locked_step_def seeks_def char_file_def seek_result_def)
  next
    case (Inr l)
    obtain i j where ij: "sscanf_seekto l = (i, j)" by (cases "sscanf_seekto l")
    show ?thesis
    proof (cases "i = None \<or> j = None")
      case True
      then show ?thesis using p seek packet Inr ij
        by (auto simp: client_step_def locked_step_def seeks_def char_file_def seek_result_def split: option.split)
    next
      case False
      then obtain i' j' where "i = Some i'" "j = Some j'" by auto
      then show ?thesis
        using p seek packet Inr ij same char_ioctl_eq [OF good]
        by (simp add: client_step_def locked_step_def seeks_def char_file_def seek_result_def after_seek_def Let_def
            split: option.split)
    qed
  qed
qed

lemma turn_seek:
  assumes t: "turn_ok env b False c" and p: "phase c = Locked" and seek: "seeks (packet c)"
  shows "step_does q b False c (after_seek c target)"
  using assms by (cases target) (auto simp: turn_defs after_seek_def file_position_def line_def)

text \<open>Every step, of a client that has given up too.\<close>

lemma client_turn:
  assumes t: "turn_ok env b gave c"
  shows "case client_step (char_file env) c of
      None \<Rightarrow> phase c = Closed \<or> phase c = Receiving \<and> file_mutex (sess c) \<and> (\<exists>xs. todo c = NL # xs)
    | Some (Inl e) \<Rightarrow> gave \<or> phase c = Locked \<and> seeks (packet c)
    | Some (Inr c') \<Rightarrow> step_does q b gave c c'"
proof (cases gave)
  case False
  then have gave: "gave = False" by simp
  note t = t [unfolded gave]
  show ?thesis
  proof (cases "phase c")
    case Receiving
    show ?thesis
    proof (cases "todo c")
      case Nil
      then show ?thesis using turn_receive [OF t Receiving, of q] by (fastforce simp: gave)
    next
      case (Cons x xs)
      have short: "length (packet c) < BUFFER_SIZE" using t Receiving Cons by (simp add: turn_ok_def conn_ok_def rest_of_def)
      then have "x = NL \<Longrightarrow> file_mutex (sess c) \<Longrightarrow> client_step (char_file env) c = None"
        using Receiving Cons by (simp add: client_step_def c_string_def packet_def)
      then show ?thesis
        using turn_byte [OF t Receiving Cons _ short, of q] turn_lock [OF t Receiving, of xs q] Receiving Cons
        by (cases "x = NL"; cases "file_mutex (sess c)") (fastforce simp: gave)+
    qed
  next
    case Locked
    then show ?thesis
      using turn_write [OF t Locked, of q] turn_seek_step [OF t Locked] turn_seek [OF t Locked, of q]
      by (cases "seeks (packet c)"; cases "seek_result (read_buffer (sess c)) (slot_lines (kernel_of c))")
        (fastforce simp: gave)+
  next
    case Closed
    then show ?thesis by (simp add: client_step_def)
  qed (use turn_newline [OF t, of q] turn_unlock [OF t, of q] turn_send [OF t, of q] in \<open>fastforce simp: gave\<close>)+
next
  case True
  then have gave: "gave = True" by simp
  note t = t [unfolded gave]
  consider (closed) "phase c = Closed" | (empty) "phase c = Receiving" "todo c = []"
    | (byte) x xs where "phase c = Receiving" "todo c = x # xs" "x \<noteq> NL"
    | (packet) xs where "phase c = Receiving" "todo c = NL # xs"
    using t by (cases "todo c") (auto simp: turn_ok_def conn_ok_def)
  then show ?thesis
  proof cases
    case closed
    then show ?thesis by (simp add: client_step_def)
  next
    case empty
    then show ?thesis using turn_receive [OF t empty, of q] True by fastforce
  next
    case byte
    then show ?thesis
      using turn_byte [OF t byte, of q] True by (cases "length (packet c) < BUFFER_SIZE") (fastforce simp: client_step_def packet_def)+
  next
    case packet
    have "file_mutex (sess c)" using t by (simp add: turn_ok_def)
    then show ?thesis using packet True by (cases "c_string (write_buffer (sess c))") (auto simp: client_step_def)
  qed
qed

end
