(* ===== verification/Device_World.thy ===== *)
theory Device_World
  imports Client_Turns
begin

text \<open>
  Clients that share the char device: the world of all of them, its steps, what becomes of their
  packets, and what every interleaving keeps.
\<close>

section \<open>The world\<close>

text \<open>
  The kernel with the device and the mutex of the data file are shared; each client has its own
  open file and buffers. A step takes one client \<open>i\<close> through \<open>client_step\<close> on the shared state.
\<close>

record world =
  shared :: kernel
  file_lock :: bool
  conns :: "device_file client list"

definition enter :: "world \<Rightarrow> nat \<Rightarrow> device_file client" where
  "enter w i =
     (let c = conns w ! i in
      c\<lparr>sess := (sess c)\<lparr>file_mutex := file_lock w, tmpdata := (tmpdata (sess c))\<lparr>kern := shared w\<rparr>\<rparr>\<rparr>)"

definition leave :: "world \<Rightarrow> nat \<Rightarrow> device_file client \<Rightarrow> world" where
  "leave w i c =
     \<lparr>shared = kern (tmpdata (sess c)), file_lock = file_mutex (sess c), conns = (conns w)[i := c]\<rparr>"

definition world_step :: "kenv \<Rightarrow> nat \<Rightarrow> world \<Rightarrow> world res option" where
  "world_step env i w =
     (if i < length (conns w)
      then map_option (\<lambda>r. bind_res r (\<lambda>c. Inr (leave w i c))) (client_step (char_file env) (enter w i))
      else None)"

text \<open>One client for each list of results of \<open>recv\<close>, each with the device newly opened.\<close>

definition world_start :: "kernel \<Rightarrow> bytes list list \<Rightarrow> world" where
  "world_start k inputs =
     \<lparr>shared = k, file_lock = False,
      conns = map (\<lambda>chunks. client_at Receiving [] chunks (new_session False (open_char k))) inputs\<rparr>"

section \<open>What becomes of the packets\<close>

text \<open>A packet of a client is stored, or it was a seek command that moved the file or failed.\<close>

datatype event =
  is_Stored: Stored (doer: nat) (what: bytes)
| Sought (doer: nat) (what: bytes)
| is_Gave_up: Gave_up (doer: nat) (what: bytes)

definition happens :: "world \<Rightarrow> nat \<Rightarrow> world \<Rightarrow> event list" where
  "happens w i w' =
     (let c = conns w ! i in
      case deed_of (phase c) (phase (conns w' ! i)) of
        Nothing \<Rightarrow> []
      | Stores \<Rightarrow> [Stored i (packet c)]
      | Seeks \<Rightarrow> [Sought i (packet c)]
      | Gives_up \<Rightarrow> [Gave_up i (packet c)])"

definition handled :: "nat \<Rightarrow> event list \<Rightarrow> bytes list" where
  "handled i log = map what (filter (\<lambda>e. doer e = i) log)"

definition stored :: "event list \<Rightarrow> bytes list" where
  "stored log = map what (filter is_Stored log)"

definition gave_up :: "nat \<Rightarrow> event list \<Rightarrow> bool" where
  "gave_up i log \<longleftrightarrow> list_ex (\<lambda>e. is_Gave_up e \<and> doer e = i) log"

definition stuck :: "event list \<Rightarrow> bool" where
  "stuck log \<longleftrightarrow> list_ex is_Gave_up log"

lemma log_simps [simp]:
  "handled i [] = []" "handled i (log @ log') = handled i log @ handled i log'"
  "stored [] = []" "stored (log @ log') = stored log @ stored log'"
  "\<not> gave_up i []" "gave_up i (log @ log') \<longleftrightarrow> gave_up i log \<or> gave_up i log'"
  "\<not> stuck []" "stuck (log @ log') \<longleftrightarrow> stuck log \<or> stuck log'"
  by (auto simp: handled_def stored_def gave_up_def stuck_def)

lemma not_stuck: "\<not> stuck log \<Longrightarrow> \<not> gave_up i log"
  by (auto simp: stuck_def gave_up_def list_ex_iff)

text \<open>\<open>event_runs env w0 n log w\<close>: \<open>n\<close> steps lead from \<open>w0\<close> to \<open>w\<close>, and \<open>log\<close> became of the packets.\<close>

inductive event_runs :: "kenv \<Rightarrow> world \<Rightarrow> nat \<Rightarrow> event list \<Rightarrow> world \<Rightarrow> bool" for env w0 where
  event_runs_0: "event_runs env w0 0 [] w0"
| event_runs_Suc: "event_runs env w0 n log w \<Longrightarrow> world_step env i w = Some (Inr w') \<Longrightarrow>
    event_runs env w0 (Suc n) (log @ happens w i w') w'"

section \<open>What all clients together keep\<close>

lemma enter_simps [simp]:
  "phase (enter w i) = phase (conns w ! i)" "packet (enter w i) = packet (conns w ! i)"
  "rest_of (enter w i) = rest_of (conns w ! i)" "kernel_of (enter w i) = shared w"
  "file_mutex (sess (enter w i)) = file_lock w" "at_hand (enter w i) = at_hand (conns w ! i)"
  "to_write (enter w i) = to_write (conns w ! i)" "holder (enter w i) = holder (conns w ! i)"
  "conn_ok gave (enter w i) = conn_ok gave (conns w ! i)" "weight q b (enter w i) = weight q b (conns w ! i)"
  "todo (enter w i) = todo (conns w ! i)"
  by (simp_all add: enter_def Let_def packet_def rest_of_def at_hand_def to_write_def holder_def conn_ok_def
      weight_def file_position_def cong: phase.case_cong)

lemma leave_simps [simp]:
  "shared (leave w i c) = kernel_of c" "file_lock (leave w i c) = file_mutex (sess c)"
  "conns (leave w i c) = (conns w)[i := c]"
  by (simp_all add: leave_def)

definition mutex_inv :: "bool \<Rightarrow> world \<Rightarrow> bool" where
  "mutex_inv gave w \<longleftrightarrow>
     (if gave then file_lock w \<and> (\<forall>i < length (conns w). \<not> holder (conns w ! i))
      else lock_inv (file_lock w) (conns w))"

definition pending_inv :: "world \<Rightarrow> bool" where
  "pending_inv w \<longleftrightarrow>
     (\<forall>i < length (conns w). phase (conns w ! i) = Newline \<longrightarrow> pending (shared w) = packet (conns w ! i)) \<and>
     ((\<forall>i < length (conns w). phase (conns w ! i) \<noteq> Newline) \<longrightarrow> pending (shared w) = [])"

definition log_inv :: "nat \<Rightarrow> event list \<Rightarrow> bool" where
  "log_inv n log \<longleftrightarrow> (\<forall>e \<in> set log. doer e < n \<and> NL \<notin> set (what e) \<and> (is_Stored e \<longleftrightarrow> \<not> seeks (what e)))"

text \<open>Every byte that arrived is in a packet that something became of, or still with its client.\<close>

definition accounted :: "bytes list \<Rightarrow> nat \<Rightarrow> event list \<Rightarrow> world \<Rightarrow> bool" where
  "accounted input i log w \<longleftrightarrow>
     (if gave_up i log then prefix (concat (map line (handled i log))) (concat input)
      else concat (map line (handled i log)) @ at_hand (conns w ! i) @ rest_of (conns w ! i) = concat input)"

definition world_inv :: "kenv \<Rightarrow> nat \<Rightarrow> bytes list \<Rightarrow> bytes list list \<Rightarrow> event list \<Rightarrow> world \<Rightarrow> bool" where
  "world_inv env b ls inputs log w \<longleftrightarrow>
     alloc_never_fails env \<and> dev_inv (shared w) \<and> mutex_inv (stuck log) w \<and> pending_inv w \<and>
     length (conns w) = length inputs \<and> (\<forall>i < length inputs. conn_ok (gave_up i log) (conns w ! i)) \<and>
     log_inv (length inputs) log \<and> lines (shared w) = fold push_line (map line (stored log)) ls \<and>
     (\<forall>i < length inputs. accounted (inputs ! i) i log w) \<and>
     stored_bytes (shared w) + sum_list (map to_write (conns w)) \<le> b \<and> b < 2 ^ 63"

text \<open>Nobody writes after a client has given up.\<close>

lemma world_turn:
  assumes inv: "world_inv env b ls inputs log w" and i: "i < length (conns w)"
  shows "turn_ok env b (gave_up i log) (enter w i)"
proof -
  have only: "phase (conns w ! j) \<noteq> Newline" if l: "phase (conns w ! i) = Locked" and j: "j < length (conns w)" for j
  proof
    assume n: "phase (conns w ! j) = Newline"
    have "lock_inv (file_lock w) (conns w)"
      using inv i holder_phases(1) [OF l] by (auto simp: world_inv_def mutex_inv_def split: if_splits)
    then have "i = j" using lock_inv_only [OF _ i j] l n by simp
    then show False using n l by simp
  qed
  have "to_write (conns w ! i) \<le> sum_list (map to_write (conns w))"
    using i by (intro member_le_sum_list) auto
  moreover have "holder (conns w ! i) \<or> gave_up i log \<Longrightarrow> file_lock w"
    using inv i not_stuck [of log i] by (auto simp: world_inv_def mutex_inv_def lock_inv_def split: if_splits)
  ultimately show ?thesis
    using inv i only by (auto simp: turn_ok_def world_inv_def pending_inv_def)
qed

lemma world_step_does:
  assumes inv: "world_inv env b ls inputs log w" and step: "world_step env i w = Some (Inr w')"
  obtains c' where "i < length (conns w)" and "w' = leave w i c'"
    and "client_step (char_file env) (enter w i) = Some (Inr c')"
    and "step_does q b (gave_up i log) (enter w i) c'"
proof -
  have i: "i < length (conns w)" using step by (auto simp: world_step_def split: if_splits)
  then obtain c' where c': "client_step (char_file env) (enter w i) = Some (Inr c')" "w' = leave w i c'"
    using step by (auto simp: world_step_def bind_res_Inr_iff)
  then show ?thesis using that [OF i] client_turn [OF world_turn [OF inv i], of q] by simp
qed

lemma happens_leave:
  "i < length (conns w) \<Longrightarrow> happens w i (leave w i c') =
     (case deed_of (phase (conns w ! i)) (phase c') of
        Nothing \<Rightarrow> []
      | Stores \<Rightarrow> [Stored i (packet (conns w ! i))]
      | Seeks \<Rightarrow> [Sought i (packet (conns w ! i))]
      | Gives_up \<Rightarrow> [Gave_up i (packet (conns w ! i))])"
  by (simp add: happens_def Let_def)

lemma happens_facts:
  assumes "i < length (conns w)"
  shows "handled j (happens w i (leave w i c')) =
      (if deed_of (phase (conns w ! i)) (phase c') = Nothing \<or> j \<noteq> i then [] else [packet (conns w ! i)])"
    and "stored (happens w i (leave w i c')) = (if phase (conns w ! i) = Newline then [packet (conns w ! i)] else [])"
    and "gave_up j (happens w i (leave w i c')) \<longleftrightarrow> j = i \<and> deed_of (phase (conns w ! i)) (phase c') = Gives_up"
    and "stuck (happens w i (leave w i c')) \<longleftrightarrow> deed_of (phase (conns w ! i)) (phase c') = Gives_up"
  using deed_of_phases(1) [of "phase (conns w ! i)" "phase c'"] unfolding happens_leave [OF assms]
  by (cases "deed_of (phase (conns w ! i)) (phase c')"; auto simp: handled_def stored_def gave_up_def stuck_def)+

lemma mutex_inv_leave:
  assumes inv: "mutex_inv gave w" and i: "i < length (conns w)" and does: "step_does q b g (enter w i) c'"
  shows "mutex_inv (gave \<or> deed_of (phase (conns w ! i)) (phase c') = Gives_up) (leave w i c')"
proof -
  let ?gives = "deed_of (phase (conns w ! i)) (phase c') = Gives_up"
  have mutex: "?gives \<or> holder (conns w ! i) = holder c' \<Longrightarrow> file_mutex (sess c') = file_lock w"
    "\<not> ?gives \<Longrightarrow> holder (conns w ! i) \<noteq> holder c' \<Longrightarrow> file_lock w = holder (conns w ! i) \<and> file_mutex (sess c') = holder c'"
    using step_doesD(12,13) [OF does] by simp_all
  show ?thesis
  proof (cases gave)
    case True
    then have free: "file_lock w" "\<forall>j < length (conns w). \<not> holder (conns w ! j)" using inv by (simp_all add: mutex_inv_def)
    then have h: "\<not> ?gives" "\<not> holder (conns w ! i)" using i holder_phases(1) by (auto simp: deed_of_phases)
    then have "\<not> holder c'" using mutex(2) free(1) by argo
    then have "file_mutex (sess c')" using mutex(1) free(1) h(2) by argo
    moreover have "\<not> holder ((conns w)[i := c'] ! j)" if "j < length (conns w)" for j
      using free(2) that \<open>\<not> holder c'\<close> by (cases "j = i") simp_all
    ultimately show ?thesis using True by (simp add: mutex_inv_def)
  next
    case False
    then have lock: "lock_inv (file_lock w) (conns w)" using inv by (simp add: mutex_inv_def)
    show ?thesis
    proof (cases ?gives)
      case True
      then have h: "holder (conns w ! i)" "\<not> holder c'" by (simp_all add: deed_of_phases holder_def)
      have "\<not> holder ((conns w)[i := c'] ! j)" if "j < length (conns w)" for j
        using lock_inv_only [OF lock i that h(1)] h(2) that by (cases "j = i") auto
      moreover have "file_lock w" using lock i h(1) unfolding lock_inv_def by blast
      then have "file_mutex (sess c')" using mutex(1) True by blast
      ultimately show ?thesis using True by (simp add: mutex_inv_def)
    next
      case no: False
      have "lock_inv (file_mutex (sess c')) ((conns w)[i := c'])"
        using lock i by (rule lock_inv_update) (use mutex no in blast)+
      then show ?thesis using False no by (simp add: mutex_inv_def)
    qed
  qed
qed

lemma pending_inv_leave:
  assumes lock: "mutex_inv gave w" and pend: "pending_inv w" and i: "i < length (conns w)"
    and does: "step_does q b g (enter w i) c'"
  shows "pending_inv (leave w i c')"
proof -
  let ?p = "phase (conns w ! i)"
  have alone: "phase (conns w ! j) \<noteq> Newline" if "j < length (conns w)" "j \<noteq> i" "holder (conns w ! i)" for j
    using lock that i lock_inv_only [of "file_lock w" "conns w" i j] holder_phases(2) [of "conns w ! j"]
    by (auto simp: mutex_inv_def split: if_splits)
  have does: "pending (kernel_of c') = (if ?p = Newline then [] else if phase c' = Newline then packet (conns w ! i) else pending (shared w))"
    "phase c' = Newline \<Longrightarrow> ?p = Locked \<and> packet c' = packet (conns w ! i)"
    using step_doesD(4,9) [OF does] by simp_all
  consider (newline) "?p = Newline" | (writes) "phase c' = Newline" "?p \<noteq> Newline"
    | (other) "?p \<noteq> Newline" "phase c' \<noteq> Newline" by blast
  then show ?thesis
  proof cases
    case newline
    then have "phase c' \<noteq> Newline" using does(2) by auto
    then show ?thesis using newline alone does(1) i by (auto simp: pending_inv_def nth_list_update)
  next
    case writes
    then have "holder (conns w ! i)" using does(2) by simp
    then show ?thesis using writes alone does i by (auto simp: pending_inv_def nth_list_update)
  next
    case other
    then show ?thesis using pend does i by (auto simp: pending_inv_def nth_list_update)
  qed
qed

lemma accounted_leave:
  assumes acc: "accounted input j log w" and i: "i < length (conns w)" and j: "j < length (conns w)"
    and ok: "conn_ok (gave_up i log) (conns w ! i)" and does: "step_does q b (gave_up i log) (enter w i) c'"
  shows "accounted input j (log @ happens w i (leave w i c')) (leave w i c')"
proof (cases "j = i")
  case False
  then show ?thesis using acc happens_facts [OF i] by (simp add: accounted_def)
next
  case True
  let ?c = "conns w ! i"
  let ?deed = "deed_of (phase ?c) (phase c')"
  note new = happens_facts(1,3) [OF i, where j = i and c' = c']
  show ?thesis
  proof (cases "gave_up i log")
    case gave: True
    then have "?deed = Nothing" using ok by (auto simp: conn_ok_def)
    then show ?thesis using gave acc True new by (simp add: accounted_def)
  next
    case gave: False
    show ?thesis
    proof (cases "?deed = Gives_up")
      case True
      then have "at_hand ?c = line (packet ?c)" by (simp add: deed_of_phases at_hand_def)
      then have "concat input = (concat (map line (handled i log)) @ line (packet ?c)) @ rest_of ?c"
        using gave acc \<open>j = i\<close> by (simp add: accounted_def)
      then show ?thesis using \<open>j = i\<close> new True by (simp add: accounted_def)
    next
      case False
      then have "(if ?deed = Nothing then [] else line (packet ?c)) @ at_hand c' @ rest_of c' = at_hand ?c @ rest_of ?c"
        using step_doesD(6) [OF does gave] by (simp cong: if_cong)
      then show ?thesis using gave acc \<open>j = i\<close> new False i by (auto simp: accounted_def)
    qed
  qed
qed

lemma world_inv_step:
  assumes inv: "world_inv env b ls inputs log w" and step: "world_step env i w = Some (Inr w')"
  shows "world_inv env b ls inputs (log @ happens w i w') w'"
    and "b \<le> q \<or> \<not> (phase (conns w ! i) = Locked \<and> seeks (packet (conns w ! i))) \<Longrightarrow>
      sum_list (map (weight q b) (conns w')) < sum_list (map (weight q b) (conns w))"
proof -
  obtain c' where i: "i < length (conns w)" and w': "w' = leave w i c'"
    and does: "step_does q b (gave_up i log) (enter w i) c'"
    using world_step_does [OF inv step, of q] by blast
  let ?c = "conns w ! i" and ?e = "happens w i w'"
  note new = happens_facts [OF i, where c' = c', folded w']
  let ?deed = "deed_of (phase ?c) (phase c')"
  show "sum_list (map (weight q b) (conns w')) < sum_list (map (weight q b) (conns w))"
    if "b \<le> q \<or> \<not> (phase ?c = Locked \<and> seeks (packet ?c))"
  proof -
    have "weight q b c' < weight q b ?c" using step_doesD(8) [OF does] that by simp
    then show ?thesis using sum_list_update_add [OF i, of "weight q b" c'] w' by simp
  qed
  have "stored_bytes (kernel_of c') + to_write c' \<le> stored_bytes (shared w) + to_write ?c"
    using step_doesD(7) [OF does] by simp
  then have "stored_bytes (shared w') + sum_list (map to_write (conns w')) \<le> b"
    using sum_list_update_add [OF i, of to_write c'] inv w' by (simp add: world_inv_def)
  moreover have "lines (shared w') = fold push_line (map line (stored (log @ ?e))) ls"
    unfolding log_simps new(2) using step_doesD(3) [OF does] inv by (simp add: world_inv_def w')
  moreover have "mutex_inv (stuck (log @ ?e)) w'"
    unfolding log_simps new(4) using mutex_inv_leave [OF _ i does, of "stuck log"] inv by (simp add: world_inv_def w')
  moreover have "pending_inv w'" using pending_inv_leave [OF _ _ i does] inv w' by (auto simp: world_inv_def)
  moreover have "conn_ok (gave_up j (log @ ?e)) (conns w' ! j)" if j: "j < length inputs" for j
    unfolding log_simps new(3) using step_doesD(1) [OF does] inv j i by (cases "j = i") (simp_all add: world_inv_def w')
  moreover have "log_inv (length inputs) (log @ ?e)"
    using step_doesD(10,11) [OF does] inv i unfolding w' happens_leave [OF i]
    by (cases ?deed) (auto simp: world_inv_def log_inv_def conn_ok_def)
  moreover have "accounted (inputs ! j) j (log @ ?e) w'" if "j < length inputs" for j
    using accounted_leave [OF _ i _ _ does, of "inputs ! j" j] inv that i w' by (simp add: world_inv_def)
  moreover have "dev_inv (shared w')" using step_doesD(2) [OF does] w' by simp
  ultimately show "world_inv env b ls inputs (log @ ?e) w'"
    using inv w' by (simp add: world_inv_def)
qed

section \<open>Runs\<close>

definition short_inputs :: "bytes list list \<Rightarrow> bool" where
  "short_inputs inputs \<longleftrightarrow> (\<forall>chunks \<in> set inputs. [] \<notin> set chunks \<and> short_from 0 (concat chunks))"

definition total_bytes :: "kernel \<Rightarrow> bytes list list \<Rightarrow> nat" where
  "total_bytes k inputs = stored_bytes k + sum_list (map (\<lambda>chunks. length (concat chunks)) inputs)"

text \<open>What is asked of the start.\<close>

definition sharing_ok :: "kenv \<Rightarrow> kernel \<Rightarrow> bytes list list \<Rightarrow> bool" where
  "sharing_ok env k inputs \<longleftrightarrow> alloc_never_fails env \<and> dev_inv k \<and> pending k = [] \<and>
     short_inputs inputs \<and> total_bytes k inputs < 2 ^ 63"

text \<open>
  A bound on the number of steps: the clients' bytes, the results of \<open>recv\<close>, and the longest file,
  which is read again after each seek command, so at most \<open>q\<close> more for each byte.
\<close>

definition most_steps_seeking :: "nat \<Rightarrow> kernel \<Rightarrow> bytes list list \<Rightarrow> nat" where
  "most_steps_seeking q k inputs =
     sum_list (map (\<lambda>chunks. (q + 6) * length (concat chunks) + length chunks + 1 + total_bytes k inputs) inputs)"

lemma start_inv:
  assumes "sharing_ok env k inputs"
  shows "world_inv env (total_bytes k inputs) (lines k) inputs [] (world_start k inputs)"
proof -
  have start: "conns (world_start k inputs) ! i
      = client_at Receiving [] (inputs ! i) (new_session False (open_char k))" if "i < length inputs" for i
    using that by (simp add: world_start_def)
  have "map to_write (conns (world_start k inputs)) = map (\<lambda>chunks. length (concat chunks)) inputs"
    by (simp add: world_start_def to_write_def at_hand_def packet_def rest_of_def new_session_def)
  then have "stored_bytes k + sum_list (map to_write (conns (world_start k inputs))) = total_bytes k inputs"
    by (simp add: total_bytes_def)
  moreover have "\<forall>i < length inputs. conn_ok False (conns (world_start k inputs) ! i)"
    using assms start
    by (auto simp: conn_ok_def sharing_ok_def short_inputs_def packet_def rest_of_def new_session_def)
  moreover have "length (conns (world_start k inputs)) = length inputs" by (simp add: world_start_def)
  moreover have "shared (world_start k inputs) = k" "\<not> file_lock (world_start k inputs)"
    by (simp_all add: world_start_def)
  ultimately show ?thesis
    using assms start
    by (auto simp: world_inv_def mutex_inv_def lock_inv_def pending_inv_def log_inv_def accounted_def sharing_ok_def
        holder_def at_hand_def packet_def rest_of_def new_session_def)
qed

text \<open>The packets of a client are the complete lines of its bytes.\<close>

lemma split_lines:
  "\<forall>p \<in> set ps. NL \<notin> set p \<Longrightarrow>
     split_cmds (concat (map line ps) @ r) = (map line ps @ fst (split_cmds r), snd (split_cmds r))"
  by (induction ps) (simp_all add: split_cmds_cmd line_def case_prod_unfold)

lemma handled_no_NL: "log_inv n log \<Longrightarrow> \<forall>p \<in> set (handled i log). NL \<notin> set p"
  by (auto simp: log_inv_def handled_def)

lemma world_inv_split:
  assumes inv: "world_inv env b ls inputs log w" and i: "i < length inputs" and stays: "\<not> gave_up i log"
    and quiet: "phase (conns w ! i) \<in> {Receiving, Sending, Closed}"
  shows "(map line (handled i log), packet (conns w ! i)) =
    split_cmds (take (length (concat (inputs ! i)) - length (rest_of (conns w ! i))) (concat (inputs ! i)))"
proof -
  let ?c = "conns w ! i"
  have ok: "conn_ok False ?c" using inv i stays by (auto simp: world_inv_def)
  then have hand: "at_hand ?c = packet ?c" "NL \<notin> set (packet ?c)"
    using quiet by (auto simp: at_hand_def conn_ok_def split: phase.splits)
  have "concat (inputs ! i) = (concat (map line (handled i log)) @ packet ?c) @ rest_of ?c"
    using inv i hand stays by (auto simp: world_inv_def accounted_def)
  moreover have "log_inv (length inputs) log" using inv by (simp add: world_inv_def)
  ultimately show ?thesis using split_lines [OF handled_no_NL] hand(2) by (simp add: split_cmds_none)
qed

text \<open>Whatever becomes of a packet, it is a line of what its client sent.\<close>

lemma event_line:
  assumes inv: "world_inv env b ls inputs log w" and e: "e \<in> set log"
  shows "doer e < length inputs" and "line (what e) \<in> set (fst (split_cmds (concat (inputs ! doer e))))"
proof -
  have log: "log_inv (length inputs) log" using inv by (simp add: world_inv_def)
  then show i: "doer e < length inputs" using e by (auto simp: log_inv_def)
  then have "accounted (inputs ! doer e) (doer e) log w" using inv by (simp add: world_inv_def)
  then obtain r where "concat (inputs ! doer e) = concat (map line (handled (doer e) log)) @ r"
    by (auto simp: accounted_def prefix_def split: if_splits) metis
  moreover have "what e \<in> set (handled (doer e) log)" using e by (auto simp: handled_def)
  ultimately show "line (what e) \<in> set (fst (split_cmds (concat (inputs ! doer e))))"
    using split_lines [OF handled_no_NL [OF log, of "doer e"], of r] by simp
qed

lemma locked_line:
  assumes inv: "world_inv env b ls inputs log w" and i: "i < length inputs" and p: "phase (conns w ! i) = Locked"
  shows "line (packet (conns w ! i)) \<in> set (fst (split_cmds (concat (inputs ! i))))"
proof -
  have log: "log_inv (length inputs) log" and ok: "conn_ok (gave_up i log) (conns w ! i)"
    using inv i by (simp_all add: world_inv_def)
  then have "\<not> gave_up i log" "NL \<notin> set (packet (conns w ! i))" using p by (auto simp: conn_ok_def)
  moreover have "accounted (inputs ! i) i log w" using inv i by (simp add: world_inv_def)
  ultimately show ?thesis
    using p split_lines [of "handled i log @ [packet (conns w ! i)]" "rest_of (conns w ! i)"] handled_no_NL [OF log, of i]
    by (auto simp: accounted_def at_hand_def)
qed

section \<open>Plain packets\<close>

definition plain_inputs :: "bytes list list \<Rightarrow> bool" where
  "plain_inputs inputs \<longleftrightarrow> (\<forall>chunks \<in> set inputs. [] \<notin> set chunks \<and> plain_from [] (concat chunks))"

lemma plain_inputs_short: "plain_inputs inputs \<Longrightarrow> short_inputs inputs"
  using plain_from_short [of "[]"] by (auto simp: plain_inputs_def short_inputs_def)

lemma plain_from_lines:
  "plain_from w bs \<Longrightarrow> NL \<notin> set w \<Longrightarrow> line p \<in> set (fst (split_cmds (w @ bs))) \<Longrightarrow> plain p"
proof (induction w bs rule: plain_from.induct)
  case (2 w b bs)
  then show ?case by (auto simp: split_cmds_cmd line_def case_prod_unfold split: if_splits)
qed (simp add: split_cmds_none)

lemma plain_input_line:
  "plain_inputs inputs \<Longrightarrow> i < length inputs \<Longrightarrow> line p \<in> set (fst (split_cmds (concat (inputs ! i)))) \<Longrightarrow> \<not> seeks p"
  using plain_from_lines [of "[]" "concat (inputs ! i)" p] plain_not_seeks by (auto simp: plain_inputs_def)

lemma plain_all_stored:
  assumes inv: "world_inv env b ls inputs log w" and plain: "plain_inputs inputs"
  shows "\<forall>e \<in> set log. is_Stored e" and "\<not> stuck log"
proof -
  show all: "\<forall>e \<in> set log. is_Stored e"
    using event_line [OF inv] plain_input_line [OF plain] inv by (auto simp: world_inv_def log_inv_def)
  have "\<not> (is_Stored e \<and> is_Gave_up e)" for e by (cases e) simp_all
  then show "\<not> stuck log" using all by (auto simp: stuck_def list_ex_iff)
qed

lemma event_runs_inv:
  assumes ok: "sharing_ok env k inputs" and "event_runs env (world_start k inputs) n log w"
    and q: "total_bytes k inputs \<le> q \<or> plain_inputs inputs"
  shows "world_inv env (total_bytes k inputs) (lines k) inputs log w \<and>
    sum_list (map (weight q (total_bytes k inputs)) (conns w)) + n \<le> most_steps_seeking q k inputs"
  using assms(2)
proof induction
  case event_runs_0
  have "sum_list (map (weight q (total_bytes k inputs)) (conns (world_start k inputs))) = most_steps_seeking q k inputs"
    by (simp add: world_start_def most_steps_seeking_def weight_def rest_of_def comp_def new_session_def)
  then show ?case using start_inv [OF ok] by simp
next
  case (event_runs_Suc n log w i w')
  then have inv: "world_inv env (total_bytes k inputs) (lines k) inputs log w" by simp
  have "total_bytes k inputs \<le> q \<or> \<not> (phase (conns w ! i) = Locked \<and> seeks (packet (conns w ! i)))"
  proof (cases "plain_inputs inputs")
    case True
    have "i < length inputs" using world_step_does [OF inv event_runs_Suc.hyps(2)] inv by (auto simp: world_inv_def)
    then show ?thesis using locked_line [OF inv] plain_input_line [OF True] by blast
  qed (use q in simp)
  from world_inv_step(2) [OF inv event_runs_Suc.hyps(2) this] world_inv_step(1) [OF inv event_runs_Suc.hyps(2)]
  show ?case using event_runs_Suc.IH by simp
qed

section \<open>Going on\<close>

text \<open>A client that has a packet and waits for the mutex.\<close>

definition waits :: "'s client \<Rightarrow> bool" where
  "waits c \<longleftrightarrow> phase c = Receiving \<and> (case todo c of [] \<Rightarrow> False | x # _ \<Rightarrow> x = NL)"

lemma world_faults:
  assumes inv: "world_inv env b ls inputs log w" and "world_step env i w = Some (Inl e)"
  shows "i < length inputs" and "gave_up i log \<or> phase (conns w ! i) = Locked \<and> seeks (packet (conns w ! i))"
proof -
  have i: "i < length (conns w)" using assms(2) by (auto simp: world_step_def split: if_splits)
  then show "i < length inputs" using inv by (simp add: world_inv_def)
  have "client_step (char_file env) (enter w i) = Some (Inl e)"
    using assms(2) i by (cases "client_step (char_file env) (enter w i)") (auto simp: world_step_def bind_res_def split: sum.splits)
  then show "gave_up i log \<or> phase (conns w ! i) = Locked \<and> seeks (packet (conns w ! i))"
    using client_turn [OF world_turn [OF inv i]] by simp
qed

lemma world_stops:
  assumes inv: "world_inv env b ls inputs log w" and none: "\<forall>i. world_step env i w = None" and c: "c \<in> set (conns w)"
  shows "phase c = Closed \<or> stuck log \<and> waits c"
proof -
  have at: "phase (conns w ! j) = Closed \<or> waits (conns w ! j) \<and> file_lock w" if "j < length (conns w)" for j
    using client_turn [OF world_turn [OF inv that]] spec [OF none, of j] that by (auto simp: world_step_def waits_def)
  show ?thesis
  proof (cases "stuck log")
    case True
    then show ?thesis using at c by (metis in_set_conv_nth)
  next
    case False
    then have "lock_inv (file_lock w) (conns w)" using inv by (simp add: world_inv_def mutex_inv_def)
    moreover have "\<not> (\<exists>j < length (conns w). holder (conns w ! j))" using at by (fastforce simp: holder_def waits_def)
    ultimately have "\<not> file_lock w" unfolding lock_inv_def by blast
    then show ?thesis using at c by (metis in_set_conv_nth)
  qed
qed

lemma plain_progress:
  assumes inv: "world_inv env b ls inputs log w" and plain: "plain_inputs inputs"
  shows "world_step env i w \<noteq> Some (Inl e)"
    and "(\<forall>i. world_step env i w = None) \<longleftrightarrow> (\<forall>c \<in> set (conns w). phase c = Closed)"
proof -
  note calm = plain_all_stored(2) [OF inv plain]
  show "world_step env i w \<noteq> Some (Inl e)"
    using world_faults [OF inv] not_stuck [OF calm] locked_line [OF inv] plain_input_line [OF plain] by blast
  have "world_step env i w = None" if "\<forall>c \<in> set (conns w). phase c = Closed" for i
    using that by (simp add: world_step_def client_step_def)
  then show "(\<forall>i. world_step env i w = None) \<longleftrightarrow> (\<forall>c \<in> set (conns w). phase c = Closed)"
    using world_stops [OF inv] calm by blast
qed

end
