(* ===== verification/Shared_Device.thy ===== *)
theory Shared_Device
  imports Device_World
begin

text \<open>
  Clients that share the char device and send plain packets: what is in the device after any
  interleaving of them, and that each ends.
\<close>

section \<open>Runs\<close>

text \<open>
  \<open>runs env w0 n log w\<close>: \<open>n\<close> steps lead from \<open>w0\<close> to \<open>w\<close>; \<open>log\<close> are the packets whose newline has
  been written, with the number of the client, in this order.
\<close>

definition logged :: "world \<Rightarrow> nat \<Rightarrow> (nat \<times> bytes) list" where
  "logged w i =
     (if phase (conns w ! i) = Newline then [(i, write_buffer (sess (conns w ! i)))] else [])"

inductive runs :: "kenv \<Rightarrow> world \<Rightarrow> nat \<Rightarrow> (nat \<times> bytes) list \<Rightarrow> world \<Rightarrow> bool" for env w0 where
  runs_0: "runs env w0 0 [] w0"
| runs_Suc: "runs env w0 n log w \<Longrightarrow> world_step env i w = Some (Inr w') \<Longrightarrow>
    runs env w0 (Suc n) (log @ logged w i) w'"

text \<open>The log of the packets that were written is a part of the log of all of them.\<close>

lemma runs_events:
  assumes "runs env w0 n log w"
  shows "\<exists>events. event_runs env w0 n events w \<and> log = map (\<lambda>e. (doer e, what e)) (filter is_Stored events)"
  using assms
proof induction
  case runs_0
  then show ?case using event_runs_0 by fastforce
next
  case (runs_Suc n log w i w')
  then obtain events where ev: "event_runs env w0 n events w" "log = map (\<lambda>e. (doer e, what e)) (filter is_Stored events)"
    by blast
  have "logged w i = map (\<lambda>e. (doer e, what e)) (filter is_Stored (happens w i w'))"
    using deed_of_phases(1) [of "phase (conns w ! i)" "phase (conns w' ! i)"]
    by (cases "deed_of (phase (conns w ! i)) (phase (conns w' ! i))") (simp_all add: logged_def happens_def Let_def packet_def)
  then show ?case using event_runs_Suc [OF ev(1) runs_Suc.hyps(2)] ev(2) by fastforce
qed

definition packets_of :: "nat \<Rightarrow> (nat \<times> bytes) list \<Rightarrow> bytes list" where
  "packets_of i log = map snd (filter (\<lambda>(j, _). j = i) log)"

lemma packets_of_events:
  assumes "\<forall>e \<in> set events. is_Stored e"
  shows "packets_of i (map (\<lambda>e. (doer e, what e)) (filter is_Stored events)) = handled i events"
    and "map (line \<circ> snd) (map (\<lambda>e. (doer e, what e)) (filter is_Stored events)) = map line (stored events)"
  using assms by (simp_all add: packets_of_def handled_def stored_def filter_map comp_def)

definition start_ok :: "kenv \<Rightarrow> kernel \<Rightarrow> bytes list list \<Rightarrow> bool" where
  "start_ok env k inputs \<longleftrightarrow> alloc_never_fails env \<and> dev_inv k \<and> pending k = [] \<and>
     plain_inputs inputs \<and> total_bytes k inputs < 2 ^ 63"

definition most_steps :: "kernel \<Rightarrow> bytes list list \<Rightarrow> nat" where
  "most_steps k inputs =
     sum_list (map (\<lambda>chunks. 6 * length (concat chunks) + length chunks + 1 + total_bytes k inputs) inputs)"

lemma start_okD:
  assumes "start_ok env k inputs"
  shows "plain_inputs inputs" and "sharing_ok env k inputs"
  using assms plain_inputs_short by (auto simp: start_ok_def sharing_ok_def)

lemma plain_runs_inv:
  assumes ok: "start_ok env k inputs" and run: "runs env (world_start k inputs) n log w"
  obtains events where "world_inv env (total_bytes k inputs) (lines k) inputs events w" and "\<not> stuck events"
    and "\<And>i. packets_of i log = handled i events" and "map (line \<circ> snd) log = map line (stored events)"
    and "n \<le> most_steps k inputs"
proof -
  obtain events where ev: "event_runs env (world_start k inputs) n events w"
      "log = map (\<lambda>e. (doer e, what e)) (filter is_Stored events)"
    using runs_events [OF run] by blast
  have inv: "world_inv env (total_bytes k inputs) (lines k) inputs events w \<and>
      sum_list (map (weight 0 (total_bytes k inputs)) (conns w)) + n \<le> most_steps_seeking 0 k inputs"
    using start_okD [OF ok] ev(1) by (intro event_runs_inv) simp_all
  then have "n \<le> most_steps k inputs" by (simp add: most_steps_seeking_def most_steps_def)
  moreover note stored = plain_all_stored [OF inv [THEN conjunct1] start_okD(1) [OF ok]]
  note packets = packets_of_events [OF stored(1), folded ev(2)]
  ultimately show ?thesis using that inv stored(2) packets by blast
qed

text \<open>Every run can be continued to an end.\<close>

lemma runs_to_end:
  assumes ok: "start_ok env k inputs" and "runs env (world_start k inputs) n log w"
  shows "\<exists>n' log' w'. runs env (world_start k inputs) n' log' w' \<and> (\<forall>c \<in> set (conns w'). phase c = Closed)"
  using assms(2)
proof (induction "most_steps k inputs - n" arbitrary: n log w rule: less_induct)
  case less
  obtain events where inv: "world_inv env (total_bytes k inputs) (lines k) inputs events w"
    using plain_runs_inv [OF ok less.prems] by blast
  note progress = plain_progress [OF inv start_okD(1) [OF ok]]
  show ?case
  proof (cases "\<forall>c \<in> set (conns w). phase c = Closed")
    case True
    then show ?thesis using less.prems by blast
  next
    case False
    then obtain i r where "world_step env i w = Some r" using progress(2) by (metis not_None_eq)
    then obtain w' where w': "world_step env i w = Some (Inr w')" using progress(1) by (cases r) auto
    have run: "runs env (world_start k inputs) (Suc n) (log @ logged w i) w'" using runs_Suc [OF less.prems w'] .
    then have "Suc n \<le> most_steps k inputs" using plain_runs_inv [OF ok run] by blast
    then have "most_steps k inputs - Suc n < most_steps k inputs - n" by simp
    then show ?thesis using less.hyps run by blast
  qed
qed

section \<open>Properties\<close>



text \<open>C6. Clients on one device: however the threads interleave, at most one of them is between
  taking and releasing the mutex of the data file; the device holds the last ten of its old
  commands and of the packets in the order in which their newlines were written, none of them
  mixed with another; and each client's packets are the lines of what it sent, in its order,
  up to the bytes it has taken.\<close>

theorem clients_share_device:
  assumes "start_ok env k inputs" and "runs env (world_start k inputs) n log w"
  shows "lines (shared w) = fold push_line (map (line \<circ> snd) log) (lines k) \<and>
    dev_inv (shared w) \<and>
    (\<forall>i < length inputs. \<forall>j < length inputs. holder (conns w ! i) \<longrightarrow> holder (conns w ! j) \<longrightarrow> i = j) \<and>
    (\<forall>i < length inputs. phase (conns w ! i) \<in> {Receiving, Sending, Closed} \<longrightarrow>
       (map line (packets_of i log), packet (conns w ! i)) =
         split_cmds (take (length (concat (inputs ! i)) - length (rest_of (conns w ! i))) (concat (inputs ! i))))"
proof -
  obtain events where inv: "world_inv env (total_bytes k inputs) (lines k) inputs events w" and calm: "\<not> stuck events"
      and log: "\<And>i. packets_of i log = handled i events" "map (line \<circ> snd) log = map line (stored events)"
    using plain_runs_inv [OF assms] by blast
  have "lock_inv (file_lock w) (conns w)" "length (conns w) = length inputs"
    using inv calm by (simp_all add: world_inv_def mutex_inv_def)
  then have "holder (conns w ! i) \<Longrightarrow> holder (conns w ! j) \<Longrightarrow> i < length inputs \<Longrightarrow> j < length inputs \<Longrightarrow> i = j" for i j
    using lock_inv_only by metis
  then show ?thesis using inv world_inv_split [OF inv] not_stuck [OF calm] log by (auto simp: world_inv_def)
qed

lemma two_clients_ok: "start_ok env0 kernel0 [[line ''x''], [line ''y'']]"
  by (simp add: start_ok_def plain_inputs_def total_bytes_def stored_bytes_def kernel0_inv line_def plain_def
      AESD_IOCTL_SEEKTO_def)

theorem clients_share_device_witness:
  "\<exists>n log w. runs env0 (world_start kernel0 [[line ''x''], [line ''y'']]) n log w \<and>
     packets_of 0 log = [''x''] \<and> packets_of 1 log = [''y''] \<and>
     lines (shared w) = fold push_line (map (line \<circ> snd) log) []"
proof -
  let ?in = "[[line ''x''], [line ''y'']]"
  obtain n log w where run: "runs env0 (world_start kernel0 ?in) n log w"
      and closed: "\<forall>c \<in> set (conns w). phase c = Closed"
    using runs_to_end [OF two_clients_ok runs_0] by blast
  obtain events where inv: "world_inv env0 (total_bytes kernel0 ?in) (lines kernel0) ?in events w" and calm: "\<not> stuck events"
    using plain_runs_inv [OF two_clients_ok run] by blast
  have len: "length (conns w) = 2" using inv by (simp add: world_inv_def)
  have "phase (conns w ! i) = Closed \<and> rest_of (conns w ! i) = []" if "i < 2" for i
  proof -
    have "conn_ok (gave_up i events) (conns w ! i)" using inv that by (simp add: world_inv_def)
    moreover have "phase (conns w ! i) = Closed" using closed len that by simp
    ultimately show ?thesis using not_stuck [OF calm, of i] by (simp add: conn_ok_def)
  qed
  then have "map line (packets_of i log) = fst (split_cmds (concat (?in ! i)))" if "i < 2" for i
    using clients_share_device [OF two_clients_ok run] that
    by (metis (no_types, lifting) fst_conv diff_zero insertCI length_Cons list.size(3) numeral_2_eq_2 take_all_iff order_refl)
  from this [of 0] this [of 1] have "packets_of 0 log = [''x'']" "packets_of 1 log = [''y'']"
    by (auto simp: line_def map_eq_Cons_conv)
  moreover have "lines (shared w) = fold push_line (map (line \<circ> snd) log) []"
    using clients_share_device [OF two_clients_ok run] by (simp add: kernel0_inv)
  ultimately show ?thesis using run by blast
qed

text \<open>C7. No interleaving faults, none gets stuck, and each ends: it can go on exactly as long as a
  client is not at its end, and the number of its steps is bounded by the bytes of the clients
  and of the device.\<close>

theorem clients_finish:
  assumes "start_ok env k inputs" and "runs env (world_start k inputs) n log w"
  shows "n \<le> most_steps k inputs \<and> (\<forall>i e. world_step env i w \<noteq> Some (Inl e)) \<and>
    ((\<forall>i. world_step env i w = None) \<longleftrightarrow> (\<forall>c \<in> set (conns w). phase c = Closed))"
proof -
  obtain events where inv: "world_inv env (total_bytes k inputs) (lines k) inputs events w"
      and n: "n \<le> most_steps k inputs"
    using plain_runs_inv [OF assms] by blast
  then show ?thesis using plain_progress [OF inv start_okD(1) [OF assms(1)]] by blast
qed

theorem clients_finish_witness:
  "\<exists>i. world_step env0 i (world_start kernel0 [[line ''x''], [line ''y'']]) \<noteq> None"
proof -
  have "\<exists>c \<in> set (conns (world_start kernel0 [[line ''x''], [line ''y'']])). phase c \<noteq> Closed"
    by (simp add: world_start_def)
  then show ?thesis using clients_finish [OF two_clients_ok runs_0] by blast
qed

end
