(* ===== verification/Server_Main.thy ===== *)
theory Server_Main
  imports Decimal_Text
begin

text \<open>
  The rest of \<open>server/aesdsocket.c\<close>: \<open>main\<close>, the start and the cleanup of the server, the timer, the
  loop that accepts connections, the signal handler and the daemon. The build switch
  \<open>USE_AESD_CHAR_DEVICE\<close> is part of the state. What the operating system answers is an argument of each function. Definitions only.
\<close>

section \<open>State\<close>

text \<open>
  The address list of \<open>getaddrinfo\<close>: not there, there, or freed. \<open>freeaddrinfo\<close> accepts the
  pointer the loader initialised to \<open>NULL\<close>.
\<close>

datatype addr_info = Addr_NULL | Addr_live | Addr_freed

text \<open>The timer, and the signals whose handler has been installed.\<close>

record timer =
  timer_created :: bool
  timer_armed :: bool
  handlers :: "int list"

definition no_timer :: timer where
  "no_timer = \<lparr>timer_created = False, timer_armed = False, handlers = []\<rparr>"

record server =
  use_char_device :: bool
  mgr :: manager
  open_fds :: "int list"
  server_socket_fd :: int
  server_address_info :: addr_info
  log_open :: bool
  joined :: "nat list"
  timer :: timer
  tmpdata_removed :: bool

definition closes :: "int \<Rightarrow> server \<Rightarrow> server" where
  "closes fd s = s\<lparr>open_fds := removeAll fd (open_fds s)\<rparr>"

definition opens :: "int \<Rightarrow> server \<Rightarrow> server" where
  "opens fd s = s\<lparr>open_fds := fd # open_fds s\<rparr>"

definition freeaddrinfo :: "server \<Rightarrow> server res" where
  "freeaddrinfo s =
     (case server_address_info s of
        Addr_NULL \<Rightarrow> Inr s
      | Addr_live \<Rightarrow> Inr (s\<lparr>server_address_info := Addr_freed\<rparr>)
      | Addr_freed \<Rightarrow> Inl Double_Free)"

section \<open>Start and cleanup\<close>

definition initialize_server :: "server \<Rightarrow> server" where
  "initialize_server s = s\<lparr>log_open := True, mgr := initialize_manager (mgr s)\<rparr>"

text \<open>\<open>ends\<close> says which threads come to their end; joining another one waits for ever.\<close>

definition cleanup_server :: "(nat \<Rightarrow> bool) \<Rightarrow> server \<Rightarrow> server res" where
  "cleanup_server ends s =
     bind_res (ended (thread_entry_freeall ends (mgr s) (joined s))) (\<lambda>(js, m).
     bind_res (freeaddrinfo (closes (server_socket_fd s) (s\<lparr>mgr := m, joined := js\<rparr>))) (\<lambda>s.
     Inr (s\<lparr>log_open := False, tmpdata_removed := (tmpdata_removed s \<or> \<not> use_char_device s)\<rparr>)))"

section \<open>Accepting connections\<close>

text \<open>
  The loop after each new connection: completed threads are joined, their data file is closed
  and their entry removed. The pointer to the next entry is read from the entry after that.
\<close>

partial_function (option) reap :: "(nat \<Rightarrow> bool) \<Rightarrow> ptr \<Rightarrow> server \<Rightarrow> server res option" where
  "reap ends cur s =
     (if cur = NULL then Some (Inr s)
      else
        case bind_res (get_entry (mgr s) cur) (\<lambda>e.
               if is_complete e then
                 if \<not> ends (thread_id e) then Inl Deadlock
                 else
                 let s = closes (tmpdata_fd e) (s\<lparr>joined := joined s @ [thread_id e]\<rparr>) in
                 bind_res (thread_entry_remove (thread_id e) (mgr s)) (\<lambda>(_, m). Inr (s\<lparr>mgr := m\<rparr>))
               else Inr s) of
          Inl e \<Rightarrow> Some (Inl e)
        | Inr s' \<Rightarrow>
            (case get_entry (mgr s') cur of
               Inl e \<Rightarrow> Some (Inl e)
             | Inr e \<Rightarrow> reap ends (entries e) s'))"

declare reap.simps [code]

text \<open>
  The address of a client. The code keeps it in a \<open>struct sockaddr\<close> of 16 bytes and gives
  \<open>inet_ntop\<close> the bytes from the fifth on: the four of an IPv4 address are there, but of the
  sixteen of an IPv6 address the last four would be behind the structure.
\<close>

datatype sockaddr = Inet4 u8 u8 u8 u8 | Inet6 bytes

definition inet_ntop :: "sockaddr \<Rightarrow> bytes res" where
  "inet_ntop addr =
     (case addr of
        Inet4 a b c d \<Rightarrow>
          Inr (dec (unat a) @ ''.'' @ dec (unat b) @ ''.'' @ dec (unat c) @ ''.'' @ dec (unat d))
      | Inet6 _ \<Rightarrow> Inl Out_Of_Bounds)"

text \<open>
  What the system answers in one round of the loop, and which threads go through
  \<open>thread_entry_markcomplete\<close>. \<open>pthread_create\<close> stores the new id; \<open>threads_end\<close> says which threads
  come to their end. \<open>marked\<close> are the ids of the threads that mark their entry after the last
  round and before the new entry is added to the list, in which case the thread of the new
  connection can be among them; \<open>marked_late\<close> are those that do it after that and before the loop
  over completed threads reaches their entry. Where nothing is added, the marks wait for the next
  round: nobody looks at them.
\<close>

record arrival =
  accept_rc :: int
  peer_addr :: sockaddr
  open_rc :: int
  pthread_rc :: int
  new_id :: nat
  threads_end :: "nat \<Rightarrow> bool"
  marked :: "nat list"
  marked_late :: "nat list"

fun mark_threads :: "nat list \<Rightarrow> manager \<Rightarrow> manager res" where
  "mark_threads [] m = Inr m"
| "mark_threads (t # ts) m = bind_res (thread_entry_markcomplete t m) (\<lambda>(_, m). mark_threads ts m)"

definition accept_one ::
  "(nat \<Rightarrow> bool) \<Rightarrow> kenv \<Rightarrow> arrival \<Rightarrow> server \<Rightarrow> server res" where
  "accept_one malloc_ok env a s =
     (let client_fd = accept_rc a in
      if client_fd = - 1 then Inr s
      else
        bind_res (inet_ntop (peer_addr a)) (\<lambda>client_ip.
        let s = opens client_fd s; tmpdata_client_fd = open_rc a in
        if tmpdata_client_fd = - 1 then Inr (closes client_fd s)
        else
          let s = opens tmpdata_client_fd s in
          bind_res (thread_entry_create malloc_ok env 0 client_ip client_fd tmpdata_client_fd (mgr s))
            (\<lambda>(new_connection, m).
          let s = s\<lparr>mgr := m\<rparr> in
          if new_connection = NULL then Inr s
          else if pthread_rc a \<noteq> 0 then
            bind_res (thread_entry_free new_connection (mgr s)) (\<lambda>(_, m).
            Inr (closes client_fd (s\<lparr>mgr := m\<rparr>)))
          else
            bind_res (get_entry (mgr s) new_connection) (\<lambda>e.
            bind_res (set_entry_at new_connection (e\<lparr>thread_id := new_id a\<rparr>) (mgr s)) (\<lambda>m.
            bind_res (mark_threads (marked a) m) (\<lambda>m.
            bind_res (thread_entry_add new_connection m) (\<lambda>(_, m).
            bind_res (mark_threads (marked_late a) m) (\<lambda>m.
            bind_res (thread_entry_printall m) (\<lambda>(_, m).
            ended (reap (threads_end a) (thread_manager m) (s\<lparr>mgr := m\<rparr>)))))))))))"

text \<open>The rounds of the loop, which has no exit.\<close>

fun accept_connections ::
  "(nat \<Rightarrow> bool) \<Rightarrow> kenv \<Rightarrow> arrival list \<Rightarrow> server \<Rightarrow> server res" where
  "accept_connections malloc_ok env [] s = Inr s"
| "accept_connections malloc_ok env (a # as) s =
     bind_res (accept_one malloc_ok env a s) (accept_connections malloc_ok env as)"

section \<open>The timer\<close>

abbreviation (input) "SIGINT \<equiv> (2 :: int)"
abbreviation (input) "SIGALRM \<equiv> (14 :: int)"
abbreviation (input) "SIGTERM \<equiv> (15 :: int)"

text \<open>\<open>sigaction\<close> comes after both calls of the timer, and only if both succeeded.\<close>

definition initialize_timer :: "int \<Rightarrow> int \<Rightarrow> timer \<Rightarrow> timer" where
  "initialize_timer timer_create_rc timer_settime_rc t =
     (if timer_create_rc = - 1 then t
      else
        let t = t\<lparr>timer_created := True\<rparr> in
        if timer_settime_rc = - 1 then t
        else t\<lparr>timer_armed := True, handlers := [SIGALRM, SIGINT, SIGTERM] @ handlers t\<rparr>)"

text \<open>What \<open>main\<close> does between the start of the daemon and the accepting loop.\<close>

definition start_timer :: "int \<Rightarrow> int \<Rightarrow> server \<Rightarrow> server" where
  "start_timer timer_create_rc timer_settime_rc s =
     (if \<not> use_char_device s
      then s\<lparr>timer := initialize_timer timer_create_rc timer_settime_rc (timer s)\<rparr> else s)"

section \<open>Signals\<close>

text \<open>How a function ends: it returns, or the process exits with a status.\<close>

datatype ending = Returns server | Exits int server

text \<open>
  With the char device \<open>append_timestamp\<close> does nothing. The other version leaves this state as it is,
  too; what it does to the data file and its mutex is in \<open>Timer\<close>.
\<close>

definition append_timestamp :: "server \<Rightarrow> server" where
  "append_timestamp s = s"

definition signal_handler :: "(nat \<Rightarrow> bool) \<Rightarrow> int \<Rightarrow> server \<Rightarrow> ending res" where
  "signal_handler ends sig s =
     (if sig = SIGALRM then Inr (Returns (append_timestamp s))
      else bind_res (cleanup_server ends s) (\<lambda>s. Inr (Exits 1 s)))"

text \<open>
  The kernel runs the handler of a signal; without one, these signals kill the process, which a
  shell reports as 128 and the number of the signal.
\<close>

definition deliver :: "(nat \<Rightarrow> bool) \<Rightarrow> int \<Rightarrow> server \<Rightarrow> ending res" where
  "deliver ends sig s =
     (if sig \<in> set (handlers (timer s)) then signal_handler ends sig s else Inr (Exits (128 + sig) s))"

section \<open>The daemon\<close>

text \<open>
  \<open>getopt(argc, argv, "d")\<close> until it returns -1, as the GNU C library does it: the letters of
  every argument that starts with \<open>-\<close>, up to an argument \<open>--\<close>; other arguments are passed over.
  The result is \<open>None\<close> if a letter is not \<open>d\<close>, else whether there was one.
\<close>

fun getopt_d :: "string list \<Rightarrow> bool \<Rightarrow> bool option" where
  "getopt_d [] is_daemon = Some is_daemon"
| "getopt_d (a # as) is_daemon =
     (if a = ''--'' then Some is_daemon
      else
        case a of
          CHR ''-'' # c # cs \<Rightarrow>
            if list_all (\<lambda>x. x = CHR ''d'') (c # cs) then getopt_d as True else None
        | _ \<Rightarrow> getopt_d as is_daemon)"

text \<open>
  \<open>fork1\<close> and \<open>fork2\<close> are what the two calls of \<open>fork\<close> return in the process that is followed.
  The status of \<open>exit(-1)\<close> is 255.
\<close>

definition start_daemon :: "(nat \<Rightarrow> bool) \<Rightarrow> string list \<Rightarrow> int \<Rightarrow> int \<Rightarrow> server \<Rightarrow> ending res" where
  "start_daemon ends args fork1 fork2 s =
     (case getopt_d args False of
        None \<Rightarrow> Inr (Exits 255 s)
      | Some False \<Rightarrow> Inr (Returns s)
      | Some True \<Rightarrow>
          if fork1 < 0 then bind_res (cleanup_server ends s) (\<lambda>s. Inr (Exits 1 s))
          else if fork1 \<noteq> 0 then Inr (Exits 0 s)
          else if fork2 < 0 then bind_res (cleanup_server ends s) (\<lambda>s. Inr (Exits 1 s))
          else if fork2 \<noteq> 0 then Inr (Exits 0 s)
          else Inr (Returns s))"

section \<open>main\<close>

record answers =
  getaddrinfo_rc :: int
  socket_rc :: int
  bind_rc :: int
  listen_rc :: int
  fork1_rc :: int
  fork2_rc :: int
  timer_create_rc :: int
  timer_settime_rc :: int
  live_threads_end :: "nat \<Rightarrow> bool"

text \<open>
  The labels at the end of \<open>main\<close>, each falling through to the next: the socket is closed, the
  addresses are freed, and \<open>cleanup_server\<close> does both again.
\<close>

definition exit_free_addrinfo_struct :: "(nat \<Rightarrow> bool) \<Rightarrow> server \<Rightarrow> ending res" where
  "exit_free_addrinfo_struct ends s =
     bind_res (freeaddrinfo s) (\<lambda>s. bind_res (cleanup_server ends s) (\<lambda>s. Inr (Exits 0 s)))"

definition exit_socket_bind :: "(nat \<Rightarrow> bool) \<Rightarrow> server \<Rightarrow> ending res" where
  "exit_socket_bind ends s = exit_free_addrinfo_struct ends (closes (server_socket_fd s) s)"

text \<open>
  \<open>main\<close> with the rounds of the accepting loop that have been made: \<open>Returns\<close> is a server that is
  still in the loop.
\<close>

definition server_main ::
  "(nat \<Rightarrow> bool) \<Rightarrow> kenv \<Rightarrow> string list \<Rightarrow> answers \<Rightarrow> arrival list \<Rightarrow> server \<Rightarrow> ending res" where
  "server_main malloc_ok env args os arrivals s =
     (let s = initialize_server s in
      if getaddrinfo_rc os \<noteq> 0 then exit_free_addrinfo_struct (live_threads_end os) s
      else
        let s = s\<lparr>server_address_info := Addr_live\<rparr> in
        if socket_rc os = - 1 then exit_free_addrinfo_struct (live_threads_end os) s
        else
          let s = opens (socket_rc os) (s\<lparr>server_socket_fd := socket_rc os\<rparr>) in
          if bind_rc os = - 1 then exit_socket_bind (live_threads_end os) s
          else if listen_rc os = - 1 then exit_socket_bind (live_threads_end os) s
          else
            bind_res (start_daemon (live_threads_end os) args (fork1_rc os) (fork2_rc os) s) (\<lambda>e.
            case e of
              Exits status s \<Rightarrow> Inr (Exits status s)
            | Returns s \<Rightarrow>
                bind_res (accept_connections malloc_ok env arrivals
                            (start_timer (timer_create_rc os) (timer_settime_rc os) s)) (\<lambda>s.
                Inr (Returns s))))"

end
