(* ===== verification/Plain_File.thy ===== *)
theory Plain_File
  imports Client_Theorems Server_Main
begin

text \<open>
  The other build of \<open>server/aesdsocket.c\<close>, with \<open>USE_AESD_CHAR_DEVICE\<close> 0: the data file is a plain
  file opened with \<open>O_APPEND\<close>, and a timer appends timestamps to it. What a client of this build
  gets back, what a timestamp looks like, and who handles the signals in the two builds.
\<close>

section \<open>A plain file\<close>

text \<open>
  \<open>write\<close> on a descriptor opened with \<open>O_APPEND\<close> first moves its offset to the end of the file. How
  many of the bytes are taken, or that the write fails and changes nothing, is the answer of the
  file system to the content of the file and the bytes; a disk that is full takes fewer or none.
  Writing no bytes to a regular file does nothing. \<open>read\<close> does not fail.
\<close>

type_synonym disk = "bytes \<Rightarrow> bytes \<Rightarrow> nat option"

definition whole :: disk where
  "whole _ d = Some (length d)"

record plain_file =
  file_bytes :: bytes
  offset :: nat

definition append_write :: "disk \<Rightarrow> bytes \<Rightarrow> plain_file \<Rightarrow> (int \<times> plain_file) res" where
  "append_write disk d f =
     (if d = [] then Inr (0, f)
      else
        case disk (file_bytes f) d of
          None \<Rightarrow> Inr (- 1, f)
        | Some n \<Rightarrow>
            (let bs = take n d in
             Inr (int (length bs), \<lparr>file_bytes = file_bytes f @ bs, offset = length (file_bytes f @ bs)\<rparr>)))"

definition plain_read :: "nat \<Rightarrow> plain_file \<Rightarrow> (int \<times> bytes \<times> plain_file) res" where
  "plain_read n f =
     (let bs = take n (drop (offset f) (file_bytes f)) in
      Inr (int (length bs), bs, f\<lparr>offset := offset f + length bs\<rparr>))"

text \<open>
  The system calls of this build, for a client that takes what it is sent: the file is opened with
  \<open>O_APPEND\<close>, the \<open>ioctl\<close> is compiled out. \<open>plain_ops\<close> are those with a disk that takes everything.
\<close>

definition plain_file_ops :: "disk \<Rightarrow> plain_file file_ops" where
  "plain_file_ops disk = \<lparr>USE_AESD_CHAR_DEVICE = False, sys_write = append_write disk, sys_read = plain_read,
     sys_ioctl = \<lambda>_ f. Inr (- 1, f),
     sys_send = \<lambda>_ bs. Some (length bs)\<rparr>"

definition plain_ops :: "plain_file file_ops" where
  "plain_ops = plain_file_ops whole"

lemma append_whole:
  "append_write whole d f =
     (if d = [] then Inr (0, f)
      else Inr (int (length d), \<lparr>file_bytes = file_bytes f @ d, offset = length (file_bytes f @ d)\<rparr>))"
  by (simp add: append_write_def whole_def)

lemma plain_ops_simps [simp]:
  "USE_AESD_CHAR_DEVICE (plain_file_ops disk) = False" "sys_write (plain_file_ops disk) = append_write disk"
  "sys_read (plain_file_ops disk) = plain_read" "sys_send (plain_file_ops disk) = (\<lambda>_ bs. Some (length bs))"
  by (simp_all add: plain_file_ops_def)

interpretation plain_src: whole_source "plain_file_ops disk" "\<lambda>_. True" file_bytes offset for disk
  by unfold_locales (auto simp: plain_read_def Let_def min_def)

section \<open>A connection in this build\<close>

text \<open>After every packet the offset is at the end of the file, so nothing is read back.\<close>

definition quiet :: "plain_file session \<Rightarrow> bool" where
  "quiet c \<longleftrightarrow> \<not> file_mutex c \<and> sent c = []"

lemma plain_packet:
  assumes "quiet c" and "length (write_buffer c) < BUFFER_SIZE"
  shows "\<exists>c'. packet_complete plain_ops c = Inr c' \<and> quiet c' \<and> write_buffer c' = [] \<and>
    file_bytes (tmpdata c') = file_bytes (tmpdata c) @ write_buffer c @ [NL]"
proof -
  let ?w = "write_buffer c"
  let ?f = "\<lparr>file_bytes = file_bytes (tmpdata c) @ ?w @ [NL], offset = length (file_bytes (tmpdata c) @ ?w @ [NL])\<rparr>"
  have "packet_to_file plain_ops (c\<lparr>file_mutex := True\<rparr>) = Inr (True, c\<lparr>file_mutex := True, tmpdata := ?f\<rparr>)"
    using assms(2) by (simp add: packet_to_file_def c_string_def plain_ops_def append_whole Let_def)
  moreover obtain f' where "send_file plain_ops ?f [] = Some (Inr (f', []))" "file_bytes f' = file_bytes ?f"
    using plain_src.send_file_all [of whole ?f "[]"] by (auto simp: plain_ops_def)
  ultimately show ?thesis
    using assms by (simp add: packet_complete_def quiet_def lock_file_def c_string_def ended_def Let_def)
qed

lemma plain_bytes:
  "quiet c \<Longrightarrow> short_from (length (write_buffer c)) (bs @ rest) \<Longrightarrow> NL \<notin> set (write_buffer c) \<Longrightarrow>
     \<exists>c'. handle_bytes plain_ops bs c = Inr c' \<and> quiet c' \<and> NL \<notin> set (write_buffer c') \<and>
       short_from (length (write_buffer c')) rest \<and>
       file_bytes (tmpdata c') = file_bytes (tmpdata c) @ concat (fst (split_cmds (write_buffer c @ bs))) \<and>
       write_buffer c' = snd (split_cmds (write_buffer c @ bs))"
proof (induction bs arbitrary: c)
  case Nil
  then show ?case by (simp add: split_cmds_none)
next
  case (Cons b bs)
  show ?case
  proof (cases "b = NL")
    case True
    obtain c' where c': "packet_complete plain_ops c = Inr c'" "quiet c'" "write_buffer c' = []"
        "file_bytes (tmpdata c') = file_bytes (tmpdata c) @ write_buffer c @ [NL]"
      using plain_packet [OF Cons.prems(1)] Cons.prems(2) True by auto
    then show ?thesis using Cons.IH [of c'] Cons.prems(2,3) True
      by (simp add: handle_byte_def split_cmds_cmd)
  next
    case False
    then show ?thesis
      using Cons.IH [of "c\<lparr>write_buffer := write_buffer c @ [b]\<rparr>"] Cons.prems
      by (simp add: handle_byte_def quiet_def)
  qed
qed

lemma plain_receive:
  "quiet c \<Longrightarrow> short_from (length (write_buffer c)) (concat chunks) \<Longrightarrow> NL \<notin> set (write_buffer c) \<Longrightarrow>
     [] \<notin> set chunks \<Longrightarrow>
     \<exists>c'. receive_loop plain_ops chunks c = Inr c' \<and> quiet c' \<and>
       file_bytes (tmpdata c') = file_bytes (tmpdata c) @ concat (fst (split_cmds (write_buffer c @ concat chunks))) \<and>
       write_buffer c' = snd (split_cmds (write_buffer c @ concat chunks))"
proof (induction chunks arbitrary: c)
  case Nil
  then show ?case by (simp add: split_cmds_none)
next
  case (Cons data rest)
  let ?c = "c\<lparr>read_buffer := data @ drop (length data) (read_buffer c)\<rparr>"
  have "quiet ?c" "short_from (length (write_buffer ?c)) (data @ concat rest)" "NL \<notin> set (write_buffer ?c)"
    using Cons.prems by (simp_all add: quiet_def)
  from plain_bytes [OF this] obtain c1 where
    c1: "handle_bytes plain_ops data ?c = Inr c1" "quiet c1" "NL \<notin> set (write_buffer c1)"
      "short_from (length (write_buffer c1)) (concat rest)"
      "file_bytes (tmpdata c1) = file_bytes (tmpdata c) @ concat (fst (split_cmds (write_buffer c @ data)))"
      "write_buffer c1 = snd (split_cmds (write_buffer c @ data))"
    by auto
  have "split_cmds (write_buffer c @ data @ concat rest) =
      (fst (split_cmds (write_buffer c @ data)) @ fst (split_cmds (write_buffer c1 @ concat rest)),
       snd (split_cmds (write_buffer c1 @ concat rest)))"
    using split_cmds_append [of "write_buffer c @ data" "concat rest"] c1(6) by (simp add: case_prod_unfold)
  then show ?case using Cons.IH [OF c1(2,4,3)] Cons.prems(4) c1(1,5) by auto
qed

text \<open>C36. A client of the build with a plain file gets nothing back: its complete packets, seek
  commands included, are appended to the file in their order, and as each write leaves the
  offset at the end of the file the loop that sends the file finds it empty. The comment in the
  handler says that the entire contents are sent.\<close>

theorem plain_file_no_reply:
  assumes "short_from 0 (concat chunks)" and "[] \<notin> set chunks"
  shows "\<exists>c. receive_loop plain_ops chunks (new_session False f) = Inr c \<and> \<not> file_mutex c \<and> sent c = [] \<and>
    file_bytes (tmpdata c) = file_bytes f @ concat (fst (split_cmds (concat chunks))) \<and>
    write_buffer c = snd (split_cmds (concat chunks))"
  using plain_receive [of "new_session False f" chunks] assms by (simp add: new_session_def quiet_def)

theorem plain_file_no_reply_witness:
  "\<exists>c. receive_loop plain_ops [''x'', ''y'' @ [NL] @ ''z''] (new_session False \<lparr>file_bytes = ''a'', offset = 0\<rparr>) = Inr c \<and>
     sent c = [] \<and> file_bytes (tmpdata c) = ''axy'' @ [NL]"
  using plain_file_no_reply [of "[''x'', ''y'' @ [NL] @ ''z'']" "\<lparr>file_bytes = ''a'', offset = 0\<rparr>"]
  by (auto simp del: receive_loop.simps)

end
