(* ===== verification/Thread_List.thy ===== *)
theory Thread_List
  imports Thread_Manager
begin

text \<open>
  The list the thread manager's pointers stand for, the invariant that ties the pointers to
  the store and to the strings, and what each operation does to the list.
\<close>

section \<open>View and invariant\<close>

text \<open>\<open>path st p bs\<close>: following \<open>entries\<close> from \<open>p\<close> visits the entries \<open>bs\<close> and ends with \<open>NULL\<close>.\<close>

fun path :: "store \<Rightarrow> ptr \<Rightarrow> nat list \<Rightarrow> bool" where
  "path st p [] \<longleftrightarrow> p = NULL"
| "path st p (b # bs) \<longleftrightarrow> p = Blk b \<and> (\<exists>e. st b = Some e \<and> path st (entries e) bs)"

definition entry_of :: "manager \<Rightarrow> nat \<Rightarrow> thread_entry_t" where
  "entry_of m b = the (entry_store m b)"

definition line_of :: "manager \<Rightarrow> nat \<Rightarrow> thread_line" where
  "line_of m b = (let e = entry_of m b in
     (thread_id e, takeWhile (\<lambda>c. c \<noteq> NUL) (contents (strings m) (client_ip e)),
      client_fd e, tmpdata_fd e, is_complete e))"

text \<open>
  \<open>bs\<close> are the entries of the list, \<open>ps\<close> those that have been created and not added yet. Every
  live entry is one of them, and every live string belongs to exactly one.
\<close>

definition manager_ok :: "manager \<Rightarrow> nat list \<Rightarrow> nat list \<Rightarrow> bool" where
  "manager_ok m bs ps \<longleftrightarrow>
     path (entry_store m) (thread_manager m) bs \<and>
     distinct (bs @ ps) \<and> set (bs @ ps) = dom (entry_store m) \<and>
     (\<forall>b \<in> dom (entry_store m). b < entry_count m) \<and>
     owns (strings m) (map (\<lambda>b. client_ip (entry_of m b)) (bs @ ps)) \<and>
     (\<forall>b \<in> dom (entry_store m). NUL \<in> set (contents (strings m) (client_ip (entry_of m b))))"

definition manager_inv :: "manager \<Rightarrow> nat list \<Rightarrow> nat list \<Rightarrow> bool" where
  "manager_inv m bs ps \<longleftrightarrow> manager_ok m bs ps \<and> \<not> manager_mutex m"

definition threads :: "manager \<Rightarrow> nat list \<Rightarrow> thread_line list" where
  "threads m bs = map (line_of m) bs"

lemma path_cong:
  "path st p bs \<Longrightarrow> (\<And>b. b \<in> set bs \<Longrightarrow> st' b = st b) \<Longrightarrow> path st' p bs"
  by (induction bs arbitrary: p) auto

lemma path_live: "path st p bs \<Longrightarrow> b \<in> set bs \<Longrightarrow> \<exists>e. st b = Some e"
  by (induction bs arbitrary: p) auto

lemma entry_of_get:
  "manager_ok m bs ps \<Longrightarrow> b \<in> set (bs @ ps) \<Longrightarrow> entry_store m b = Some (entry_of m b)"
  by (auto simp: manager_ok_def entry_of_def dom_def)

section \<open>Looking for an entry\<close>

lemma find_thread_path:
  "path (entry_store m) p bs \<Longrightarrow> find_thread m tid p =
     Some (Inr (case filter (\<lambda>b. thread_id (entry_of m b) = tid) bs of [] \<Rightarrow> NULL | b # _ \<Rightarrow> Blk b))"
proof (induction bs arbitrary: p)
  case Nil
  then show ?case by (subst find_thread.simps) simp
next
  case (Cons b bs)
  then obtain e where e: "p = Blk b" "entry_store m b = Some e" "path (entry_store m) (entries e) bs"
    by auto
  then show ?case using Cons.IH [OF e(3)] by (subst find_thread.simps) (simp add: entry_of_def)
qed

lemma find_prev_path:
  "path (entry_store m) p (xs @ a # b # ys) \<Longrightarrow> distinct (xs @ a # b # ys) \<Longrightarrow>
     find_prev m (Blk b) p = Some (Inr (Blk a))"
proof (induction xs arbitrary: p)
  case Nil
  then show ?case by (subst find_prev.simps) auto
next
  case (Cons x xs)
  then obtain e where e: "p = Blk x" "entry_store m x = Some e"
      "path (entry_store m) (entries e) (xs @ a # b # ys)" by auto
  have "entries e \<noteq> Blk b" using e(3) Cons.prems(2) by (cases xs) auto
  then show ?case using Cons.IH [OF e(3)] Cons.prems(2) e by (subst find_prev.simps) simp
qed

section \<open>Unlinking\<close>

lemma path_unlink:
  "path st p (xs @ a # b # ys) \<Longrightarrow> distinct (xs @ a # b # ys) \<Longrightarrow> st a = Some ea \<Longrightarrow> st b = Some eb \<Longrightarrow>
     path (st(a \<mapsto> ea\<lparr>entries := entries eb\<rparr>)) p (xs @ a # ys)"
proof (induction xs arbitrary: p)
  case Nil
  then have "path st (entries eb) ys" by auto
  then have "path (st(a \<mapsto> ea\<lparr>entries := entries eb\<rparr>)) (entries eb) ys"
    using Nil.prems(2) by (elim path_cong) auto
  then show ?case using Nil.prems by (auto simp del: fun_upd_apply simp: fun_upd_same)
qed auto

lemma SLIST_REMOVE_path:
  assumes "path (entry_store m) (thread_manager m) (xs @ b # ys)" and "distinct (xs @ b # ys)"
  shows "\<exists>m'. SLIST_REMOVE (Blk b) m = Inr m' \<and>
    path (entry_store m') (thread_manager m') (xs @ ys) \<and>
    strings m' = strings m \<and> entry_count m' = entry_count m \<and> manager_mutex m' = manager_mutex m \<and>
    dom (entry_store m') = dom (entry_store m) \<and> entry_store m' b = entry_store m b \<and>
    (\<forall>c. \<exists>p. entry_of m' c = (entry_of m c)\<lparr>entries := p\<rparr>)"
proof (cases xs rule: rev_cases)
  case Nil
  then obtain e where "thread_manager m = Blk b" "entry_store m b = Some e" "path (entry_store m) (entries e) ys"
    using assms(1) by auto
  moreover have "\<exists>p. e' = e'\<lparr>entries := p\<rparr>" for e' :: thread_entry_t
    by (rule exI [of _ "entries e'"]) simp
  ultimately show ?thesis using Nil by (simp add: SLIST_REMOVE_def entry_of_def)
next
  case (snoc zs a)
  have p: "path (entry_store m) (thread_manager m) (zs @ a # b # ys)" and d: "distinct (zs @ a # b # ys)"
    using assms snoc by simp_all
  obtain ea eb where e: "entry_store m a = Some ea" "entry_store m b = Some eb"
    using path_live [OF p, of a] path_live [OF p, of b] by auto
  have "thread_manager m \<noteq> Blk b" using p d by (cases zs) auto
  moreover have "a \<noteq> b" using d by auto
  moreover have "\<exists>p. e' = e'\<lparr>entries := p\<rparr>" for e' :: thread_entry_t
    by (rule exI [of _ "entries e'"]) simp
  ultimately show ?thesis
    using find_prev_path [OF p d] path_unlink [OF p d e] e snoc
    by (auto simp: SLIST_REMOVE_def entry_of_def)
qed

section \<open>The operations\<close>

text \<open>A change of the lock is no change of the list.\<close>

lemma manager_lock [simp]:
  "manager_ok (m\<lparr>manager_mutex := x\<rparr>) bs ps = manager_ok m bs ps"
  "line_of (m\<lparr>manager_mutex := x\<rparr>) b = line_of m b"
  "entry_of (m\<lparr>manager_mutex := x\<rparr>) b = entry_of m b"
  by (simp_all add: manager_ok_def line_of_def entry_of_def)

lemma unlock_lock: "manager_inv m bs ps \<Longrightarrow> lock_manager m = Inr (m\<lparr>manager_mutex := True\<rparr>)"
  by (simp add: manager_inv_def lock_manager_def)

text \<open>Freeing an entry that is in no list frees its string and itself, and nothing else.\<close>

lemma client_ip_block:
  assumes "manager_ok m bs ps" and "b \<in> set (bs @ ps)"
  obtains s bytes where "client_ip (entry_of m b) = Blk s" "blk (strings m) s = Some bytes" "NUL \<in> set bytes"
proof -
  let ?f = "\<lambda>b. client_ip (entry_of m b)"
  have own: "owns (strings m) (map ?f (bs @ ps))" and nul: "NUL \<in> set (contents (strings m) (?f b))"
    using assms unfolding manager_ok_def by blast+
  have "?f b \<in> set (map ?f (bs @ ps))" using assms(2) by auto
  then have "?f b \<in> Blk ` live (strings m)" using own by (simp only: owns_def)
  then obtain s bytes where "?f b = Blk s" "blk (strings m) s = Some bytes" by (auto simp: live_iff)
  with nul that show ?thesis by simp
qed

lemma free_detached:
  assumes ok: "manager_ok m bs (b # ps)"
  shows "\<exists>m'. thread_entry_free (Blk b) m = Inr (0, m') \<and> manager_ok m' bs ps \<and>
    (\<forall>c \<in> set (bs @ ps). line_of m' c = line_of m c) \<and> manager_mutex m' = manager_mutex m"
proof -
  let ?f = "\<lambda>b. client_ip (entry_of m b)"
  have get: "entry_store m b = Some (entry_of m b)" using entry_of_get [OF ok] by simp
  obtain s bytes where s: "?f b = Blk s" "blk (strings m) s = Some bytes"
    by (rule client_ip_block [OF ok, of b]) auto
  obtain h where h: "kfree (Blk s) (strings m) = Inr h" "blk h = (blk (strings m))(s := None)"
    using kfree_map [OF s(2)] by auto
  let ?m' = "m\<lparr>strings := h, entry_store := (entry_store m)(b := None)\<rparr>"
  have free: "thread_entry_free (Blk b) m = Inr (0, ?m')"
    using get s h by (simp add: thread_entry_free_def)
  have notin: "b \<notin> set (bs @ ps)" using ok by (auto simp: manager_ok_def)
  have same: "entry_of ?m' c = entry_of m c" if "c \<in> set (bs @ ps)" for c
    using that notin by (auto simp: entry_of_def)
  have own: "owns (strings m) (?f b # map ?f (bs @ ps))"
    using ok owns_move [of "strings m" "map ?f bs" "?f b"] by (simp add: manager_ok_def)
  have "?f b \<notin> ?f ` set (bs @ ps)"
    using own by (simp only: owns_def distinct.simps set_map not_False_eq_True)
  then have ne: "?f c \<noteq> Blk s" if "c \<in> set (bs @ ps)" for c
    using s(1) that by (metis imageI)
  have str: "contents h (?f c) = contents (strings m) (?f c)" if "c \<in> set (bs @ ps)" for c
    using ne [OF that] h(2) by (rule contents_upd)
  have "owns h (map ?f (bs @ ps))" using own s(1) h(2) by (auto intro: owns_free)
  then have "owns (strings ?m') (map (\<lambda>c. client_ip (entry_of ?m' c)) (bs @ ps))"
    using same by (simp cong: map_cong)
  moreover have "path (entry_store ?m') (thread_manager ?m') bs"
    using ok notin by (auto simp: manager_ok_def elim!: path_cong)
  moreover have dom: "dom (entry_store ?m') = set (bs @ ps)"
    using ok notin by (auto simp: manager_ok_def)
  moreover have "\<forall>c \<in> set (bs @ ps). NUL \<in> set (contents (strings ?m') (client_ip (entry_of ?m' c)))"
    using ok same str by (simp add: manager_ok_def) blast
  moreover have "distinct (bs @ ps)" "\<forall>c \<in> set (bs @ ps). c < entry_count ?m'"
    using ok by (auto simp: manager_ok_def)
  ultimately have "manager_ok ?m' bs ps" unfolding manager_ok_def by metis
  moreover have "\<forall>c \<in> set (bs @ ps). line_of ?m' c = line_of m c"
    using same str by (simp add: line_of_def Let_def)
  ultimately show ?thesis using free by (intro exI [of _ ?m']) simp
qed

text \<open>Taking an entry out of the list changes no entry but for the pointers between them.\<close>

lemma line_of_relinked:
  assumes "entry_of m' c = (entry_of m c)\<lparr>entries := p\<rparr>" and "strings m' = strings m"
  shows "line_of m' c = line_of m c" and "client_ip (entry_of m' c) = client_ip (entry_of m c)"
  using assms by (simp_all add: line_of_def Let_def)

lemma unlink_ok:
  assumes ok: "manager_ok m (xs @ b # ys) ps"
  shows "\<exists>m'. SLIST_REMOVE (Blk b) m = Inr m' \<and> manager_ok m' (xs @ ys) (b # ps) \<and>
    (\<forall>c. line_of m' c = line_of m c) \<and> manager_mutex m' = manager_mutex m"
proof -
  have "path (entry_store m) (thread_manager m) (xs @ b # ys)" "distinct (xs @ b # ys)"
    using ok by (auto simp: manager_ok_def)
  from SLIST_REMOVE_path [OF this] obtain m' where m': "SLIST_REMOVE (Blk b) m = Inr m'"
      "path (entry_store m') (thread_manager m') (xs @ ys)"
      "strings m' = strings m" "entry_count m' = entry_count m" "manager_mutex m' = manager_mutex m"
      "dom (entry_store m') = dom (entry_store m)"
    and rel: "\<And>c. \<exists>p. entry_of m' c = (entry_of m c)\<lparr>entries := p\<rparr>" by blast
  have line: "line_of m' c = line_of m c" "client_ip (entry_of m' c) = client_ip (entry_of m c)" for c
    using rel [of c] line_of_relinked [OF _ m'(3)] by blast+
  have set: "insert b (set (xs @ ys @ ps)) = set ((xs @ b # ys) @ ps)" by auto
  let ?f = "\<lambda>b. client_ip (entry_of m b)"
  have "owns (strings m) (map ?f ((xs @ ys) @ b # ps))"
    using ok owns_move [of "strings m" "map ?f xs" "?f b" "map ?f (ys @ ps)"]
      owns_move [of "strings m" "map ?f (xs @ ys)" "?f b" "map ?f ps"]
    by (simp add: manager_ok_def)
  then have "manager_ok m' (xs @ ys) (b # ps)"
    using ok m' line set by (auto simp: manager_ok_def)
  then show ?thesis using m' line(1) by blast
qed

definition first_with :: "nat \<Rightarrow> manager \<Rightarrow> nat list \<Rightarrow> nat list" where
  "first_with tid m bs = filter (\<lambda>b. thread_id (entry_of m b) = tid) bs"

lemma first_with_split:
  assumes "first_with tid m bs = b # r"
  shows "\<exists>xs ys. bs = xs @ b # ys \<and> thread_id (entry_of m b) = tid \<and> (\<forall>x \<in> set xs. thread_id (entry_of m x) \<noteq> tid)"
  using assms unfolding first_with_def filter_eq_Cons_iff by blast

lemma find_thread_ok:
  "manager_ok m bs ps \<Longrightarrow> find_thread m tid (thread_manager m) =
     Some (Inr (case first_with tid m bs of [] \<Rightarrow> NULL | b # _ \<Rightarrow> Blk b))"
  using find_thread_path [of m "thread_manager m" bs tid] by (simp add: manager_ok_def first_with_def)

lemma remove_found:
  assumes inv: "manager_inv m (xs @ b # ys) ps" and b: "thread_id (entry_of m b) = tid"
    and xs: "\<forall>x \<in> set xs. thread_id (entry_of m x) \<noteq> tid"
  shows "\<exists>m'. thread_entry_remove tid m = Inr (0, m') \<and> manager_inv m' (xs @ ys) ps \<and>
    (\<forall>c \<in> set (xs @ ys @ ps). line_of m' c = line_of m c)"
proof -
  let ?m = "m\<lparr>manager_mutex := True\<rparr>"
  have ok: "manager_ok ?m (xs @ b # ys) ps" using inv by (simp add: manager_inv_def)
  have "filter (\<lambda>b. thread_id (entry_of ?m b) = tid) xs = []" using xs by simp
  then have "first_with tid ?m (xs @ b # ys) = b # first_with tid ?m ys"
    using b by (simp add: first_with_def)
  then have find: "find_thread ?m tid (thread_manager ?m) = Some (Inr (Blk b))"
    using find_thread_ok [OF ok, of tid] by simp
  obtain m1 where 1: "SLIST_REMOVE (Blk b) ?m = Inr m1" "manager_ok m1 (xs @ ys) (b # ps)"
      "\<forall>c. line_of m1 c = line_of m c"
    using unlink_ok [OF ok] by auto
  obtain m2 where 2: "thread_entry_free (Blk b) m1 = Inr (0, m2)" "manager_ok m2 (xs @ ys) ps"
      "\<forall>c \<in> set ((xs @ ys) @ ps). line_of m2 c = line_of m1 c"
    using free_detached [OF 1(2)] by blast
  then show ?thesis
    using 1 find unlock_lock [OF inv]
    by (simp add: thread_entry_remove_def ended_def unlock_manager_def manager_inv_def)
qed

lemma remove_not_found:
  assumes inv: "manager_inv m bs ps" and none: "\<forall>x \<in> set bs. thread_id (entry_of m x) \<noteq> tid"
  shows "thread_entry_remove tid m = Inr (- 1, m)"
proof -
  let ?m = "m\<lparr>manager_mutex := True\<rparr>"
  have "manager_ok ?m bs ps" using inv by (simp add: manager_inv_def)
  moreover have "first_with tid ?m bs = []" using none by (simp add: first_with_def)
  ultimately have "find_thread ?m tid (thread_manager ?m) = Some (Inr NULL)"
    using find_thread_ok [of ?m bs ps tid] by simp
  moreover have "m\<lparr>manager_mutex := False\<rparr> = m" using inv by (simp add: manager_inv_def)
  ultimately show ?thesis
    using unlock_lock [OF inv] by (simp add: thread_entry_remove_def ended_def unlock_manager_def)
qed

lemma mark_not_found:
  assumes inv: "manager_inv m bs ps" and none: "\<forall>x \<in> set bs. thread_id (entry_of m x) \<noteq> tid"
  shows "thread_entry_markcomplete tid m = Inr (- 1, m)"
proof -
  let ?m = "m\<lparr>manager_mutex := True\<rparr>"
  have "manager_ok ?m bs ps" using inv by (simp add: manager_inv_def)
  moreover have "first_with tid ?m bs = []" using none by (simp add: first_with_def)
  ultimately have "find_thread ?m tid (thread_manager ?m) = Some (Inr NULL)"
    using find_thread_ok [of ?m bs ps tid] by simp
  moreover have "m\<lparr>manager_mutex := False\<rparr> = m" using inv by (simp add: manager_inv_def)
  ultimately show ?thesis
    using unlock_lock [OF inv] by (simp add: thread_entry_markcomplete_def ended_def unlock_manager_def)
qed

text \<open>An entry whose pointers and string stay can be overwritten.\<close>

lemma overwrite_ok:
  assumes ok: "manager_ok m bs ps" and b: "b \<in> set (bs @ ps)"
    and e: "entries e = entries (entry_of m b)" "client_ip e = client_ip (entry_of m b)"
  shows "manager_ok (m\<lparr>entry_store := (entry_store m)(b \<mapsto> e)\<rparr>) bs ps"
proof -
  let ?m' = "m\<lparr>entry_store := (entry_store m)(b \<mapsto> e)\<rparr>"
  have get: "entry_store m b = Some (entry_of m b)" using entry_of_get [OF ok b] .
  have "path ((entry_store m)(b \<mapsto> e)) p cs" if "path (entry_store m) p cs" for p cs
    using that get e(1) by (induction cs arbitrary: p) auto
  moreover have "client_ip (entry_of ?m' c) = client_ip (entry_of m c)" for c
    using e(2) by (simp add: entry_of_def)
  moreover have "dom (entry_store ?m') = dom (entry_store m)" using get by auto
  ultimately show ?thesis using ok by (auto simp: manager_ok_def)
qed

lemma mark_found:
  assumes inv: "manager_inv m (xs @ b # ys) ps" and b: "thread_id (entry_of m b) = tid"
    and xs: "\<forall>x \<in> set xs. thread_id (entry_of m x) \<noteq> tid"
  shows "\<exists>m'. thread_entry_markcomplete tid m = Inr (0, m') \<and> manager_inv m' (xs @ b # ys) ps \<and>
    (\<forall>c. line_of m' c = (if c = b then (case line_of m b of (i, ip, cf, tf, _) \<Rightarrow> (i, ip, cf, tf, True))
                         else line_of m c))"
proof -
  let ?m = "m\<lparr>manager_mutex := True\<rparr>" and ?e = "(entry_of m b)\<lparr>is_complete := True\<rparr>"
  have ok: "manager_ok ?m (xs @ b # ys) ps" using inv by (simp add: manager_inv_def)
  have "filter (\<lambda>b. thread_id (entry_of ?m b) = tid) xs = []" using xs by simp
  then have "first_with tid ?m (xs @ b # ys) = b # first_with tid ?m ys"
    using b by (simp add: first_with_def)
  then have find: "find_thread ?m tid (thread_manager ?m) = Some (Inr (Blk b))"
    using find_thread_ok [OF ok, of tid] by simp
  have get: "entry_store m b = Some (entry_of m b)" using entry_of_get [OF ok, of b] by simp
  let ?m1 = "?m\<lparr>entry_store := (entry_store ?m)(b \<mapsto> ?e)\<rparr>"
  have "manager_ok (m\<lparr>entry_store := (entry_store m)(b \<mapsto> ?e)\<rparr>) (xs @ b # ys) ps"
    using ok by (intro overwrite_ok) simp_all
  moreover have "thread_entry_markcomplete tid m = Inr (0, unlock_manager ?m1)"
    using find get unlock_lock [OF inv] by (simp add: thread_entry_markcomplete_def ended_def)
  moreover have "line_of (unlock_manager ?m1) c =
      (if c = b then (case line_of m b of (i, ip, cf, tf, _) \<Rightarrow> (i, ip, cf, tf, True)) else line_of m c)" for c
    by (simp add: line_of_def entry_of_def unlock_manager_def Let_def)
  ultimately show ?thesis
    by (intro exI [of _ "unlock_manager ?m1"]) (simp add: manager_inv_def unlock_manager_def)
qed

lemma add_ok:
  assumes inv: "manager_inv m bs (b # ps)"
  shows "\<exists>m'. thread_entry_add (Blk b) m = Inr (0, m') \<and> manager_inv m' (b # bs) ps \<and>
    (\<forall>c. line_of m' c = line_of m c)"
proof -
  have ok: "manager_ok m bs (b # ps)" using inv by (simp add: manager_inv_def)
  have get: "entry_store m b = Some (entry_of m b)" using entry_of_get [OF ok, of b] by simp
  let ?e = "(entry_of m b)\<lparr>entries := thread_manager m\<rparr>"
  let ?m' = "m\<lparr>entry_store := (entry_store m)(b \<mapsto> ?e), thread_manager := Blk b\<rparr>"
  have run: "thread_entry_add (Blk b) m = Inr (0, ?m'\<lparr>manager_mutex := False\<rparr>)"
    using unlock_lock [OF inv] get
    by (simp add: thread_entry_add_def SLIST_INSERT_HEAD_def unlock_manager_def)
  have "b \<notin> set bs" and tail: "path (entry_store m) (thread_manager m) bs"
    using ok by (auto simp: manager_ok_def)
  then have "path (entry_store ?m') (thread_manager m) bs"
    by (auto elim!: path_cong)
  then have "path (entry_store ?m') (Blk b) (b # bs)" by simp
  moreover have "client_ip (entry_of ?m' c) = client_ip (entry_of m c)" for c
    by (simp add: entry_of_def)
  moreover have "dom (entry_store ?m') = dom (entry_store m)" using get by auto
  moreover have "owns (strings m) (client_ip (entry_of m b) # map (\<lambda>c. client_ip (entry_of m c)) (bs @ ps))"
    using ok owns_move [of "strings m" "map (\<lambda>c. client_ip (entry_of m c)) bs"] by (simp add: manager_ok_def)
  moreover have "set ((b # bs) @ ps) = set (bs @ b # ps)" "distinct ((b # bs) @ ps)"
    using ok by (auto simp: manager_ok_def)
  ultimately have "manager_ok ?m' (b # bs) ps"
    using ok by (simp add: manager_ok_def)
  moreover have "line_of ?m' c = line_of m c" for c
    by (simp add: line_of_def entry_of_def Let_def)
  ultimately show ?thesis
    by (intro exI [of _ "?m'\<lparr>manager_mutex := False\<rparr>"]) (simp add: manager_inv_def run)
qed

lemma create_ok:
  assumes inv: "manager_inv m bs ps" and ok: "malloc_ok (entry_count m)"
    and env: "kmalloc_ok env (length (strings m))" and ip: "NUL \<notin> set ip"
  shows "\<exists>b m'. thread_entry_create malloc_ok env tid ip cfd tfd m = Inr (Blk b, m') \<and>
    manager_inv m' bs (b # ps) \<and> b \<notin> set (bs @ ps) \<and> line_of m' b = (tid, ip, cfd, tfd, False) \<and>
    (\<forall>c \<in> set (bs @ ps). line_of m' c = line_of m c)"
proof -
  let ?b = "entry_count m" and ?s = "length (strings m)"
  have mok: "manager_ok m bs ps" and unlocked: "\<not> manager_mutex m" using inv by (simp_all add: manager_inv_def)
  have fresh: "entry_store m ?b = None" using mok by (auto simp: manager_ok_def dom_def)
  let ?j = "map (kmalloc_junk env ?s) [0..<length ip + 1]"
  let ?h = "(strings m @ [Some ?j])[?s := Some (ip @ [NUL])]"
  let ?e = "\<lparr>thread_id = tid, client_ip = Blk ?s, client_fd = cfd, is_complete = False,
             entries = NULL, tmpdata_fd = tfd\<rparr>"
  let ?m' = "m\<lparr>entry_count := ?b + 1, strings := ?h, entry_store := (entry_store m)(?b \<mapsto> ?e)\<rparr>"
  have "store (Blk ?s) 0 (ip @ [NUL]) (strings m @ [Some ?j]) = Inr ?h"
    by (subst store_Blk [where bs = ?j]) auto
  then have run: "thread_entry_create malloc_ok env tid ip cfd tfd m = Inr (Blk ?b, ?m')"
    using ok env by (simp add: thread_entry_create_def kmalloc_ok_simp Let_def del: upt_Suc)
  have h: "blk ?h = (blk (strings m))(?s \<mapsto> ip @ [NUL])" by (auto simp: fun_eq_iff)
  have notin: "?b \<notin> set (bs @ ps)" using mok fresh by (auto simp: manager_ok_def)
  have same: "entry_of ?m' c = entry_of m c" if "c \<in> set (bs @ ps)" for c
    using that notin by (auto simp: entry_of_def)
  have new: "entry_of ?m' ?b = ?e" by (simp add: entry_of_def)
  let ?f = "\<lambda>b. client_ip (entry_of m b)"
  have ne: "?f c \<noteq> Blk ?s" if c: "c \<in> set (bs @ ps)" for c
    by (rule client_ip_block [OF mok c]) (auto dest: blk_SomeD)
  have str: "contents ?h (?f c) = contents (strings m) (?f c)" if "c \<in> set (bs @ ps)" for c
    using ne [OF that] h by (rule contents_upd)
  have "owns (strings m) (map ?f (bs @ ps))" using mok by (simp add: manager_ok_def)
  then have "owns ?h (Blk ?s # map ?f (bs @ ps))" using blk_length h by (rule owns_alloc)
  then have "owns ?h (map ?f bs @ Blk ?s # map ?f ps)" by (simp add: owns_move)
  then have own: "owns (strings ?m') (map (\<lambda>c. client_ip (entry_of ?m' c)) (bs @ ?b # ps))"
    using same new by (simp cong: map_cong)
  have dom: "dom (entry_store ?m') = set (bs @ ?b # ps)"
    using mok by (auto simp: manager_ok_def)
  have "\<forall>c \<in> set (bs @ ps). NUL \<in> set (contents ?h (?f c))"
    using mok str by (simp add: manager_ok_def)
  then have "\<forall>c \<in> set (bs @ ?b # ps). NUL \<in> set (contents (strings ?m') (client_ip (entry_of ?m' c)))"
    using same new h by auto
  moreover have "path (entry_store ?m') (thread_manager ?m') bs"
    by (rule path_cong [of "entry_store m"]) (use mok notin in \<open>auto simp: manager_ok_def\<close>)
  moreover have "distinct (bs @ ?b # ps)" "\<forall>c \<in> set (bs @ ?b # ps). c < entry_count ?m'"
    using mok notin by (auto simp: manager_ok_def less_Suc_eq)
  ultimately have "manager_ok ?m' bs (?b # ps)"
    unfolding manager_ok_def using own dom by metis
  moreover have "line_of ?m' ?b = (tid, ip, cfd, tfd, False)"
    using new h ip by (simp add: line_of_def Let_def takeWhile_terminated)
  moreover have "\<forall>c \<in> set (bs @ ps). line_of ?m' c = line_of m c"
    using same str by (simp add: line_of_def Let_def)
  ultimately show ?thesis
    using run notin unlocked by (intro exI [of _ ?b] exI [of _ ?m']) (simp add: manager_inv_def)
qed

text \<open>Either allocation may fail; then there is no entry, and what was allocated is freed.\<close>

lemma create_fails:
  assumes inv: "manager_inv m bs ps"
    and fail: "\<not> malloc_ok (entry_count m) \<or> \<not> kmalloc_ok env (length (strings m))"
  shows "\<exists>m'. thread_entry_create malloc_ok env tid ip cfd tfd m = Inr (NULL, m') \<and>
    manager_inv m' bs ps \<and> (\<forall>c. line_of m' c = line_of m c)"
proof -
  have mok: "manager_ok m bs ps" and unlocked: "\<not> manager_mutex m" using inv by (simp_all add: manager_inv_def)
  have count: "manager_ok (m\<lparr>entry_count := n\<rparr>) bs ps" if "entry_count m \<le> n" for n
    using mok that by (auto simp: manager_ok_def entry_of_def dom_def)
  show ?thesis
  proof (cases "malloc_ok (entry_count m)")
    case False
    then show ?thesis using count [of "entry_count m + 1"] unlocked
      by (intro exI [of _ "m\<lparr>entry_count := entry_count m + 1\<rparr>"])
        (simp add: thread_entry_create_def Let_def manager_inv_def line_of_def entry_of_def)
  next
    case True
    have fresh: "entry_store m (entry_count m) = None" using mok by (auto simp: manager_ok_def dom_def)
    let ?m' = "m\<lparr>entry_count := entry_count m + 1, strings := strings m @ [None]\<rparr>"
    have same: "blk (strings m @ [None]) = blk (strings m)" by (auto simp: fun_eq_iff blk_beyond)
    have "thread_entry_create malloc_ok env tid ip cfd tfd m = Inr (NULL, ?m')"
      using True fail fresh by (simp add: thread_entry_create_def kmalloc_def Let_def fun_upd_idem)
    moreover have "contents (strings m @ [None]) p = contents (strings m) p" for p
      using same by (rule contents_same)
    moreover have "owns (strings m @ [None]) ps' = owns (strings m) ps'" for ps'
      by (simp add: owns_def live_def same)
    ultimately show ?thesis using count [of "entry_count m + 1"] unlocked
      by (intro exI [of _ ?m'])
        (simp add: manager_inv_def manager_ok_def line_of_def entry_of_def Let_def)
  qed
qed

section \<open>All entries\<close>

lemma thread_id_line: "thread_id (entry_of m b) = fst (line_of m b)"
  by (simp add: line_of_def Let_def)

lemma head_of_list:
  "manager_inv m (b # bs) ps \<Longrightarrow> thread_manager m = Blk b \<and> get_entry m (Blk b) = Inr (entry_of m b)"
  by (auto simp: manager_inv_def manager_ok_def entry_of_def)

lemma freeall_ok:
  "manager_inv m bs ps \<Longrightarrow> \<forall>l \<in> set (threads m bs). ends (fst l) \<Longrightarrow> \<exists>m'. thread_entry_freeall ends m joined =
      Some (Inr (joined @ map fst (threads m bs), m')) \<and> manager_inv m' [] ps \<and>
    (\<forall>c \<in> set ps. line_of m' c = line_of m c)"
proof (induction bs arbitrary: m joined)
  case Nil
  then have "thread_manager m = NULL" by (simp add: manager_inv_def manager_ok_def)
  then show ?case using Nil by (subst thread_entry_freeall.simps) (simp add: threads_def)
next
  case (Cons b bs)
  let ?tid = "thread_id (entry_of m b)"
  obtain m1 where m1: "thread_entry_remove ?tid m = Inr (0, m1)" "manager_inv m1 bs ps"
      "\<forall>c \<in> set (bs @ ps). line_of m1 c = line_of m c"
    using remove_found [of m "[]" b bs ps ?tid] Cons.prems by auto
  have same: "threads m1 bs = threads m bs" using m1(3) by (simp add: threads_def)
  then have "\<forall>l \<in> set (threads m1 bs). ends (fst l)" using Cons.prems(2) by (simp add: threads_def)
  from Cons.IH [OF m1(2) this]
  obtain m' where m': "thread_entry_freeall ends m1 (joined @ [?tid]) =
        Some (Inr ((joined @ [?tid]) @ map fst (threads m1 bs), m'))" "manager_inv m' [] ps"
      "\<forall>c \<in> set ps. line_of m' c = line_of m1 c"
    by blast
  have "ends ?tid" using Cons.prems(2) by (simp add: threads_def thread_id_line)
  have "map fst (threads m (b # bs)) = ?tid # map fst (threads m1 bs)"
    using m1(3) by (simp add: threads_def thread_id_line)
  then show ?case
    using m' m1 head_of_list [OF Cons.prems(1)] \<open>ends ?tid\<close> by (subst thread_entry_freeall.simps) simp
qed

text \<open>One thread that does not end keeps it waiting for ever, and so does a mutex that is held.\<close>

lemma freeall_waits:
  "manager_inv m bs ps \<Longrightarrow> \<exists>l \<in> set (threads m bs). \<not> ends (fst l) \<Longrightarrow>
     thread_entry_freeall ends m joined = Some (Inl Deadlock)"
proof (induction bs arbitrary: m joined)
  case (Cons b bs)
  let ?tid = "thread_id (entry_of m b)"
  show ?case
  proof (cases "ends ?tid")
    case True
    obtain m1 where m1: "thread_entry_remove ?tid m = Inr (0, m1)" "manager_inv m1 bs ps"
        "\<forall>c \<in> set (bs @ ps). line_of m1 c = line_of m c"
      using remove_found [of m "[]" b bs ps ?tid] Cons.prems(1) by auto
    have "threads m1 bs = threads m bs" using m1(3) by (simp add: threads_def)
    then have "\<exists>l \<in> set (threads m1 bs). \<not> ends (fst l)"
      using Cons.prems(2) True by (auto simp: threads_def thread_id_line)
    from Cons.IH [OF m1(2) this] show ?thesis
      using m1(1) head_of_list [OF Cons.prems(1)] True by (subst thread_entry_freeall.simps) simp
  next
    case False
    then show ?thesis using head_of_list [OF Cons.prems(1)] by (subst thread_entry_freeall.simps) simp
  qed
qed (simp add: threads_def)

lemma freeall_locked:
  assumes "manager_mutex m" and "thread_manager m = Blk b" and "entry_store m b \<noteq> None"
  shows "thread_entry_freeall ends m joined = Some (Inl Deadlock)"
  using assms by (subst thread_entry_freeall.simps) (auto simp: thread_entry_remove_def lock_manager_def)

lemma print_ok:
  assumes ok: "manager_ok m bs ps" and b: "b \<in> set (bs @ ps)"
  shows "thread_entry_print (Blk b) m = Inr (line_of m b)"
proof -
  have "entry_store m b = Some (entry_of m b)" using ok b by (rule entry_of_get)
  then show ?thesis
    by - (rule client_ip_block [OF ok b],
      simp add: thread_entry_print_def c_text_def line_of_def Let_def)
qed

lemma print_from_path:
  assumes ok: "manager_ok m bs ps"
  shows "path (entry_store m) p cs \<Longrightarrow> set cs \<subseteq> set bs \<Longrightarrow>
    print_from m p out = Some (Inr (out @ threads m cs))"
proof (induction cs arbitrary: p out)
  case Nil
  then show ?case by (subst print_from.simps) (simp add: threads_def)
next
  case (Cons c cs)
  then have "thread_entry_print (Blk c) m = Inr (line_of m c)" using print_ok [OF ok, of c] by simp
  then show ?case using Cons by (subst print_from.simps) (auto simp: threads_def)
qed

lemma printall_ok:
  assumes inv: "manager_inv m bs ps"
  shows "thread_entry_printall m = Inr (threads m bs, m)"
proof -
  let ?m = "m\<lparr>manager_mutex := True\<rparr>"
  have ok: "manager_ok ?m bs ps" using inv by (simp add: manager_inv_def)
  then have "path (entry_store ?m) (thread_manager ?m) bs" by (simp add: manager_ok_def)
  then have "print_from ?m (thread_manager ?m) [] = Some (Inr (threads ?m bs))"
    using print_from_path [OF ok] by simp
  moreover have "threads ?m bs = threads m bs" by (simp add: threads_def)
  moreover have "m\<lparr>manager_mutex := False\<rparr> = m" using inv by (simp add: manager_inv_def)
  ultimately show ?thesis
    using unlock_lock [OF inv] by (simp add: thread_entry_printall_def ended_def unlock_manager_def)
qed

lemma init_manager_ok:
  "dom (entry_store m) = {} \<Longrightarrow> live (strings m) = {} \<Longrightarrow> \<not> manager_mutex m \<Longrightarrow>
     manager_inv (initialize_manager m) [] []"
  by (simp add: manager_inv_def manager_ok_def initialize_manager_def owns_Nil)

text \<open>An empty manager holds no memory.\<close>

lemma empty_manager: "manager_inv m [] [] \<Longrightarrow> dom (entry_store m) = {} \<and> live (strings m) = {}"
  by (simp add: manager_inv_def manager_ok_def owns_Nil)

section \<open>The list as an abstract object\<close>

text \<open>
  What the operations do, on the list of lines: removal and marking work on the first line
  with the id.
\<close>

fun remove_line :: "nat \<Rightarrow> thread_line list \<Rightarrow> thread_line list option" where
  "remove_line tid [] = None"
| "remove_line tid (l # ls) = (if fst l = tid then Some ls else map_option ((#) l) (remove_line tid ls))"

fun mark_line :: "nat \<Rightarrow> thread_line list \<Rightarrow> thread_line list option" where
  "mark_line tid [] = None"
| "mark_line tid ((i, ip, cf, tf, c) # ls) =
     (if i = tid then Some ((i, ip, cf, tf, True) # ls)
      else map_option ((#) (i, ip, cf, tf, c)) (mark_line tid ls))"

lemma remove_line_none: "\<forall>l \<in> set ls. fst l \<noteq> tid \<Longrightarrow> remove_line tid ls = None"
  by (induction ls) auto

lemma mark_line_none: "\<forall>l \<in> set ls. fst l \<noteq> tid \<Longrightarrow> mark_line tid ls = None"
  by (induction tid ls rule: mark_line.induct) auto

lemma remove_line_some:
  "\<forall>l \<in> set xs. fst l \<noteq> tid \<Longrightarrow> fst l = tid \<Longrightarrow> remove_line tid (xs @ l # ys) = Some (xs @ ys)"
  by (induction xs) auto

lemma mark_line_some:
  "\<forall>l \<in> set xs. fst l \<noteq> tid \<Longrightarrow>
     mark_line tid (xs @ (tid, ip, cf, tf, c) # ys) = Some (xs @ (tid, ip, cf, tf, True) # ys)"
  by (induction xs) (auto split: prod.splits)

lemma id_cases:
  obtains (none) "\<forall>x \<in> set bs. thread_id (entry_of m x) \<noteq> tid"
    | (found) xs b ys where "bs = xs @ b # ys" "thread_id (entry_of m b) = tid"
      "\<forall>x \<in> set xs. thread_id (entry_of m x) \<noteq> tid"
proof (cases "first_with tid m bs")
  case Nil
  then show ?thesis using none by (auto simp: first_with_def filter_empty_conv)
next
  case (Cons b r)
  then show ?thesis using found first_with_split by blast
qed

lemma remove_refines:
  assumes inv: "manager_inv m bs ps"
  shows "\<exists>r m' bs'. thread_entry_remove tid m = Inr (r, m') \<and> manager_inv m' bs' ps \<and>
    (\<forall>c \<in> set ps. line_of m' c = line_of m c) \<and>
    (case remove_line tid (threads m bs) of
       None \<Rightarrow> r = - 1 \<and> m' = m \<and> bs' = bs
     | Some ls \<Rightarrow> r = 0 \<and> threads m' bs' = ls)"
proof (cases bs m tid rule: id_cases)
  case none
  then have "remove_line tid (threads m bs) = None"
    by (intro remove_line_none) (simp add: threads_def thread_id_line)
  then show ?thesis using remove_not_found [OF inv none] inv by auto
next
  case (found xs b ys)
  have "remove_line tid (threads m bs) = Some (threads m xs @ threads m ys)"
    using found by (simp add: threads_def thread_id_line remove_line_some)
  moreover obtain m' where "thread_entry_remove tid m = Inr (0, m')" "manager_inv m' (xs @ ys) ps"
      "\<forall>c \<in> set (xs @ ys @ ps). line_of m' c = line_of m c"
    using remove_found [OF inv [unfolded found(1)] found(2,3)] by blast
  ultimately show ?thesis
    by (intro exI [of _ 0] exI [of _ m'] exI [of _ "xs @ ys"]) (simp add: threads_def)
qed

lemma mark_refines:
  assumes inv: "manager_inv m bs ps"
  shows "\<exists>r m'. thread_entry_markcomplete tid m = Inr (r, m') \<and> manager_inv m' bs ps \<and>
    (\<forall>c \<in> set ps. line_of m' c = line_of m c) \<and>
    (case mark_line tid (threads m bs) of
       None \<Rightarrow> r = - 1 \<and> m' = m
     | Some ls \<Rightarrow> r = 0 \<and> threads m' bs = ls)"
proof (cases bs m tid rule: id_cases)
  case none
  then have "mark_line tid (threads m bs) = None"
    by (intro mark_line_none) (simp add: threads_def thread_id_line)
  then show ?thesis using mark_not_found [OF inv none] inv by auto
next
  case (found xs b ys)
  obtain ip cf tf c where b: "line_of m b = (tid, ip, cf, tf, c)"
    using found(2) by (cases "line_of m b") (simp add: thread_id_line)
  have "mark_line tid (threads m bs) = Some (threads m xs @ (tid, ip, cf, tf, True) # threads m ys)"
    using found b by (simp add: threads_def thread_id_line mark_line_some)
  moreover obtain m' where m': "thread_entry_markcomplete tid m = Inr (0, m')" "manager_inv m' bs ps"
      "\<forall>c. line_of m' c = (if c = b then (tid, ip, cf, tf, True) else line_of m c)"
    using mark_found [OF inv [unfolded found(1)] found(2,3)] b found(1) by auto
  moreover have "b \<notin> set xs" "b \<notin> set ys"
    using inv found(1) by (auto simp: manager_inv_def manager_ok_def)
  then have "threads m' bs = threads m xs @ (tid, ip, cf, tf, True) # threads m ys"
    using m'(3) found(1) by (auto simp: threads_def)
  moreover have "\<forall>c \<in> set ps. line_of m' c = line_of m c"
    using m'(3) inv found(1) by (auto simp: manager_inv_def manager_ok_def)
  ultimately show ?thesis by (intro exI [of _ 0] exI [of _ m']) simp
qed

end
