(* ===== verification/Server_Theorems.thy ===== *)
theory Server_Theorems
  imports Server_Main Thread_List
begin

text \<open>
  The properties of the thread manager and of the server around it: what the list operations
  do, how a thread's entry is made and taken away, what the accepting loop does to completed
  threads, and how the server ends.
\<close>

section \<open>The loop over completed threads\<close>

definition completed :: "thread_line \<Rightarrow> bool" where
  "completed = (\<lambda>(_, _, _, _, c). c)"

lemma is_complete_line: "is_complete (entry_of m b) = completed (line_of m b)"
  by (simp add: completed_def line_of_def Let_def)

lemma reap_none:
  assumes ok: "manager_ok (mgr s) bs ps"
  shows "path (entry_store (mgr s)) p cs \<Longrightarrow> \<forall>c \<in> set cs. \<not> is_complete (entry_of (mgr s) c) \<Longrightarrow>
    reap ends p s = Some (Inr s)"
proof (induction cs arbitrary: p)
  case Nil
  then show ?case by (subst reap.simps) simp
next
  case (Cons c cs)
  then show ?case by (subst reap.simps) (auto simp: entry_of_def)
qed

lemma reap_completed:
  assumes inv: "manager_inv (mgr s) bs ps" and uniq: "distinct (map fst (threads (mgr s) bs))"
  shows "path (entry_store (mgr s)) p cs \<Longrightarrow> set cs \<subseteq> set bs \<Longrightarrow>
    \<exists>c \<in> set cs. is_complete (entry_of (mgr s) c) \<Longrightarrow>
    \<exists>e. reap ends p s = Some (Inl e) \<and>
      ((\<forall>c \<in> set cs. is_complete (entry_of (mgr s) c) \<longrightarrow> ends (thread_id (entry_of (mgr s) c))) \<longrightarrow> e = Use_After_Free)"
proof (induction cs arbitrary: p)
  case (Cons c cs)
  let ?m = "mgr s" and ?tid = "thread_id (entry_of (mgr s) c)"
  obtain e where e: "p = Blk c" "entry_store ?m c = Some e" "path (entry_store ?m) (entries e) cs"
    using Cons.prems(1) by auto
  then have entry: "entry_of ?m c = e" by (simp add: entry_of_def)
  show ?case
  proof (cases "is_complete e")
    case False
    then have "reap ends p s = reap ends (entries e) s" using e by (subst reap.simps) simp
    then show ?thesis using Cons.IH [OF e(3)] Cons.prems(2,3) False entry by auto
  next
    case True
    obtain xs ys where bs: "bs = xs @ c # ys" using Cons.prems(2) by (auto dest: split_list)
    have "fst (line_of ?m c) \<notin> fst ` line_of ?m ` set xs"
      using uniq by (simp add: bs threads_def image_image)
    then have "\<forall>x \<in> set xs. thread_id (entry_of ?m x) \<noteq> ?tid"
      unfolding thread_id_line by (metis imageI)
    from remove_found [OF inv [unfolded bs] refl this] obtain m' where
      m': "thread_entry_remove ?tid ?m = Inr (0, m')" "manager_inv m' (xs @ ys) ps" by blast
    have "c \<notin> set ((xs @ ys) @ ps)" using inv bs by (auto simp: manager_inv_def manager_ok_def)
    then have "entry_store m' c = None"
      using m'(2) unfolding manager_inv_def manager_ok_def by (metis domIff)
    then have "reap ends p s = Some (Inl (if ends ?tid then Use_After_Free else Deadlock))"
      using m'(1) True e entry by (subst reap.simps) (simp add: closes_def)
    then show ?thesis using True entry by auto
  qed
qed simp

section \<open>What the threads mark\<close>

definition mark_lines :: "nat list \<Rightarrow> thread_line list \<Rightarrow> thread_line list" where
  "mark_lines ts ls = fold (\<lambda>t ls. case mark_line t ls of None \<Rightarrow> ls | Some ls' \<Rightarrow> ls') ts ls"

lemma mark_lines_simps [simp]:
  "mark_lines [] ls = ls"
  "mark_lines (t # ts) ls = mark_lines ts (case mark_line t ls of None \<Rightarrow> ls | Some ls' \<Rightarrow> ls')"
  by (simp_all add: mark_lines_def)

lemma mark_threads_refines:
  "manager_inv m bs ps \<Longrightarrow>
     \<exists>m'. mark_threads ts m = Inr m' \<and> manager_inv m' bs ps \<and> (\<forall>c \<in> set ps. line_of m' c = line_of m c) \<and>
       threads m' bs = mark_lines ts (threads m bs)"
proof (induction ts arbitrary: m)
  case (Cons t ts)
  obtain r m1 where 1: "thread_entry_markcomplete t m = Inr (r, m1)" "manager_inv m1 bs ps"
      "\<forall>c \<in> set ps. line_of m1 c = line_of m c"
      "threads m1 bs = (case mark_line t (threads m bs) of None \<Rightarrow> threads m bs | Some ls \<Rightarrow> ls)"
    using mark_refines [OF Cons.prems, of t] by (auto split: option.splits)
  show ?case using Cons.IH [OF 1(2)] 1 by simp
qed simp

lemma mark_line_facts:
  "mark_line t ls = None \<longleftrightarrow> t \<notin> fst ` set ls"
  "mark_line t ls = Some ls' \<Longrightarrow> map fst ls' = map fst ls"
  "mark_line t ls = Some ls' \<Longrightarrow> list_ex completed ls'"
  "mark_line t ls = Some ls' \<Longrightarrow> l \<in> set ls' \<Longrightarrow> completed l \<Longrightarrow> l \<in> set ls \<or> fst l = t"
  "mark_line t ls = Some ls' \<Longrightarrow> l \<in> set ls \<Longrightarrow> fst l \<noteq> t \<Longrightarrow> l \<in> set ls'"
  by (induction t ls arbitrary: ls' rule: mark_line.induct) (auto simp: completed_def split: if_splits)

lemma mark_lines_ids [simp]: "map fst (mark_lines ts ls) = map fst ls" "fst ` set (mark_lines ts ls) = fst ` set ls"
proof -
  show "map fst (mark_lines ts ls) = map fst ls"
    by (induction ts arbitrary: ls) (auto simp: mark_line_facts(2) split: option.split)
  then show "fst ` set (mark_lines ts ls) = fst ` set ls" by (metis set_map)
qed

lemma mark_lines_completed:
  "list_ex completed (mark_lines ts ls) \<longleftrightarrow> list_ex completed ls \<or> set ts \<inter> fst ` set ls \<noteq> {}"
proof (induction ts arbitrary: ls)
  case (Cons t ts)
  show ?case
  proof (cases "mark_line t ls")
    case None
    then show ?thesis using Cons mark_line_facts(1) [of t ls] by auto
  next
    case (Some ls')
    moreover have "t \<in> fst ` set ls" using Some mark_line_facts(1) [of t ls] by auto
    ultimately show ?thesis using Cons mark_line_facts(3) [OF Some] by auto
  qed
qed simp

lemma mark_lines_by:
  "l \<in> set (mark_lines ts ls) \<Longrightarrow> completed l \<Longrightarrow> l \<in> set ls \<or> fst l \<in> set ts"
proof (induction ts arbitrary: ls)
  case (Cons t ts)
  then show ?case using mark_line_facts(4) [of t ls _ l] by (fastforce split: option.splits)
qed simp

lemma mark_lines_others: "l \<in> set ls \<Longrightarrow> fst l \<notin> set ts \<Longrightarrow> l \<in> set (mark_lines ts ls)"
proof (induction ts arbitrary: ls)
  case (Cons t ts)
  then show ?case using mark_line_facts(5) [of t ls _ l] by (fastforce split: option.splits)
qed simp

lemma mark_lines_none: "set ts \<inter> fst ` set ls = {} \<Longrightarrow> mark_lines ts ls = ls"
  by (induction ts) (auto simp: mark_line_facts(1) [THEN iffD2])

section \<open>One round of the accepting loop\<close>

text \<open>The text of an IPv4 address has no 0 byte and fits the buffer \<open>client_ip\<close>.\<close>

abbreviation (input) INET_ADDRSTRLEN :: nat where
  "INET_ADDRSTRLEN \<equiv> 16"

definition has_ipv4 :: "arrival \<Rightarrow> bool" where
  "has_ipv4 a \<longleftrightarrow> (case peer_addr a of Inet4 _ _ _ _ \<Rightarrow> True | Inet6 _ \<Rightarrow> False)"

definition peer_ip :: "arrival \<Rightarrow> bytes" where
  "peer_ip a = (case inet_ntop (peer_addr a) of Inr t \<Rightarrow> t | Inl _ \<Rightarrow> [])"

lemma peer_ipv4:
  assumes "has_ipv4 a"
  shows "inet_ntop (peer_addr a) = Inr (peer_ip a)" and "NUL \<notin> set (peer_ip a)"
    and "length (peer_ip a) < INET_ADDRSTRLEN"
proof -
  obtain w x y z where a: "peer_addr a = Inet4 w x y z"
    using assms by (auto simp: has_ipv4_def split: sockaddr.splits)
  have len: "length (dec (unat b)) \<le> 3" for b :: u8
    using length_dec [of "unat b" 2] unsigned_less [of b, where 'a = nat] by simp
  have "\<not> is_digit NUL" by (simp add: is_digit_def)
  then show "inet_ntop (peer_addr a) = Inr (peer_ip a)" "NUL \<notin> set (peer_ip a)"
    using dec_chars by (auto simp: a peer_ip_def inet_ntop_def)
  show "length (peer_ip a) < INET_ADDRSTRLEN"
    using len [of w] len [of x] len [of y] len [of z] by (simp add: a peer_ip_def inet_ntop_def)
qed

definition connects :: "arrival \<Rightarrow> bool" where
  "connects a \<longleftrightarrow> accept_rc a \<noteq> - 1 \<and> has_ipv4 a \<and> open_rc a \<noteq> - 1 \<and> pthread_rc a = 0"

text \<open>A connection is accepted, and no thread marks its entry in that round.\<close>

definition accepted :: "arrival \<Rightarrow> bool" where
  "accepted a \<longleftrightarrow> connects a \<and> marked a = [] \<and> marked_late a = []"

text \<open>What the list shows of a connection whose thread runs, and the list before the loop over completed threads.\<close>

definition running_line :: "arrival \<Rightarrow> thread_line" where
  "running_line a = (new_id a, peer_ip a, accept_rc a, open_rc a, False)"

definition round_lines :: "arrival \<Rightarrow> thread_line list \<Rightarrow> thread_line list" where
  "round_lines a ls = mark_lines (marked_late a) (running_line a # mark_lines (marked a) ls)"

lemma running_line_simps [simp]: "fst (running_line a) = new_id a" "\<not> completed (running_line a)"
  by (simp_all add: running_line_def completed_def)

lemma round_lines_ids [simp]: "map fst (round_lines a ls) = new_id a # map fst ls"
  "fst ` set (round_lines a ls) = insert (new_id a) (fst ` set ls)"
  by (simp_all add: round_lines_def)

lemma round_lines_completed:
  "list_ex completed (round_lines a ls) \<longleftrightarrow> list_ex completed ls \<or>
     set (marked a) \<inter> fst ` set ls \<noteq> {} \<or> set (marked_late a) \<inter> insert (new_id a) (fst ` set ls) \<noteq> {}"
  by (simp add: round_lines_def mark_lines_completed)

lemma round_lines_by:
  "l \<in> set (round_lines a ls) \<Longrightarrow> completed l \<Longrightarrow> l \<in> set ls \<or> fst l \<in> set (marked a) \<union> set (marked_late a)"
  using mark_lines_by [of l "marked_late a" "running_line a # mark_lines (marked a) ls"] mark_lines_by [of l "marked a" ls]
  by (auto simp: round_lines_def)

lemma round_lines_others:
  "l \<in> set ls \<Longrightarrow> fst l \<notin> set (marked a) \<union> set (marked_late a) \<Longrightarrow> l \<in> set (round_lines a ls)"
  "new_id a \<notin> set (marked_late a) \<Longrightarrow> running_line a \<in> set (round_lines a ls)"
  by (simp_all add: round_lines_def mark_lines_others)

lemma round_lines_idle:
  "set (marked a) \<inter> fst ` set ls = {} \<Longrightarrow> set (marked_late a) \<inter> insert (new_id a) (fst ` set ls) = {} \<Longrightarrow>
     round_lines a ls = running_line a # ls"
  by (simp add: round_lines_def mark_lines_none)

lemma accept_registers:
  assumes inv: "manager_inv (mgr s) bs []" and a: "connects a"
    and mem: "malloc_ok (entry_count (mgr s))" "kmalloc_ok env (length (strings (mgr s)))"
  shows "\<exists>b m. manager_inv m (b # bs) [] \<and> threads m (b # bs) = round_lines a (threads (mgr s) bs) \<and>
    accept_one malloc_ok env a s =
      ended (reap (threads_end a) (thread_manager m) (s\<lparr>open_fds := open_rc a # accept_rc a # open_fds s, mgr := m\<rparr>))"
proof -
  have ip: "NUL \<notin> set (peer_ip a)" and ntop: "inet_ntop (peer_addr a) = Inr (peer_ip a)"
    using a by (simp_all add: connects_def peer_ipv4)
  obtain b m1 where 1: "thread_entry_create malloc_ok env 0 (peer_ip a) (accept_rc a) (open_rc a) (mgr s) = Inr (Blk b, m1)"
      "manager_inv m1 bs [b]" "b \<notin> set bs" "line_of m1 b = (0, peer_ip a, accept_rc a, open_rc a, False)"
      "\<forall>c \<in> set bs. line_of m1 c = line_of (mgr s) c"
    using create_ok [where malloc_ok = malloc_ok and tid = 0 and cfd = "accept_rc a" and tfd = "open_rc a", OF inv mem ip]
    by auto
  have ok1: "manager_ok m1 bs [b]" using 1(2) by (simp add: manager_inv_def)
  have get: "entry_store m1 b = Some (entry_of m1 b)" using entry_of_get [OF ok1, of b] by simp
  let ?e = "(entry_of m1 b)\<lparr>thread_id := new_id a\<rparr>"
  let ?m2 = "m1\<lparr>entry_store := (entry_store m1)(b \<mapsto> ?e)\<rparr>"
  have "manager_ok ?m2 bs [b]" by (rule overwrite_ok [OF ok1]) simp_all
  then have inv2: "manager_inv ?m2 bs [b]" using 1(2) by (simp add: manager_inv_def)
  have new: "line_of ?m2 b = running_line a"
    using 1(4) by (simp add: line_of_def entry_of_def running_line_def Let_def)
  moreover have "line_of ?m2 c = line_of m1 c" if "c \<in> set bs" for c
    using that 1(3) by (auto simp: line_of_def entry_of_def)
  then have lines: "threads ?m2 bs = threads (mgr s) bs" using 1(5) by (simp add: threads_def)
  moreover obtain m3 where 3: "mark_threads (marked a) ?m2 = Inr m3" "manager_inv m3 bs [b]"
      "line_of m3 b = line_of ?m2 b" "threads m3 bs = mark_lines (marked a) (threads ?m2 bs)"
    using mark_threads_refines [OF inv2, of "marked a"] by auto
  moreover obtain m4 where 4: "thread_entry_add (Blk b) m3 = Inr (0, m4)" "manager_inv m4 (b # bs) []"
      "\<forall>c. line_of m4 c = line_of m3 c"
    using add_ok [OF 3(2)] by blast
  moreover obtain m5 where 5: "mark_threads (marked_late a) m4 = Inr m5" "manager_inv m5 (b # bs) []"
      "threads m5 (b # bs) = mark_lines (marked_late a) (threads m4 (b # bs))"
    using mark_threads_refines [OF 4(2), of "marked_late a"] by auto
  moreover have "threads m4 (b # bs) = line_of m3 b # threads m3 bs" using 4(3) by (simp add: threads_def)
  ultimately have "threads m5 (b # bs) = round_lines a (threads (mgr s) bs)"
    by (simp add: round_lines_def)
  moreover have "accept_one malloc_ok env a s =
      ended (reap (threads_end a) (thread_manager m5) (s\<lparr>open_fds := open_rc a # accept_rc a # open_fds s, mgr := m5\<rparr>))"
    using a ntop 1(1) get 3(1) 4(1) 5(1) printall_ok [OF 5(2)]
    by (simp add: accept_one_def connects_def opens_def Let_def)
  ultimately show ?thesis using 5(2) by blast
qed

text \<open>A round with a completed thread does not return; one without registers the new thread.\<close>

lemma accept_completed:
  assumes inv: "manager_inv (mgr s) bs []" and a: "connects a"
    and mem: "malloc_ok (entry_count (mgr s))" "kmalloc_ok env (length (strings (mgr s)))"
    and uniq: "distinct (new_id a # map fst (threads (mgr s) bs))"
    and some: "list_ex completed (round_lines a (threads (mgr s) bs))"
  shows "\<exists>e. accept_one malloc_ok env a s = Inl e \<and>
    ((\<forall>l \<in> set (round_lines a (threads (mgr s) bs)). completed l \<longrightarrow> threads_end a (fst l)) \<longrightarrow> e = Use_After_Free)"
proof -
  obtain b m where m: "manager_inv m (b # bs) []" "threads m (b # bs) = round_lines a (threads (mgr s) bs)"
    and run: "accept_one malloc_ok env a s =
      ended (reap (threads_end a) (thread_manager m) (s\<lparr>open_fds := open_rc a # accept_rc a # open_fds s, mgr := m\<rparr>))"
    using accept_registers [where malloc_ok = malloc_ok, OF inv a mem] by blast
  let ?s = "s\<lparr>open_fds := open_rc a # accept_rc a # open_fds s, mgr := m\<rparr>"
  have inv: "manager_inv (mgr ?s) (b # bs) []" using m(1) by simp
  have uniq: "distinct (map fst (threads (mgr ?s) (b # bs)))" using m(2) uniq by simp
  have "\<exists>c \<in> set (b # bs). is_complete (entry_of (mgr ?s) c)"
    using some unfolding m(2) [symmetric] by (auto simp: threads_def is_complete_line list_ex_iff)
  moreover have "path (entry_store (mgr ?s)) (thread_manager m) (b # bs)"
    using m(1) by (simp add: manager_inv_def manager_ok_def)
  moreover have "\<forall>c \<in> set (b # bs). is_complete (entry_of (mgr ?s) c) \<longrightarrow> threads_end a (thread_id (entry_of (mgr ?s) c))"
    if "\<forall>l \<in> set (threads m (b # bs)). completed l \<longrightarrow> threads_end a (fst l)"
    using that by (simp add: threads_def thread_id_line is_complete_line)
  ultimately show ?thesis
    using reap_completed [OF inv uniq, of "thread_manager m" "b # bs" "threads_end a"] run m(2) by (auto simp: ended_def)
qed

lemma accept_not_completed:
  assumes inv: "manager_inv (mgr s) bs []" and a: "connects a"
    and mem: "malloc_ok (entry_count (mgr s))" "kmalloc_ok env (length (strings (mgr s)))"
    and none: "\<not> list_ex completed (round_lines a (threads (mgr s) bs))"
  shows "\<exists>s' b. accept_one malloc_ok env a s = Inr s' \<and> manager_inv (mgr s') (b # bs) [] \<and>
    threads (mgr s') (b # bs) = running_line a # threads (mgr s) bs \<and>
    s' = s\<lparr>open_fds := open_rc a # accept_rc a # open_fds s, mgr := mgr s'\<rparr>"
proof -
  obtain b m where m: "manager_inv m (b # bs) []" "threads m (b # bs) = round_lines a (threads (mgr s) bs)"
    and run: "accept_one malloc_ok env a s =
      ended (reap (threads_end a) (thread_manager m) (s\<lparr>open_fds := open_rc a # accept_rc a # open_fds s, mgr := m\<rparr>))"
    using accept_registers [where malloc_ok = malloc_ok, OF inv a mem] by blast
  let ?s = "s\<lparr>open_fds := open_rc a # accept_rc a # open_fds s, mgr := m\<rparr>"
  have lines: "threads m (b # bs) = running_line a # threads (mgr s) bs"
    using none m(2) unfolding round_lines_completed by (simp add: round_lines_idle)
  have "manager_ok (mgr ?s) (b # bs) []" using m(1) by (simp add: manager_inv_def)
  moreover have "\<forall>c \<in> set (b # bs). \<not> completed (line_of m c)"
    using none unfolding m(2) [symmetric] by (auto simp: threads_def list_ex_iff)
  ultimately have "reap (threads_end a) (thread_manager m) ?s = Some (Inr ?s)"
    using reap_none [of ?s "b # bs" "[]" "thread_manager m" "b # bs"]
    by (simp add: is_complete_line manager_ok_def)
  then show ?thesis using m(1) lines run by (intro exI [of _ ?s] exI [of _ b]) (simp add: ended_def)
qed

lemma accepted_round:
  assumes "accepted a"
  shows "connects a" and "round_lines a ls = running_line a # ls"
  using assms by (simp_all add: accepted_def round_lines_idle)

lemma accept_after_completion:
  assumes "manager_inv (mgr s) bs []" and "accepted a"
    and "malloc_ok (entry_count (mgr s))" and "kmalloc_ok env (length (strings (mgr s)))"
    and "distinct (new_id a # map fst (threads (mgr s) bs))"
    and "list_ex completed (threads (mgr s) bs)"
    and "\<forall>l \<in> set (threads (mgr s) bs). completed l \<longrightarrow> threads_end a (fst l)"
  shows "accept_one malloc_ok env a s = Inl Use_After_Free"
  using accept_completed [where malloc_ok = malloc_ok, OF assms(1) accepted_round(1) [OF assms(2)] assms(3-5)]
    accepted_round(2) [OF assms(2)] assms(6,7) by auto

section \<open>A concrete server\<close>

definition server_boot :: server where
  "server_boot = \<lparr>use_char_device = True, mgr = \<lparr>entry_count = 0, entry_store = \<lambda>_. None, strings = [], thread_manager = Blk 7,
     manager_mutex = False\<rparr>, open_fds = [0, 1, 2], server_socket_fd = 0,
     server_address_info = Addr_NULL, log_open = False, joined = [],
     timer = no_timer, tmpdata_removed = False\<rparr>"

definition server0 :: server where
  "server0 = initialize_server server_boot"

definition memory :: kenv where
  "memory = \<lparr>kmalloc_ok = \<lambda>_. True, kmalloc_junk = \<lambda>_ _. CHR ''?''\<rparr>"

definition visit :: "nat \<Rightarrow> arrival" where
  "visit n = \<lparr>accept_rc = 10 + int n, peer_addr = Inet4 10 0 0 1, open_rc = 50 + int n, pthread_rc = 0,
     new_id = 100 + n, threads_end = \<lambda>_. True, marked = [], marked_late = []\<rparr>"

lemma server0_inv: "manager_inv (mgr server0) [] []"
  unfolding server0_def initialize_server_def
  by (simp add: init_manager_ok server_boot_def live_def dom_def)

lemma visit_accepted [simp]: "accepted (visit n)"
  by (simp add: accepted_def connects_def has_ipv4_def visit_def)

lemma visit_simps [simp]:
  "accept_rc (visit n) = 10 + int n" "peer_ip (visit n) = ''10.0.0.1''" "open_rc (visit n) = 50 + int n"
  "new_id (visit n) = 100 + n" "threads_end (visit n) = (\<lambda>_. True)" "pthread_rc (visit n) = 0"
  "marked (visit n) = []" "marked_late (visit n) = []"
proof -
  have "dec 10 = ''10''" "dec 0 = ''0''" "dec 1 = ''1''" by code_simp+
  then show "peer_ip (visit n) = ''10.0.0.1''" by (simp add: peer_ip_def inet_ntop_def visit_def)
qed (simp_all add: visit_def)

definition accept_result :: "nat \<Rightarrow> server \<Rightarrow> server" where
  "accept_result n s = (case accept_one (\<lambda>_. True) memory (visit n) s of Inr s' \<Rightarrow> s' | Inl _ \<Rightarrow> s)"

lemma accept_idle:
  assumes inv: "manager_inv (mgr s) bs []" and a: "accepted a"
    and mem: "malloc_ok (entry_count (mgr s))" "kmalloc_ok env (length (strings (mgr s)))"
    and none: "\<not> list_ex completed (threads (mgr s) bs)"
  shows "\<exists>s' b. accept_one malloc_ok env a s = Inr s' \<and> manager_inv (mgr s') (b # bs) [] \<and>
    threads (mgr s') (b # bs) = (new_id a, peer_ip a, accept_rc a, open_rc a, False) # threads (mgr s) bs \<and>
    s' = s\<lparr>open_fds := open_rc a # accept_rc a # open_fds s, mgr := mgr s'\<rparr>"
  using accept_not_completed [where malloc_ok = malloc_ok, OF inv accepted_round(1) [OF a] mem] none
    accepted_round(2) [OF a] by (simp add: running_line_def completed_def)

text \<open>One client, its thread still running, and the same after the thread has marked its entry.\<close>

definition server1 :: server where "server1 = accept_result 1 server0"

definition server2 :: server where
  "server2 = server1\<lparr>mgr := (case thread_entry_markcomplete 101 (mgr server1) of Inr (_, m) \<Rightarrow> m | Inl _ \<Rightarrow> mgr server1)\<rparr>"

lemma server1_inv:
  obtains b where "manager_inv (mgr server1) [b] []"
    and "threads (mgr server1) [b] = [(101, ''10.0.0.1'', 11, 51, False)]"
    and "open_fds server1 = [51, 11, 0, 1, 2]" and "joined server1 = []"
proof -
  obtain s' b where b: "accept_one (\<lambda>_. True) memory (visit 1) server0 = Inr s'"
      "manager_inv (mgr s') [b] []" "threads (mgr s') [b] = [(101, ''10.0.0.1'', 11, 51, False)]"
      "s' = server0\<lparr>open_fds := 51 # 11 # open_fds server0, mgr := mgr s'\<rparr>"
    using accept_idle [where malloc_ok = "\<lambda>_. True" and env = memory, OF server0_inv visit_accepted [of 1]]
    by (auto simp: memory_def threads_def)
  have "open_fds server0 = [0, 1, 2]" "joined server0 = []"
    by (simp_all add: server0_def initialize_server_def server_boot_def)
  then have "open_fds s' = [51, 11, 0, 1, 2]" "joined s' = []" by (subst b(4), simp)+
  moreover have "server1 = s'" using b(1) by (simp add: server1_def accept_result_def)
  ultimately show ?thesis using that [of b] b(2,3) by simp
qed

lemma server2_inv:
  obtains b where "manager_inv (mgr server2) [b] []"
    and "threads (mgr server2) [b] = [(101, ''10.0.0.1'', 11, 51, True)]"
proof -
  obtain b where b: "manager_inv (mgr server1) [b] []" "threads (mgr server1) [b] = [(101, ''10.0.0.1'', 11, 51, False)]"
    by (rule server1_inv)
  obtain r m' where "thread_entry_markcomplete 101 (mgr server1) = Inr (r, m')" "manager_inv m' [b] []"
      "threads m' [b] = [(101, ''10.0.0.1'', 11, 51, True)]"
    using mark_refines [OF b(1), of 101] b(2) by auto
  then show ?thesis using that [of b] by (simp add: server2_def)
qed

section \<open>Properties of the thread manager\<close>

text \<open>\<open>thread_entry_remove\<close> and \<open>thread_entry_markcomplete\<close> do on the pointers what removing
  and marking the first line with the id do on a list; an unknown id gives -1 and changes
  nothing. The mutex is free afterwards, no entry or string is lost, and none is freed that is
  still in the list.\<close>

theorem thread_list_refines:
  assumes "manager_inv m bs ps"
  shows "(\<exists>r m' bs'. thread_entry_remove tid m = Inr (r, m') \<and> manager_inv m' bs' ps \<and>
      (case remove_line tid (threads m bs) of
         None \<Rightarrow> r = - 1 \<and> m' = m \<and> bs' = bs
       | Some ls \<Rightarrow> r = 0 \<and> threads m' bs' = ls)) \<and>
    (\<exists>r m'. thread_entry_markcomplete tid m = Inr (r, m') \<and> manager_inv m' bs ps \<and>
      (case mark_line tid (threads m bs) of
         None \<Rightarrow> r = - 1 \<and> m' = m
       | Some ls \<Rightarrow> r = 0 \<and> threads m' bs = ls))"
  using remove_refines [OF assms] mark_refines [OF assms] by blast

theorem thread_list_refines_witness:
  "\<exists>m'. thread_entry_remove 101 (mgr server1) = Inr (0, m') \<and> manager_inv m' [] [] \<and>
     (\<exists>m'. thread_entry_markcomplete 7 (mgr server1) = Inr (- 1, m'))"
proof -
  obtain b where b: "manager_inv (mgr server1) [b] []"
      "threads (mgr server1) [b] = [(101, ''10.0.0.1'', 11, 51, False)]"
    by (rule server1_inv)
  show ?thesis
    using thread_list_refines [OF b(1), of 101] thread_list_refines [OF b(1), of 7] b(2)
    by (auto simp: threads_def)
qed

text \<open>The life of an entry: \<open>thread_entry_create\<close> makes an entry with the arguments in it and a
  copy of the address text, \<open>thread_entry_add\<close> puts it at the head of the list, and
  \<open>thread_entry_free\<close> on one that is not in the list gives back all its memory.\<close>

theorem thread_entry_life:
  assumes "manager_inv m bs []" and "malloc_ok (entry_count m)"
    and "kmalloc_ok env (length (strings m))" and "NUL \<notin> set ip"
  shows "\<exists>p m1 m2 m3 b.
    thread_entry_create malloc_ok env tid ip cfd tfd m = Inr (p, m1) \<and> p \<noteq> NULL \<and>
    thread_entry_add p m1 = Inr (0, m2) \<and> manager_inv m2 (b # bs) [] \<and>
    threads m2 (b # bs) = (tid, ip, cfd, tfd, False) # threads m bs \<and>
    thread_entry_free p m1 = Inr (0, m3) \<and> manager_inv m3 bs [] \<and> threads m3 bs = threads m bs"
proof -
  obtain b m1 where 1: "thread_entry_create malloc_ok env tid ip cfd tfd m = Inr (Blk b, m1)"
      "manager_inv m1 bs [b]" "line_of m1 b = (tid, ip, cfd, tfd, False)"
      "\<forall>c \<in> set bs. line_of m1 c = line_of m c"
    using create_ok [where malloc_ok = malloc_ok and tid = tid and cfd = cfd and tfd = tfd, OF assms] by auto
  obtain m2 where 2: "thread_entry_add (Blk b) m1 = Inr (0, m2)" "manager_inv m2 (b # bs) []"
      "\<forall>c. line_of m2 c = line_of m1 c"
    using add_ok [OF 1(2)] by blast
  obtain m3 where 3: "thread_entry_free (Blk b) m1 = Inr (0, m3)" "manager_ok m3 bs []"
      "\<forall>c \<in> set bs. line_of m3 c = line_of m1 c" "manager_mutex m3 = manager_mutex m1"
    using free_detached [of m1 bs b "[]"] 1(2) by (auto simp: manager_inv_def)
  have "manager_inv m3 bs []" using 3(2,4) 1(2) by (simp add: manager_inv_def)
  then show ?thesis
    using 1 2 3(1,3)
    by (intro exI [of _ "Blk b"] exI [of _ m1] exI [of _ m2] exI [of _ m3] exI [of _ b])
      (simp add: threads_def)
qed

theorem thread_entry_life_witness:
  "\<exists>m1 p b m2. thread_entry_create (\<lambda>_. True) memory 9 ''::1'' 4 5 (mgr server0) = Inr (p, m1) \<and>
     thread_entry_add p m1 = Inr (0, m2) \<and> threads m2 [b] = [(9, ''::1'', 4, 5, False)]"
  using thread_entry_life [OF server0_inv, of "\<lambda>_. True" memory "''::1''" 9 4 5]
  by (fastforce simp: memory_def threads_def)

text \<open>When one of its two allocations fails, \<open>thread_entry_create\<close> returns \<open>NULL\<close> and keeps
  no memory.\<close>

theorem thread_create_fails:
  assumes "manager_inv m bs ps"
    and "\<not> malloc_ok (entry_count m) \<or> \<not> kmalloc_ok env (length (strings m))"
  shows "\<exists>m'. thread_entry_create malloc_ok env tid ip cfd tfd m = Inr (NULL, m') \<and>
    manager_inv m' bs ps \<and> threads m' bs = threads m bs"
  using create_fails [where malloc_ok = malloc_ok, OF assms] by (fastforce simp: threads_def)

theorem thread_create_fails_witness:
  "\<exists>m'. thread_entry_create (\<lambda>_. True) (memory\<lparr>kmalloc_ok := \<lambda>_. False\<rparr>) 9 ''::1'' 4 5 (mgr server0)
     = Inr (NULL, m') \<and> manager_inv m' [] []"
  using thread_create_fails [OF server0_inv, of "\<lambda>_. True" "memory\<lparr>kmalloc_ok := \<lambda>_. False\<rparr>" 9 "''::1''" 4 5]
  by auto

text \<open>C33. If every thread of the list comes to its end, \<open>thread_entry_freeall\<close> does too: it joins
  each thread once, in the order of the list, and leaves no entry and no string allocated. If
  one thread does not, it waits for ever.\<close>

theorem thread_freeall_frees:
  assumes "manager_inv m bs []"
  shows "if \<forall>l \<in> set (threads m bs). ends (fst l)
    then \<exists>m'. thread_entry_freeall ends m js = Some (Inr (js @ map fst (threads m bs), m')) \<and>
      dom (entry_store m') = {} \<and> live (strings m') = {}
    else thread_entry_freeall ends m js = Some (Inl Deadlock)"
  using freeall_ok [OF assms, of ends js] freeall_waits [OF assms, of ends js] empty_manager by auto

theorem thread_freeall_frees_witness:
  "(\<exists>m'. thread_entry_freeall (\<lambda>_. True) (mgr server1) [] = Some (Inr ([101], m')) \<and> dom (entry_store m') = {}) \<and>
   thread_entry_freeall (\<lambda>_. False) (mgr server1) [] = Some (Inl Deadlock)"
proof -
  obtain b where b: "manager_inv (mgr server1) [b] []"
      "threads (mgr server1) [b] = [(101, ''10.0.0.1'', 11, 51, False)]"
    by (rule server1_inv)
  show ?thesis
    using thread_freeall_frees [OF b(1), of "\<lambda>_. True" "[]"] thread_freeall_frees [OF b(1), of "\<lambda>_. False" "[]"] b(2)
    by auto
qed

section \<open>Properties of the server\<close>

text \<open>A connection that is accepted while no thread has completed is registered: the list has
  its entry at the head, with the id of its thread, and its two descriptors are open.\<close>

theorem accept_registers_thread:
  assumes "manager_inv (mgr s) bs []" and "accepted a"
    and "malloc_ok (entry_count (mgr s))" and "kmalloc_ok env (length (strings (mgr s)))"
    and "\<not> list_ex completed (threads (mgr s) bs)"
  shows "\<exists>s' b. accept_one malloc_ok env a s = Inr s' \<and> manager_inv (mgr s') (b # bs) [] \<and>
    threads (mgr s') (b # bs) = (new_id a, peer_ip a, accept_rc a, open_rc a, False) # threads (mgr s) bs \<and>
    open_fds s' = open_rc a # accept_rc a # open_fds s"
proof -
  obtain s' b where b: "accept_one malloc_ok env a s = Inr s'" "manager_inv (mgr s') (b # bs) []"
      "threads (mgr s') (b # bs) = (new_id a, peer_ip a, accept_rc a, open_rc a, False) # threads (mgr s) bs"
      "s' = s\<lparr>open_fds := open_rc a # accept_rc a # open_fds s, mgr := mgr s'\<rparr>"
    using accept_idle [where malloc_ok = malloc_ok, OF assms] by blast
  have "open_fds s' = open_rc a # accept_rc a # open_fds s" by (subst b(4)) simp
  then show ?thesis using b(1-3) by blast
qed

theorem accept_registers_thread_witness:
  "\<exists>s' b c. accept_one (\<lambda>_. True) memory (visit 2) server1 = Inr s' \<and>
     threads (mgr s') [c, b] = [(102, ''10.0.0.1'', 12, 52, False), (101, ''10.0.0.1'', 11, 51, False)]"
proof -
  obtain b where b: "manager_inv (mgr server1) [b] []"
      "threads (mgr server1) [b] = [(101, ''10.0.0.1'', 11, 51, False)]"
    by (rule server1_inv)
  show ?thesis
    using accept_registers_thread [OF b(1) visit_accepted [of 2], of "\<lambda>_. True" memory] b(2)
    by (fastforce simp: memory_def completed_def)
qed

text \<open>A connection that is accepted while some thread has completed makes the server read freed
  memory: the loop that joins completed threads frees the entry and then follows its pointer
  to the next one.\<close>

theorem accept_uses_freed_entry:
  assumes "manager_inv (mgr s) bs []" and "accepted a"
    and "malloc_ok (entry_count (mgr s))" and "kmalloc_ok env (length (strings (mgr s)))"
    and "distinct (new_id a # map fst (threads (mgr s) bs))"
    and "list_ex completed (threads (mgr s) bs)"
    and "\<forall>l \<in> set (threads (mgr s) bs). completed l \<longrightarrow> threads_end a (fst l)"
  shows "accept_one malloc_ok env a s = Inl Use_After_Free"
  using assms by (rule accept_after_completion)

theorem accept_uses_freed_entry_witness:
  "accept_one (\<lambda>_. True) memory (visit 2) server2 = Inl Use_After_Free"
proof -
  obtain b where b: "manager_inv (mgr server2) [b] []"
      "threads (mgr server2) [b] = [(101, ''10.0.0.1'', 11, 51, True)]"
    by (rule server2_inv)
  show ?thesis
    using accept_uses_freed_entry [OF b(1) visit_accepted [of 2], of "\<lambda>_. True" memory] b(2)
    by (simp add: memory_def completed_def)
qed

text \<open>A round that does not register a connection leaves the list as it is.\<close>

lemma accept_not_connected:
  assumes inv: "manager_inv (mgr s) bs []" and run: "accept_one malloc_ok env a s = Inr s'"
    and not: "\<not> connects a \<or> \<not> malloc_ok (entry_count (mgr s)) \<or> \<not> kmalloc_ok env (length (strings (mgr s)))"
  shows "manager_inv (mgr s') bs [] \<and> threads (mgr s') bs = threads (mgr s) bs \<and> joined s' = joined s"
proof (cases "accept_rc a = - 1 \<or> open_rc a = - 1")
  case True
  then show ?thesis
    using inv run by (auto simp: accept_one_def opens_def closes_def bind_res_Inr_iff Let_def split: if_splits)
next
  case False
  then have ip: "has_ipv4 a"
    using run by (auto simp: accept_one_def bind_res_Inr_iff has_ipv4_def inet_ntop_def split: sockaddr.splits)
  note ntop = peer_ipv4(1,2) [OF this]
  let ?create = "thread_entry_create malloc_ok env 0 (peer_ip a) (accept_rc a) (open_rc a) (mgr s)"
  show ?thesis
  proof (cases "malloc_ok (entry_count (mgr s)) \<and> kmalloc_ok env (length (strings (mgr s)))")
    case True
    then have thread: "pthread_rc a \<noteq> 0" using not False ip by (simp add: connects_def)
    obtain b m1 where 1: "?create = Inr (Blk b, m1)" "manager_inv m1 bs [b]"
        "\<forall>c \<in> set bs. line_of m1 c = line_of (mgr s) c"
      using create_ok [where malloc_ok = malloc_ok and tid = 0 and cfd = "accept_rc a" and tfd = "open_rc a"
          and ip = "peer_ip a" and env = env, OF inv] True ntop by auto
    obtain m2 where 2: "thread_entry_free (Blk b) m1 = Inr (0, m2)" "manager_ok m2 bs []"
        "\<forall>c \<in> set bs. line_of m2 c = line_of m1 c" "manager_mutex m2 = manager_mutex m1"
      using free_detached [of m1 bs b "[]"] 1(2) by (auto simp: manager_inv_def)
    then show ?thesis
      using run False ntop thread 1 by (auto simp: accept_one_def opens_def closes_def manager_inv_def threads_def Let_def)
  next
    case nomem: False
    obtain m' where "?create = Inr (NULL, m')" "manager_inv m' bs []" "\<forall>c. line_of m' c = line_of (mgr s) c"
      using create_fails [where malloc_ok = malloc_ok, OF inv] nomem by blast
    then show ?thesis using run False ntop by (auto simp: accept_one_def opens_def threads_def Let_def)
  qed
qed

text \<open>A round that returns joins nobody, and a running thread that does not mark its entry stays in the list as such.\<close>

lemma accept_keeps:
  assumes inv: "manager_inv (mgr s) bs []" and uniq: "distinct (new_id a # map fst (threads (mgr s) bs))"
    and run: "accept_one malloc_ok env a s = Inr s'" and l: "l \<in> set (threads (mgr s) bs)"
  shows "\<exists>bs'. manager_inv (mgr s') bs' [] \<and> l \<in> set (threads (mgr s') bs') \<and> joined s' = joined s \<and>
    map fst (threads (mgr s') bs') \<in> {map fst (threads (mgr s) bs), new_id a # map fst (threads (mgr s) bs)}"
proof (cases "connects a \<and> malloc_ok (entry_count (mgr s)) \<and> kmalloc_ok env (length (strings (mgr s)))")
  case True
  then have "\<not> list_ex completed (round_lines a (threads (mgr s) bs))"
    using accept_completed [where malloc_ok = malloc_ok, OF inv _ _ _ uniq, of env] run by auto
  then obtain b where b: "manager_inv (mgr s') (b # bs) []" "threads (mgr s') (b # bs) = running_line a # threads (mgr s) bs"
      "s' = s\<lparr>open_fds := open_rc a # accept_rc a # open_fds s, mgr := mgr s'\<rparr>"
    using accept_not_completed [where malloc_ok = malloc_ok, OF inv, of a env] True run by auto
  have "joined s' = joined s" by (subst b(3)) simp
  then show ?thesis using b(1,2) l by (intro exI [of _ "b # bs"]) simp
next
  case False
  then show ?thesis using accept_not_connected [where malloc_ok = malloc_ok, OF inv run] l by (intro exI [of _ bs]) auto
qed

lemma rounds_keep:
  "accept_connections malloc_ok env as s = Inr s' \<Longrightarrow> manager_inv (mgr s) bs [] \<Longrightarrow>
     distinct (map new_id as @ map fst (threads (mgr s) bs)) \<Longrightarrow> l \<in> set (threads (mgr s) bs) \<Longrightarrow>
     \<exists>bs'. manager_inv (mgr s') bs' [] \<and> joined s' = joined s \<and> l \<in> set (threads (mgr s') bs')"
proof (induction as arbitrary: s bs)
  case Nil
  then show ?case by (intro exI [of _ bs]) simp
next
  case (Cons a as)
  obtain s1 where s1: "accept_one malloc_ok env a s = Inr s1" "accept_connections malloc_ok env as s1 = Inr s'"
    using Cons.prems(1) by (auto simp: bind_res_Inr_iff)
  have "distinct (new_id a # map fst (threads (mgr s) bs))" using Cons.prems(3) by auto
  note kept = accept_keeps [OF Cons.prems(2) this s1(1) Cons.prems(4)]
  obtain bs1 where
    1: "manager_inv (mgr s1) bs1 []" "l \<in> set (threads (mgr s1) bs1)" "joined s1 = joined s"
      "map fst (threads (mgr s1) bs1) \<in> {map fst (threads (mgr s) bs), new_id a # map fst (threads (mgr s) bs)}"
    using kept by (elim exE conjE) (rule that)
  have "distinct (map new_id as @ ids)"
    if "ids \<in> {map fst (threads (mgr s) bs), new_id a # map fst (threads (mgr s) bs)}" for ids
    using that Cons.prems(3) by (elim insertE emptyE) simp_all
  from Cons.IH [OF s1(2) 1(1) this [OF 1(4)] 1(2)] show ?case using 1(3) by simp
qed

text \<open>C34. A thread that ends before its creator has put its entry into the list is forgotten: marking
  its id finds nothing, the entry is added as running, and the round returns. From then on, in
  every run of rounds that the server comes through, whatever connects or fails in them, the
  list shows the ended thread as running, and nobody has joined it. The ids of threads that are
  not joined differ.\<close>

theorem completion_can_be_lost:
  assumes "manager_inv (mgr s) bs []" and "connects a" and "\<forall>n. malloc_ok n" and "\<forall>n. kmalloc_ok env n"
    and "marked a = [new_id a]" and "marked_late a = []" and "\<not> list_ex completed (threads (mgr s) bs)"
    and "distinct (new_id a # map fst (threads (mgr s) bs))"
  shows "\<exists>s1. accept_one malloc_ok env a s = Inr s1 \<and>
    (\<forall>as s2. distinct (map new_id as @ new_id a # map fst (threads (mgr s) bs)) \<longrightarrow>
       accept_connections malloc_ok env as s1 = Inr s2 \<longrightarrow>
       (\<exists>bs2. manager_inv (mgr s2) bs2 [] \<and> joined s2 = joined s \<and>
          (new_id a, peer_ip a, accept_rc a, open_rc a, False) \<in> set (threads (mgr s2) bs2)))"
proof -
  have mem: "malloc_ok n" "kmalloc_ok env n" for n using assms(3,4) by simp_all
  have "\<not> list_ex completed (round_lines a (threads (mgr s) bs))"
    using assms(5-8) by (simp add: round_lines_completed)
  then obtain s1 b where 1: "accept_one malloc_ok env a s = Inr s1" "manager_inv (mgr s1) (b # bs) []"
      "threads (mgr s1) (b # bs) = running_line a # threads (mgr s) bs"
      "s1 = s\<lparr>open_fds := open_rc a # accept_rc a # open_fds s, mgr := mgr s1\<rparr>"
    using accept_not_completed [where malloc_ok = malloc_ok and env = env, OF assms(1,2) mem] by blast
  have same: "joined s1 = joined s" by (subst 1(4)) simp
  have "\<exists>bs2. manager_inv (mgr s2) bs2 [] \<and> joined s2 = joined s \<and>
      (new_id a, peer_ip a, accept_rc a, open_rc a, False) \<in> set (threads (mgr s2) bs2)"
    if "distinct (map new_id as @ new_id a # map fst (threads (mgr s) bs))"
      "accept_connections malloc_ok env as s1 = Inr s2" for as s2
    using rounds_keep [OF that(2) 1(2), of "running_line a"] that(1) same 1(3) by (simp add: running_line_def)
  then show ?thesis using 1(1) by blast
qed

text \<open>The first thread is through before it is in the list; two more connections come.\<close>

theorem completion_can_be_lost_witness:
  "\<exists>s1. accept_one (\<lambda>_. True) memory ((visit 1)\<lparr>marked := [101]\<rparr>) server0 = Inr s1 \<and>
     (\<forall>s2. accept_connections (\<lambda>_. True) memory [visit 2, visit 3] s1 = Inr s2 \<longrightarrow>
        (\<exists>bs2. (101, ''10.0.0.1'', 11, 51, False) \<in> set (threads (mgr s2) bs2) \<and> joined s2 = []))"
proof -
  let ?a = "(visit 1)\<lparr>marked := [101]\<rparr>"
  have a: "connects ?a" "peer_ip ?a = ''10.0.0.1''"
    using visit_accepted [of 1] visit_simps(2) [of 1] by (auto simp: accepted_def connects_def has_ipv4_def peer_ip_def)
  have "kmalloc_ok memory n" "joined server0 = []" for n
    by (simp_all add: memory_def server0_def initialize_server_def server_boot_def)
  moreover have "threads (mgr server0) [] = []" by (simp add: threads_def)
  ultimately obtain s1 where s1: "accept_one (\<lambda>_. True) memory ?a server0 = Inr s1"
      "\<And>as s2. distinct (map new_id as @ [101]) \<Longrightarrow> accept_connections (\<lambda>_. True) memory as s1 = Inr s2 \<Longrightarrow>
        \<exists>bs2. joined s2 = [] \<and> (101, ''10.0.0.1'', 11, 51, False) \<in> set (threads (mgr s2) bs2)"
    using completion_can_be_lost [OF server0_inv a(1), of "\<lambda>_. True" memory] a(2)
    by (simp del: accept_connections.simps) blast
  have "distinct (map new_id [visit 2, visit 3] @ [101])" by simp
  from s1(2) [OF this] show ?thesis using s1(1) by blast
qed

text \<open>The four numbers of an address text, read back with \<open>%ld\<close>.\<close>

definition read_number :: "bytes \<Rightarrow> int \<times> bytes" where
  "read_number s = (case scan_long s of Some (n, r) \<Rightarrow> (n, drop 1 r) | None \<Rightarrow> (- 1, s))"

lemma read_number_dec: "read_number (dec (unat b) @ CHR ''.'' # r) = (int (unat b), r)" for b :: u8
proof -
  have "unat b < 2 ^ 63" using unsigned_less [of b, where 'a = nat] by simp
  moreover have "\<not> is_digit CHR ''.''" by (simp add: is_digit_def)
  ultimately show ?thesis using scan_dec [of "unat b" "CHR ''.'' # r"] by (simp add: read_number_def)
qed

text \<open>The text of a client's IPv4 address fits the buffer for it, with its closing 0 byte, and has
  the four numbers of the address in it. A client with an IPv6 address, which the server accepts
  where it listens on one, makes it read beyond the structure it keeps the address in.\<close>

theorem peer_address_text:
  assumes "accept_rc a \<noteq> - 1"
  shows "case peer_addr a of
      Inet4 w x y z \<Rightarrow> inet_ntop (peer_addr a) = Inr (peer_ip a) \<and>
        length (peer_ip a @ [NUL]) \<le> INET_ADDRSTRLEN \<and> NUL \<notin> set (peer_ip a) \<and>
        (let (i, r) = read_number (peer_ip a); (j, r) = read_number r; (k, r) = read_number r;
             (l, _) = read_number (r @ ''.'') in
         [i, j, k, l] = map uint [w, x, y, z])
    | Inet6 _ \<Rightarrow> accept_one malloc_ok env a s = Inl Out_Of_Bounds"
proof (cases "peer_addr a")
  case (Inet4 w x y z)
  then have "has_ipv4 a" by (simp add: has_ipv4_def)
  from peer_ipv4 [OF this] have "inet_ntop (peer_addr a) = Inr (peer_ip a)" "NUL \<notin> set (peer_ip a)"
    "length (peer_ip a) < INET_ADDRSTRLEN" by blast+
  moreover have "peer_ip a = dec (unat w) @ ''.'' @ dec (unat x) @ ''.'' @ dec (unat y) @ ''.'' @ dec (unat z)"
    by (simp add: peer_ip_def Inet4 inet_ntop_def)
  ultimately show ?thesis using Inet4 by (simp add: read_number_dec)
next
  case (Inet6 bs)
  then show ?thesis using assms by (simp add: accept_one_def inet_ntop_def)
qed

theorem peer_address_text_witness:
  "inet_ntop (Inet4 192 168 0 7) = Inr ''192.168.0.7'' \<and>
   accept_one (\<lambda>_. True) memory ((visit 1)\<lparr>peer_addr := Inet6 []\<rparr>) server0 = Inl Out_Of_Bounds"
proof -
  have "dec 192 = ''192''" "dec 168 = ''168''" "dec 0 = ''0''" "dec 7 = ''7''" by code_simp+
  moreover note peer_address_text [of "(visit 1)\<lparr>peer_addr := Inet4 192 168 0 7\<rparr>"]
    peer_address_text [of "(visit 1)\<lparr>peer_addr := Inet6 []\<rparr>" "\<lambda>_. True" memory server0]
  ultimately show ?thesis by (simp add: inet_ntop_def)
qed

text \<open>What a round of the accepting loop does when a step of it fails: without a connection,
  nothing; without the data file, the connection is closed; without memory for the entry, both
  descriptors stay open; without a thread, the descriptor of the data file stays open.\<close>

theorem accept_failures:
  assumes "manager_inv (mgr s) bs []" and "has_ipv4 a" and "accept_rc a \<notin> set (open_fds s)" and "accept_rc a \<noteq> open_rc a"
  shows "(accept_rc a = - 1 \<longrightarrow> accept_one malloc_ok env a s = Inr s) \<and>
    (accept_rc a \<noteq> - 1 \<and> open_rc a = - 1 \<longrightarrow> accept_one malloc_ok env a s = Inr s) \<and>
    (accept_rc a \<noteq> - 1 \<and> open_rc a \<noteq> - 1 \<and> \<not> malloc_ok (entry_count (mgr s)) \<longrightarrow>
      (\<exists>s'. accept_one malloc_ok env a s = Inr s' \<and> manager_inv (mgr s') bs [] \<and>
        open_fds s' = open_rc a # accept_rc a # open_fds s)) \<and>
    (accept_rc a \<noteq> - 1 \<and> open_rc a \<noteq> - 1 \<and> pthread_rc a \<noteq> 0 \<and>
     malloc_ok (entry_count (mgr s)) \<and> kmalloc_ok env (length (strings (mgr s))) \<longrightarrow>
      (\<exists>s'. accept_one malloc_ok env a s = Inr s' \<and> manager_inv (mgr s') bs [] \<and>
        threads (mgr s') bs = threads (mgr s) bs \<and> open_fds s' = open_rc a # open_fds s))"
proof (intro conjI impI)
  assume "accept_rc a = - 1"
  then show "accept_one malloc_ok env a s = Inr s" by (simp add: accept_one_def)
next
  assume "accept_rc a \<noteq> - 1 \<and> open_rc a = - 1"
  moreover have "s\<lparr>open_fds := open_fds s\<rparr> = s" by simp
  ultimately show "accept_one malloc_ok env a s = Inr s"
    using assms(3) peer_ipv4(1) [OF assms(2)] by (simp add: accept_one_def opens_def closes_def Let_def)
next
  assume a: "accept_rc a \<noteq> - 1 \<and> open_rc a \<noteq> - 1 \<and> \<not> malloc_ok (entry_count (mgr s))"
  obtain m' where "thread_entry_create malloc_ok env 0 (peer_ip a) (accept_rc a) (open_rc a) (mgr s) = Inr (NULL, m')"
      "manager_inv m' bs []"
    using create_fails [where malloc_ok = malloc_ok and tid = 0 and cfd = "accept_rc a" and tfd = "open_rc a"
        and ip = "peer_ip a" and env = env, OF assms(1)] a by blast
  then show "\<exists>s'. accept_one malloc_ok env a s = Inr s' \<and> manager_inv (mgr s') bs [] \<and>
      open_fds s' = open_rc a # accept_rc a # open_fds s"
    using a peer_ipv4(1) [OF assms(2)] by (simp add: accept_one_def opens_def Let_def)
next
  assume a: "accept_rc a \<noteq> - 1 \<and> open_rc a \<noteq> - 1 \<and> pthread_rc a \<noteq> 0 \<and>
    malloc_ok (entry_count (mgr s)) \<and> kmalloc_ok env (length (strings (mgr s)))"
  obtain b m1 where 1: "thread_entry_create malloc_ok env 0 (peer_ip a) (accept_rc a) (open_rc a) (mgr s) = Inr (Blk b, m1)"
      "manager_inv m1 bs [b]" "\<forall>c \<in> set bs. line_of m1 c = line_of (mgr s) c"
    using create_ok [where malloc_ok = malloc_ok and tid = 0 and cfd = "accept_rc a" and tfd = "open_rc a"
        and ip = "peer_ip a" and env = env, OF assms(1)] a peer_ipv4(2) [OF assms(2)] by auto
  obtain m2 where 2: "thread_entry_free (Blk b) m1 = Inr (0, m2)" "manager_ok m2 bs []"
      "\<forall>c \<in> set bs. line_of m2 c = line_of m1 c" "manager_mutex m2 = manager_mutex m1"
    using free_detached [of m1 bs b "[]"] 1(2) by (auto simp: manager_inv_def)
  have "manager_inv m2 bs []" "threads m2 bs = threads (mgr s) bs"
    using 1 2 by (simp_all add: manager_inv_def threads_def)
  then show "\<exists>s'. accept_one malloc_ok env a s = Inr s' \<and> manager_inv (mgr s') bs [] \<and>
      threads (mgr s') bs = threads (mgr s) bs \<and> open_fds s' = open_rc a # open_fds s"
    using a 1(1) 2(1) assms(3,4) peer_ipv4(1) [OF assms(2)] by (simp add: accept_one_def opens_def closes_def Let_def)
qed

theorem accept_failures_witness:
  "\<exists>s'. accept_one (\<lambda>_. False) memory (visit 2) server1 = Inr s' \<and> open_fds s' = [52, 12, 51, 11, 0, 1, 2]"
proof -
  obtain b where b: "manager_inv (mgr server1) [b] []" "open_fds server1 = [51, 11, 0, 1, 2]"
    by (rule server1_inv)
  show ?thesis
    using accept_failures [OF b(1), of "visit 2" "\<lambda>_. False" memory] b(2) visit_accepted [of 2] by (auto simp: accepted_def connects_def)
qed

text \<open>Stopping the server by a signal joins every thread, frees all entries, strings and
  addresses, closes the listening socket and exits with status 1. The alarm signal does
  nothing in this build.\<close>

theorem signal_stops_server:
  assumes "manager_inv (mgr s) bs []" and "server_address_info s = Addr_live" and "sig \<noteq> SIGALRM"
    and "\<forall>l \<in> set (threads (mgr s) bs). ends (fst l)"
  shows "signal_handler ends SIGALRM s = Inr (Returns s) \<and>
    (\<exists>s'. signal_handler ends sig s = Inr (Exits 1 s') \<and>
      joined s' = joined s @ map fst (threads (mgr s) bs) \<and>
      dom (entry_store (mgr s')) = {} \<and> live (strings (mgr s')) = {} \<and>
      server_address_info s' = Addr_freed \<and> server_socket_fd s \<notin> set (open_fds s') \<and> \<not> log_open s')"
proof -
  obtain m where m: "thread_entry_freeall ends (mgr s) (joined s) = Some (Inr (joined s @ map fst (threads (mgr s) bs), m))"
      "manager_inv m [] []"
    using freeall_ok [OF assms(1,4), of "joined s"] by blast
  then show ?thesis
    using assms(2,3) empty_manager [OF m(2)]
    by (simp add: signal_handler_def append_timestamp_def cleanup_server_def ended_def freeaddrinfo_def closes_def)
qed

theorem signal_stops_server_witness:
  "\<exists>s'. signal_handler (\<lambda>_. True) SIGTERM (server1\<lparr>server_address_info := Addr_live\<rparr>) = Inr (Exits 1 s') \<and>
     joined s' = [101] \<and> dom (entry_store (mgr s')) = {}"
proof -
  obtain b where b: "manager_inv (mgr server1) [b] []"
      "threads (mgr server1) [b] = [(101, ''10.0.0.1'', 11, 51, False)]" "joined server1 = []"
    by (rule server1_inv)
  show ?thesis
    using signal_stops_server [of "server1\<lparr>server_address_info := Addr_live\<rparr>" "[b]" SIGTERM "\<lambda>_. True"] b by auto
qed

text \<open>A signal can leave the server hanging in its handler instead of ending it: if one client is
  still connected, so that its thread waits in \<open>recv\<close> or for a mutex that is never released, the
  handler joins it for ever; and if there are threads in the list and the signal interrupts a
  thread while it holds the mutex of the list, the handler, which runs in that thread, waits for
  the mutex itself.\<close>

theorem signal_handler_hangs:
  assumes "manager_inv (mgr s) bs []" and "sig \<noteq> SIGALRM"
  shows "((\<exists>l \<in> set (threads (mgr s) bs). \<not> ends (fst l)) \<longrightarrow> signal_handler ends sig s = Inl Deadlock) \<and>
    (bs \<noteq> [] \<longrightarrow> signal_handler ends sig (s\<lparr>mgr := (mgr s)\<lparr>manager_mutex := True\<rparr>\<rparr>) = Inl Deadlock)"
proof (intro conjI impI)
  assume "\<exists>l \<in> set (threads (mgr s) bs). \<not> ends (fst l)"
  then show "signal_handler ends sig s = Inl Deadlock"
    using freeall_waits [OF assms(1)] assms(2) by (simp add: signal_handler_def cleanup_server_def ended_def)
next
  let ?m = "(mgr s)\<lparr>manager_mutex := True\<rparr>"
  assume "bs \<noteq> []"
  then obtain b where "thread_manager ?m = Blk b" "entry_store ?m b \<noteq> None"
    using assms(1) by (cases bs) (auto simp: manager_inv_def manager_ok_def)
  then have "thread_entry_freeall ends ?m (joined s) = Some (Inl Deadlock)" by (intro freeall_locked) simp_all
  then show "signal_handler ends sig (s\<lparr>mgr := ?m\<rparr>) = Inl Deadlock"
    using assms(2) by (simp add: signal_handler_def cleanup_server_def ended_def)
qed

theorem signal_handler_hangs_witness:
  "signal_handler (\<lambda>_. False) SIGTERM server1 = Inl Deadlock \<and>
   signal_handler (\<lambda>_. True) SIGINT (server1\<lparr>mgr := (mgr server1)\<lparr>manager_mutex := True\<rparr>\<rparr>) = Inl Deadlock"
proof -
  obtain b where b: "manager_inv (mgr server1) [b] []"
      "threads (mgr server1) [b] = [(101, ''10.0.0.1'', 11, 51, False)]"
    by (rule server1_inv)
  then show ?thesis
    using signal_handler_hangs [OF b(1), of SIGTERM "\<lambda>_. False"] signal_handler_hangs [OF b(1), of SIGINT "\<lambda>_. True"]
    by simp
qed

text \<open>C40. A server whose socket cannot be made, bound or listened on frees its addresses twice,
  once at the end of \<open>main\<close> and once in \<open>cleanup_server\<close>.\<close>

theorem failed_start_frees_twice:
  assumes "manager_inv (initialize_manager (mgr s)) [] []" and "getaddrinfo_rc os = 0"
    and "socket_rc os = - 1 \<or> bind_rc os = - 1 \<or> listen_rc os = - 1"
  shows "server_main malloc_ok env args os arrivals s = Inl Double_Free"
proof -
  have "thread_entry_freeall ends (initialize_manager (mgr s)) js = Some (Inr (js, initialize_manager (mgr s)))" for ends js
    by (subst thread_entry_freeall.simps) (simp add: initialize_manager_def)
  then show ?thesis using assms(2,3)
    by (auto simp: server_main_def initialize_server_def exit_free_addrinfo_struct_def exit_socket_bind_def
        freeaddrinfo_def closes_def opens_def cleanup_server_def ended_def Let_def)
qed

theorem failed_start_frees_twice_witness:
  "server_main (\<lambda>_. True) memory [] \<lparr>getaddrinfo_rc = 0, socket_rc = 3, bind_rc = - 1, listen_rc = 0,
     fork1_rc = 0, fork2_rc = 0, timer_create_rc = 0, timer_settime_rc = 0,
     live_threads_end = \<lambda>_. True\<rparr> [] server_boot = Inl Double_Free"
proof -
  have "manager_inv (initialize_manager (mgr server_boot)) [] []"
    using server0_inv by (simp add: server0_def initialize_server_def)
  then show ?thesis by (rule failed_start_frees_twice) simp_all
qed

text \<open>The daemon: without \<open>-d\<close> the process goes on; with it the parents exit with 0 and the
  grandchild goes on, with the same server; a failing \<open>fork\<close> cleans up and exits with 1; another
  option exits at once.\<close>

theorem daemon_start:
  assumes "manager_inv (mgr s) [] []" and "server_address_info s = Addr_live"
  shows "(getopt_d args False = Some False \<longrightarrow> start_daemon ends args f1 f2 s = Inr (Returns s)) \<and>
    (getopt_d args False = None \<longrightarrow> start_daemon ends args f1 f2 s = Inr (Exits 255 s)) \<and>
    (getopt_d args False = Some True \<longrightarrow>
      (0 < f1 \<or> f1 = 0 \<and> 0 < f2 \<longrightarrow> start_daemon ends args f1 f2 s = Inr (Exits 0 s)) \<and>
      (f1 = 0 \<and> f2 = 0 \<longrightarrow> start_daemon ends args f1 f2 s = Inr (Returns s)) \<and>
      (f1 < 0 \<or> f1 = 0 \<and> f2 < 0 \<longrightarrow>
        (\<exists>s'. start_daemon ends args f1 f2 s = Inr (Exits 1 s') \<and> dom (entry_store (mgr s')) = {} \<and>
          server_address_info s' = Addr_freed)))"
proof -
  obtain m where m: "thread_entry_freeall ends (mgr s) (joined s) = Some (Inr (joined s @ map fst (threads (mgr s) []), m))"
      "manager_inv m [] []"
    using freeall_ok [OF assms(1), of ends "joined s"] by (auto simp: threads_def)
  then have clean: "\<exists>s'. cleanup_server ends s = Inr s' \<and> dom (entry_store (mgr s')) = {} \<and> server_address_info s' = Addr_freed"
    using assms(2) empty_manager [OF m(2)]
    by (simp add: cleanup_server_def ended_def freeaddrinfo_def closes_def)
  then show ?thesis by (auto simp: start_daemon_def)
qed

theorem daemon_start_witness:
  "getopt_d [''-d''] False = Some True \<and> getopt_d [''x'', ''-dx''] False = None \<and>
   start_daemon (\<lambda>_. True) [''-d''] 0 0 (server0\<lparr>server_address_info := Addr_live\<rparr>)
     = Inr (Returns (server0\<lparr>server_address_info := Addr_live\<rparr>))"
  using daemon_start [of "server0\<lparr>server_address_info := Addr_live\<rparr>" "[''-d'']" "\<lambda>_. True" 0 0] server0_inv by simp

end
