(* ===== verification/Timer.thy ===== *)
theory Timer
  imports Plain_File Server_Theorems
begin

text \<open>
  The build with a plain file: the timestamps its timer appends, and the signal handlers, which
  are installed together with the timer and therefore missing in the build for the char device.
\<close>

section \<open>The text of a timestamp\<close>

text \<open>The fields of \<open>struct tm\<close> that the format uses; \<open>tm_year\<close> counts from 1900, \<open>tm_gmtoff\<close> is in seconds.\<close>

record tm =
  tm_wday :: nat
  tm_mday :: nat
  tm_mon :: nat
  tm_year :: int
  tm_hour :: nat
  tm_min :: nat
  tm_sec :: nat
  tm_gmtoff :: int

definition two_digits :: "nat \<Rightarrow> bytes" where
  "two_digits n = [char_of (n div 10 mod 10 + 48), char_of (n mod 10 + 48)]"

definition name_at :: "bytes list \<Rightarrow> nat \<Rightarrow> bytes" where
  "name_at names i = (if i < length names then names ! i else ''?'')"

definition week_days :: "bytes list" where
  "week_days = [''Sun'', ''Mon'', ''Tue'', ''Wed'', ''Thu'', ''Fri'', ''Sat'']"

definition month_names :: "bytes list" where
  "month_names = [''Jan'', ''Feb'', ''Mar'', ''Apr'', ''May'', ''Jun'', ''Jul'', ''Aug'', ''Sep'', ''Oct'', ''Nov'', ''Dec'']"

definition year_text :: "int \<Rightarrow> bytes" where
  "year_text y = (if y < 0 then ''-'' @ dec (nat (- y)) else dec (nat y))"

definition zone_text :: "int \<Rightarrow> bytes" where
  "zone_text off =
     (let m = nat \<bar>off\<bar> div 60 in (if off < 0 then ''-'' else ''+'') @ two_digits (m div 60) @ two_digits (m mod 60))"

text \<open>\<open>strftime\<close> with the format \<open>timestamp:%a, %d %b %Y %H:%M:%S %z\<close> and a newline, in the C locale.\<close>

definition timestamp_text :: "tm \<Rightarrow> bytes" where
  "timestamp_text t =
     ''timestamp:'' @ name_at week_days (tm_wday t) @ '', '' @ two_digits (tm_mday t) @ '' '' @
     name_at month_names (tm_mon t) @ '' '' @ year_text (tm_year t + 1900) @ '' '' @
     two_digits (tm_hour t) @ '':'' @ two_digits (tm_min t) @ '':'' @ two_digits (tm_sec t) @ '' '' @
     zone_text (tm_gmtoff t) @ [NL]"

section \<open>Appending it\<close>

text \<open>
  The handler runs in the thread that the alarm interrupts. \<open>in_libc\<close>: that thread is inside
  \<open>syslog\<close> or \<open>localtime\<close> and holds the lock that they take; the handler calls both, and waits for
  its own thread. \<open>held\<close>: that thread holds the mutex of the data file. A text that does not fit
  the 64 bytes leaves the buffer without a value. The file is written through a descriptor of its
  own; the result of \<open>write\<close> is only logged.
\<close>

definition append_timestamp_to_file ::
  "bool \<Rightarrow> int \<Rightarrow> disk \<Rightarrow> tm \<Rightarrow> bool \<times> plain_file \<Rightarrow> (bool \<times> plain_file) res" where
  "append_timestamp_to_file in_libc timestamp_fd disk tm_info = (\<lambda>(held, f).
     if in_libc then Inl Deadlock
     else
       let timestamp_buffer = timestamp_text tm_info in
       if timestamp_fd = - 1 then Inr (held, f)
       else if held then Inl Deadlock
       else if length timestamp_buffer + 1 > 64 then Inl Uninitialised
       else bind_res (append_write disk timestamp_buffer \<lparr>file_bytes = file_bytes f, offset = 0\<rparr>) (\<lambda>(_, f').
         Inr (False, f\<lparr>file_bytes := file_bytes f'\<rparr>)))"

section \<open>Properties\<close>

definition valid_tm :: "tm \<Rightarrow> bool" where
  "valid_tm t \<longleftrightarrow> tm_wday t < 7 \<and> tm_mon t < 12 \<and> - 900 \<le> tm_year t \<and> tm_year t < 8100"

lemma no_NL_digit: "d < 10 \<Longrightarrow> char_of (d + 48 :: nat) \<noteq> NL"
proof
  assume "d < 10" and eq: "char_of (d + 48) = NL"
  then have "(of_char (char_of (d + 48)) :: nat) = d + 48" by (intro digit_code)
  then show False unfolding eq by simp
qed

lemma two_digits_facts [simp]: "length (two_digits n) = 2" "NL \<notin> set (two_digits n)"
  using no_NL_digit [of "n div 10 mod 10"] no_NL_digit [of "n mod 10"] by (auto simp: two_digits_def)

lemma dec_no_NL: "NL \<notin> set (dec n)"
proof (induction n rule: dec.induct)
  case (1 n)
  then show ?case using no_NL_digit [of "n mod 10"] by (subst dec_step) auto
qed

lemma length_dec_4: "1000 \<le> n \<Longrightarrow> n < 10000 \<Longrightarrow> length (dec n) = 4"
proof -
  assume n: "1000 \<le> n" "n < 10000"
  then have "\<not> n < 10" "\<not> n div 10 < 10" "\<not> n div 10 div 10 < 10" "n div 10 div 10 div 10 < 10" by linarith+
  then show ?thesis
    by (simp add: dec_step [of n] dec_step [of "n div 10"] dec_step [of "n div 10 div 10"]
        dec_step [of "n div 10 div 10 div 10"])
qed

lemma zone_text_facts [simp]: "length (zone_text off) = 5" "NL \<notin> set (zone_text off)"
  by (simp_all add: zone_text_def Let_def)

lemma name_at_no_NL: "\<forall>x \<in> set names. NL \<notin> set x \<Longrightarrow> NL \<notin> set (name_at names i)"
  by (simp add: name_at_def)

lemma timestamp_line: "\<exists>l. timestamp_text t = l @ [NL] \<and> NL \<notin> set l"
proof -
  have "NL \<notin> set (name_at week_days (tm_wday t))" "NL \<notin> set (name_at month_names (tm_mon t))"
    by (intro name_at_no_NL, simp add: week_days_def month_names_def)+
  moreover have "NL \<notin> set (year_text (tm_year t + 1900))" by (simp add: year_text_def dec_no_NL)
  ultimately show ?thesis
    by (intro exI [of _ "butlast (timestamp_text t)"]) (simp add: timestamp_text_def butlast_append)
qed

lemma name_at_length:
  "\<forall>x \<in> set names. length x = n \<Longrightarrow> i < length names \<Longrightarrow> length (name_at names i) = n"
  by (simp add: name_at_def)

lemma timestamp_length: "valid_tm t \<Longrightarrow> length (timestamp_text t) = 42"
proof -
  let ?d = "name_at week_days (tm_wday t)" and ?m = "name_at month_names (tm_mon t)"
  assume t: "valid_tm t"
  then have "length ?d = 3" "length ?m = 3"
    by (auto simp: valid_tm_def week_days_def month_names_def intro!: name_at_length)
  moreover have "length (year_text (tm_year t + 1900)) = 4"
    using t length_dec_4 [of "nat (tm_year t + 1900)"]
    by (simp_all add: year_text_def valid_tm_def nat_less_iff le_nat_iff)
  ultimately show ?thesis by (simp add: timestamp_text_def)
qed

text \<open>C37. A timestamp with a year of four digits has 42 bytes, which fit the buffer of 64 with
  their final 0, and is one line. It is appended to the data file as a whole if the disk has
  room, and a part of it or nothing if it has not; the mutex is free again. But the alarm is
  handled in whichever thread it interrupts, and if that thread holds the mutex, or is inside
  \<open>syslog\<close> or \<open>localtime\<close>, the handler waits for it for ever.\<close>

theorem timestamp_is_one_line:
  assumes "valid_tm t" and "fd \<noteq> - 1"
  shows "\<exists>l. timestamp_text t = l @ [NL] \<and> NL \<notin> set l \<and> length (timestamp_text t) = 42 \<and>
    append_timestamp_to_file False fd whole t (False, f) = Inr (False, f\<lparr>file_bytes := file_bytes f @ l @ [NL]\<rparr>) \<and>
    append_timestamp_to_file False fd disk t (False, f) =
      Inr (False, f\<lparr>file_bytes := file_bytes f @
        (case disk (file_bytes f) (l @ [NL]) of None \<Rightarrow> [] | Some n \<Rightarrow> take n (l @ [NL]))\<rparr>) \<and>
    append_timestamp_to_file False fd disk t (True, f) = Inl Deadlock \<and>
    append_timestamp_to_file True fd disk t (held, f) = Inl Deadlock"
proof -
  obtain l where l: "timestamp_text t = l @ [NL]" "NL \<notin> set l" using timestamp_line by blast
  note len = timestamp_length [OF assms(1)]
  have append: "append_timestamp_to_file False fd d t (False, f) = Inr (False, f\<lparr>file_bytes := file_bytes f @
      (case d (file_bytes f) (l @ [NL]) of None \<Rightarrow> [] | Some n \<Rightarrow> take n (l @ [NL]))\<rparr>)" for d
    using assms(2) len l by (auto simp: append_timestamp_to_file_def append_write_def Let_def split: option.split)
  have "append_timestamp_to_file False fd whole t (False, f) = Inr (False, f\<lparr>file_bytes := file_bytes f @ l @ [NL]\<rparr>)"
    unfolding append by (simp add: whole_def)
  then show ?thesis using l len append [of disk] assms(2)
    by (intro exI [of _ l]) (simp add: append_timestamp_to_file_def)
qed

definition leap_day :: tm where
  "leap_day = \<lparr>tm_wday = 4, tm_mday = 29, tm_mon = 1, tm_year = 124, tm_hour = 7, tm_min = 5, tm_sec = 60,
     tm_gmtoff = - 12600\<rparr>"

theorem timestamp_is_one_line_witness:
  "timestamp_text leap_day = ''timestamp:Thu, 29 Feb 2024 07:05:60 -0330'' @ [NL] \<and>
   append_timestamp_to_file False 3 (\<lambda>_ _. Some 9) leap_day (False, \<lparr>file_bytes = [], offset = 0\<rparr>)
     = Inr (False, \<lparr>file_bytes = ''timestamp'', offset = 0\<rparr>) \<and>
   append_timestamp_to_file False 3 whole leap_day (True, \<lparr>file_bytes = [], offset = 0\<rparr>) = Inl Deadlock"
proof (intro conjI)
  show "timestamp_text leap_day = ''timestamp:Thu, 29 Feb 2024 07:05:60 -0330'' @ [NL]"
    by (simp add: timestamp_text_def leap_day_def week_days_def month_names_def name_at_def two_digits_def
        year_text_def zone_text_def dec_step [of 2024] dec_step [of 202] dec_step [of 20] dec_step [of 2] Let_def
        char_of_def bit_0)
  have "valid_tm leap_day" by (simp add: valid_tm_def leap_day_def)
  note props = timestamp_is_one_line [OF this, of 3 "\<lparr>file_bytes = [], offset = 0\<rparr>"]
  from props [of whole] show "append_timestamp_to_file False 3 whole leap_day (True, \<lparr>file_bytes = [], offset = 0\<rparr>) = Inl Deadlock"
    by auto
  from props [of "\<lambda>_ _. Some 9"] obtain l where "timestamp_text leap_day = l @ [NL]"
    "append_timestamp_to_file False 3 (\<lambda>_ _. Some 9) leap_day (False, \<lparr>file_bytes = [], offset = 0\<rparr>) =
      Inr (False, \<lparr>file_bytes = take 9 (l @ [NL]), offset = 0\<rparr>)"
    by auto
  moreover have "take 9 (timestamp_text leap_day) = ''timestamp''" by (simp add: timestamp_text_def)
  ultimately show "append_timestamp_to_file False 3 (\<lambda>_ _. Some 9) leap_day (False, \<lparr>file_bytes = [], offset = 0\<rparr>)
      = Inr (False, \<lparr>file_bytes = ''timestamp'', offset = 0\<rparr>)" by simp
qed

text \<open>\<open>SIGINT\<close> and \<open>SIGTERM\<close> end the server with its cleanup only in the build with a plain file and
  only if the timer could be set up. In every other case, and so always in the build for the
  char device, they kill it as it is: no thread is joined and nothing is freed.\<close>

theorem signals_need_timer:
  assumes "manager_inv (mgr s) bs []" and "server_address_info s = Addr_live" and "sig = SIGINT \<or> sig = SIGTERM"
    and "\<forall>l \<in> set (threads (mgr s) bs). ends (fst l)" and "timer s = no_timer"
  shows "if \<not> use_char_device s \<and> create_rc \<noteq> - 1 \<and> settime_rc \<noteq> - 1
    then \<exists>s'. deliver ends sig (start_timer create_rc settime_rc s) = Inr (Exits 1 s') \<and>
      joined s' = joined s @ map fst (threads (mgr s) bs) \<and> dom (entry_store (mgr s')) = {} \<and>
      server_address_info s' = Addr_freed \<and> tmpdata_removed s'
    else deliver ends sig (start_timer create_rc settime_rc s)
      = Inr (Exits (128 + sig) (start_timer create_rc settime_rc s))"
proof -
  obtain m where m: "thread_entry_freeall ends (mgr s) (joined s) = Some (Inr (joined s @ map fst (threads (mgr s) bs), m))"
      "manager_inv m [] []"
    using freeall_ok [OF assms(1,4), of "joined s"] by blast
  then show ?thesis
    using assms(2,3,5) empty_manager [OF m(2)]
    by (auto simp: deliver_def start_timer_def initialize_timer_def no_timer_def signal_handler_def cleanup_server_def
        ended_def freeaddrinfo_def closes_def Let_def)
qed

theorem signals_need_timer_witness:
  "deliver (\<lambda>_. True) SIGTERM (start_timer 0 0 (server0\<lparr>server_address_info := Addr_live\<rparr>))
     = Inr (Exits 143 (server0\<lparr>server_address_info := Addr_live\<rparr>)) \<and>
   (\<exists>s'. deliver (\<lambda>_. True) SIGTERM
      (start_timer 0 0 (server0\<lparr>server_address_info := Addr_live, use_char_device := False\<rparr>)) = Inr (Exits 1 s'))"
proof -
  let ?s = "server0\<lparr>server_address_info := Addr_live\<rparr>"
  have s: "manager_inv (mgr ?s) [] []" "timer ?s = no_timer" "use_char_device ?s"
    using server0_inv by (simp_all add: server0_def initialize_server_def server_boot_def)
  have "manager_inv (mgr (?s\<lparr>use_char_device := False\<rparr>)) [] []" "timer (?s\<lparr>use_char_device := False\<rparr>) = no_timer"
    using s by simp_all
  from signals_need_timer [OF this(1) _ _ _ this(2), of SIGTERM "\<lambda>_. True" 0 0]
    signals_need_timer [OF s(1) _ _ _ s(2), of SIGTERM "\<lambda>_. True" 0 0] s(3)
  show ?thesis by (simp add: threads_def start_timer_def) blast
qed

end
