(* ===== verification/File_World.thy ===== *)
theory File_World
  imports Concurrent_Clients Timer
begin

text \<open>
  The build with a plain file, its clients at once and its timer between any two of their steps:
  the world they share, what one step of a client does for any answer of the disk, and what
  every step keeps of the mutex. A client whose write is refused leaves with the mutex.
\<close>

section \<open>The world\<close>

text \<open>
  The bytes of the data file and its mutex are shared; each client has its own offset and
  buffers. The alarm is handled in one of the threads: in that of client \<open>j\<close>, or, if there is no such
  client, in that of \<open>main\<close>. With a turn comes what the disk answers in it; for an alarm also whether
  it finds its thread inside \<open>syslog\<close> or \<open>localtime\<close>, and what \<open>open\<close> returns.
\<close>

record file_world =
  data :: bytes
  data_lock :: bool
  readers :: "plain_file client list"

datatype turn = Client nat disk | Alarm nat bool int disk tm

text \<open>What is appended to the file as one: a packet of a client, or a timestamp.\<close>

datatype item = Packet nat bytes | Stamp tm

fun item_text :: "item \<Rightarrow> bytes" where
  "item_text (Packet i p) = line p"
| "item_text (Stamp t) = timestamp_text t"

definition enter_file :: "file_world \<Rightarrow> nat \<Rightarrow> plain_file client" where
  "enter_file w i =
     (let c = readers w ! i in
      c\<lparr>sess := (sess c)\<lparr>file_mutex := data_lock w, tmpdata := (tmpdata (sess c))\<lparr>file_bytes := data w\<rparr>\<rparr>\<rparr>)"

definition leave_file :: "file_world \<Rightarrow> nat \<Rightarrow> plain_file client \<Rightarrow> file_world" where
  "leave_file w i c =
     \<lparr>data = file_bytes (tmpdata (sess c)), data_lock = file_mutex (sess c), readers = (readers w)[i := c]\<rparr>"

text \<open>
  The handler of an alarm that finds the mutex held by another thread waits, and nothing is
  changed before it has it: so it is one step that is made when the mutex is free. In the
  thread that holds the mutex it waits for itself.
\<close>

definition in_holder :: "file_world \<Rightarrow> nat \<Rightarrow> bool" where
  "in_holder w j \<longleftrightarrow> j < length (readers w) \<and> holder (readers w ! j)"

fun file_step :: "turn \<Rightarrow> file_world \<Rightarrow> file_world res option" where
  "file_step (Client i disk) w =
     (if i < length (readers w)
      then map_option (\<lambda>r. bind_res r (\<lambda>c. Inr (leave_file w i c))) (client_step (plain_file_ops disk) (enter_file w i))
      else None)"
| "file_step (Alarm j in_libc fd disk t) w =
     (if \<not> in_libc \<and> fd \<noteq> - 1 \<and> data_lock w \<and> \<not> in_holder w j then None
      else
        Some (bind_res (append_timestamp_to_file in_libc fd disk t (data_lock w, \<lparr>file_bytes = data w, offset = 0\<rparr>))
          (\<lambda>(held, f). Inr (w\<lparr>data := file_bytes f, data_lock := held\<rparr>))))"

text \<open>One client for each list of results of \<open>recv\<close>, each with the file newly opened.\<close>

definition file_start :: "bytes \<Rightarrow> bytes list list \<Rightarrow> file_world" where
  "file_start d inputs =
     \<lparr>data = d, data_lock = False,
      readers = map (\<lambda>chunks. client_at Receiving [] chunks (new_session False \<lparr>file_bytes = d, offset = 0\<rparr>)) inputs\<rparr>"

text \<open>The mutex is held, and no client is at a place where it releases it.\<close>

definition abandoned :: "file_world \<Rightarrow> bool" where
  "abandoned w \<longleftrightarrow> data_lock w \<and> list_all (\<lambda>c. \<not> holder c) (readers w)"

text \<open>The write that client \<open>i\<close> makes next is refused.\<close>

definition refused :: "turn \<Rightarrow> file_world \<Rightarrow> bool" where
  "refused a w \<longleftrightarrow>
     (case a of
        Client i disk \<Rightarrow>
          phase (readers w ! i) = Locked \<and> packet (readers w ! i) \<noteq> [] \<and> disk (data w) (packet (readers w ! i)) = None \<or>
          phase (readers w ! i) = Newline \<and> disk (data w) [NL] = None
      | Alarm _ _ _ _ _ \<Rightarrow> False)"

section \<open>What one client keeps\<close>

text \<open>\<open>gave\<close> says that the client has left with the mutex: a write of it was refused.\<close>

definition reader_ok :: "bool \<Rightarrow> plain_file client \<Rightarrow> bool" where
  "reader_ok gave c \<longleftrightarrow> [] \<notin> set (incoming c) \<and> NL \<notin> set (packet c) \<and>
     offset (tmpdata (sess c)) \<le> length (file_bytes (tmpdata (sess c))) \<and>
     (if gave then phase c = Receiving \<or> phase c = Closed
      else
        case phase c of
          Receiving \<Rightarrow> short_from (length (packet c)) (rest_of c)
        | Locked \<Rightarrow> length (packet c) < BUFFER_SIZE \<and> short_from 0 (rest_of c)
        | Newline \<Rightarrow> short_from 0 (rest_of c)
        | Unlocking \<Rightarrow> short_from 0 (rest_of c)
        | Sending \<Rightarrow> packet c = [] \<and> short_from 0 (rest_of c)
        | Closed \<Rightarrow> rest_of c = [])"

abbreviation file_of :: "plain_file client \<Rightarrow> bytes" where
  "file_of c \<equiv> file_bytes (tmpdata (sess c))"

text \<open>Steps that are left, as long as the file is not longer than \<open>b\<close>.\<close>

definition left_to_do :: "nat \<Rightarrow> plain_file client \<Rightarrow> nat" where
  "left_to_do b c = 6 * length (rest_of c) + length (incoming c) + phase_weight (phase c)
     + (b - offset (tmpdata (sess c)))"

text \<open>What the disk takes of the bytes; and a client that goes on to its next byte from a place where it holds the mutex.\<close>

definition taken :: "disk \<Rightarrow> bytes \<Rightarrow> bytes \<Rightarrow> bytes" where
  "taken disk f d = (case disk f d of None \<Rightarrow> [] | Some n \<Rightarrow> take n d)"

definition gives_up :: "plain_file client \<Rightarrow> plain_file client \<Rightarrow> bool" where
  "gives_up c c' \<longleftrightarrow> holder c \<and> phase c' = Receiving"

text \<open>What a step of a client does to the shared state and to what it still has to do.\<close>

definition reader_does :: "bool \<Rightarrow> disk \<Rightarrow> plain_file client \<Rightarrow> plain_file client \<Rightarrow> bool" where
  "reader_does gave disk c c' \<longleftrightarrow> reader_ok (gave \<or> gives_up c c') c' \<and>
     file_of c' = file_of c @
       (if phase c = Locked then taken disk (file_of c) (packet c)
        else if phase c = Newline then taken disk (file_of c) [NL] else []) \<and>
     (\<not> gave \<and> \<not> gives_up c c' \<longrightarrow>
        (if phase c = Newline then line (packet c) else []) @ at_hand c' @ rest_of c' = at_hand c @ rest_of c) \<and>
     (\<forall>b. length (file_of c') \<le> b \<longrightarrow> left_to_do b c' < left_to_do b c) \<and>
     (phase c' = Newline \<longleftrightarrow> phase c = Locked \<and> \<not> gives_up c c') \<and> (phase c = Locked \<longrightarrow> packet c' = packet c) \<and>
     (gives_up c c' \<longleftrightarrow> phase c = Locked \<and> packet c \<noteq> [] \<and> disk (file_of c) (packet c) = None \<or>
        phase c = Newline \<and> disk (file_of c) [NL] = None) \<and>
     (gives_up c c' \<or> holder c = holder c' \<longrightarrow> file_mutex (sess c') = file_mutex (sess c)) \<and>
     (\<not> gives_up c c' \<and> holder c \<noteq> holder c' \<longrightarrow> file_mutex (sess c) = holder c \<and> file_mutex (sess c') = holder c')"

lemma reader_doesD:
  assumes "reader_does gave disk c c'"
  shows "reader_ok (gave \<or> gives_up c c') c'"
    and "file_of c' = file_of c @
       (if phase c = Locked then taken disk (file_of c) (packet c)
        else if phase c = Newline then taken disk (file_of c) [NL] else [])"
    and "\<not> gave \<Longrightarrow> \<not> gives_up c c' \<Longrightarrow>
      (if phase c = Newline then line (packet c) else []) @ at_hand c' @ rest_of c' = at_hand c @ rest_of c"
    and "length (file_of c') \<le> b \<Longrightarrow> left_to_do b c' < left_to_do b c"
    and "phase c' = Newline \<longleftrightarrow> phase c = Locked \<and> \<not> gives_up c c'" and "phase c = Locked \<Longrightarrow> packet c' = packet c"
    and "gives_up c c' \<longleftrightarrow> phase c = Locked \<and> packet c \<noteq> [] \<and> disk (file_of c) (packet c) = None \<or>
      phase c = Newline \<and> disk (file_of c) [NL] = None"
    and "gives_up c c' \<or> holder c = holder c' \<Longrightarrow> file_mutex (sess c') = file_mutex (sess c)"
    and "\<not> gives_up c c' \<Longrightarrow> holder c \<noteq> holder c' \<Longrightarrow> file_mutex (sess c) = holder c \<and> file_mutex (sess c') = holder c'"
  using assms unfolding reader_does_def by (blast, blast, blast, blast, blast, blast, blast, blast, blast)

lemmas reader_defs = reader_ok_def reader_does_def client_step_def left_to_do_def at_hand_def rest_of_def
  packet_def holder_def line_def gives_up_def taken_def

lemma reader_receives:
  assumes "reader_ok gave c" and "phase c = Receiving" and "todo c = []"
  shows "\<exists>c'. client_step (plain_file_ops disk) c = Some (Inr c') \<and> reader_does gave disk c c'"
  using assms by (cases "incoming c") (auto simp: reader_defs receive_step_def)

lemma reader_takes_byte:
  assumes "reader_ok gave c" and "phase c = Receiving" and "todo c = x # xs" and "x \<noteq> NL"
    and "length (packet c) < BUFFER_SIZE"
  shows "\<exists>c'. client_step (plain_file_ops disk) c = Some (Inr c') \<and> reader_does gave disk c c'"
  using assms by (auto simp: reader_defs Let_def)

lemma reader_locks:
  assumes "reader_ok False c" and "phase c = Receiving" and "todo c = NL # xs"
  shows "if file_mutex (sess c) then client_step (plain_file_ops disk) c = None
    else \<exists>c'. client_step (plain_file_ops disk) c = Some (Inr c') \<and> reader_does False disk c c'"
  using assms by (auto simp: reader_defs c_string_def)

lemma reader_writes:
  assumes "reader_ok False c" and "phase c = Locked"
  shows "\<exists>c'. client_step (plain_file_ops disk) c = Some (Inr c') \<and> reader_does False disk c c'"
  using assms
  by (cases "disk (file_of c) (packet c)"; cases "packet c = []")
    (auto simp: reader_defs locked_step_def c_string_def append_write_def Let_def)

lemma reader_writes_newline:
  assumes "reader_ok False c" and "phase c = Newline"
  shows "\<exists>c'. client_step (plain_file_ops disk) c = Some (Inr c') \<and> reader_does False disk c c'"
  using assms
  by (cases "disk (file_of c) [NL]") (auto simp: reader_defs newline_step_def append_write_def Let_def)

lemma reader_unlocks:
  assumes "reader_ok False c" and "phase c = Unlocking" and "file_mutex (sess c)"
  shows "\<exists>c'. client_step (plain_file_ops disk) c = Some (Inr c') \<and> reader_does False disk c c'"
  using assms by (auto simp: reader_defs Let_def)

lemma reader_sends:
  assumes "reader_ok False c" and "phase c = Sending"
  shows "\<exists>c'. client_step (plain_file_ops disk) c = Some (Inr c') \<and> reader_does False disk c c'"
proof (cases "offset (tmpdata (sess c)) < length (file_of c)")
  case True
  define bs where "bs = take BUFFER_SIZE (drop (offset (tmpdata (sess c))) (file_of c))"
  have bs: "bs \<noteq> []" "length bs \<le> length (file_of c) - offset (tmpdata (sess c))"
    using True by (simp_all add: bs_def)
  let ?c' = "c\<lparr>sess := (sess c)\<lparr>tmpdata := (tmpdata (sess c))\<lparr>offset := offset (tmpdata (sess c)) + length bs\<rparr>,
    sent := sent (sess c) @ bs\<rparr>\<rparr>"
  have "client_step (plain_file_ops disk) c = Some (Inr ?c')"
    using assms(2) bs(1)
    by (simp add: client_step_def sending_step_def plain_read_def Let_def send_bytes_def flip: bs_def)
  moreover have "reader_does False disk c ?c'"
    using assms bs True by (auto simp: reader_defs neq_Nil_conv)
  ultimately show ?thesis by blast
next
  case False
  then show ?thesis
    using assms by (auto simp: reader_defs sending_step_def plain_read_def)
qed

text \<open>A client that has left with the mutex takes bytes until its next newline, or until its buffer is full.\<close>

lemma reader_gone:
  assumes "reader_ok True c" and "file_mutex (sess c)"
  shows "case client_step (plain_file_ops disk) c of
      None \<Rightarrow> phase c = Closed \<or> phase c = Receiving \<and> (\<exists>xs. todo c = NL # xs)
    | Some (Inl e) \<Rightarrow> e = Out_Of_Bounds
    | Some (Inr c') \<Rightarrow> reader_does True disk c c'"
proof -
  consider (closed) "phase c = Closed" | (empty) "phase c = Receiving" "todo c = []"
    | (byte) x xs where "phase c = Receiving" "todo c = x # xs" "x \<noteq> NL"
    | (packet) xs where "phase c = Receiving" "todo c = NL # xs"
    using assms(1) by (cases "todo c") (auto simp: reader_ok_def)
  then show ?thesis
  proof cases
    case closed
    then show ?thesis by (simp add: client_step_def)
  next
    case empty
    then show ?thesis using reader_receives [OF assms(1) empty, of disk] by auto
  next
    case byte
    then show ?thesis
      using reader_takes_byte [OF assms(1) byte, of disk]
      by (cases "length (packet c) < BUFFER_SIZE") (auto simp: client_step_def packet_def)
  next
    case packet
    then show ?thesis using assms(2) by (simp add: client_step_def c_string_def Let_def)
  qed
qed

lemma reader_turn:
  assumes ok: "reader_ok gave c" and lock: "holder c \<or> gave \<Longrightarrow> file_mutex (sess c)"
  shows "case client_step (plain_file_ops disk) c of
      None \<Rightarrow> phase c = Closed \<or> phase c = Receiving \<and> file_mutex (sess c) \<and> (\<exists>xs. todo c = NL # xs)
    | Some (Inl e) \<Rightarrow> gave \<and> e = Out_Of_Bounds
    | Some (Inr c') \<Rightarrow> reader_does gave disk c c'"
proof (cases gave)
  case True
  then show ?thesis using reader_gone [of c disk] assms by (auto split: option.splits sum.splits)
next
  case False
  then have gave: "gave = False" by simp
  note ok = ok [unfolded gave]
  show ?thesis
  proof (cases "phase c")
    case Receiving
    show ?thesis
    proof (cases "todo c")
      case Nil
      then show ?thesis using reader_receives [OF ok Receiving, of disk] gave by auto
    next
      case (Cons x xs)
      have "length (packet c) < BUFFER_SIZE" using ok Receiving Cons by (simp add: reader_ok_def rest_of_def)
      then show ?thesis
        using reader_takes_byte [OF ok Receiving Cons, of disk] reader_locks [OF ok Receiving, of xs disk] Receiving Cons gave
        by (cases "x = NL"; cases "file_mutex (sess c)") auto
    qed
  next
    case Closed
    then show ?thesis by (simp add: client_step_def)
  next
    case Unlocking
    then show ?thesis using reader_unlocks [OF ok, of disk] lock gave by (auto simp: holder_def)
  qed (use reader_writes [OF ok, of disk] reader_writes_newline [OF ok, of disk] reader_sends [OF ok, of disk] gave in auto)
qed

section \<open>What every step keeps\<close>

lemma enter_file_simps [simp]:
  "phase (enter_file w i) = phase (readers w ! i)" "packet (enter_file w i) = packet (readers w ! i)"
  "rest_of (enter_file w i) = rest_of (readers w ! i)" "file_of (enter_file w i) = data w"
  "file_mutex (sess (enter_file w i)) = data_lock w" "at_hand (enter_file w i) = at_hand (readers w ! i)"
  "holder (enter_file w i) = holder (readers w ! i)" "left_to_do b (enter_file w i) = left_to_do b (readers w ! i)"
  "todo (enter_file w i) = todo (readers w ! i)"
  by (simp_all add: enter_file_def Let_def packet_def rest_of_def at_hand_def holder_def left_to_do_def
      cong: phase.case_cong)

lemma leave_file_simps [simp]:
  "data (leave_file w i c) = file_of c" "data_lock (leave_file w i c) = file_mutex (sess c)"
  "readers (leave_file w i c) = (readers w)[i := c]"
  by (simp_all add: leave_file_def)

text \<open>A client is as it was when others have appended to the file.\<close>

lemma reader_ok_longer:
  assumes "reader_ok gave (enter_file w j)" and "readers w' ! j = readers w ! j" and "length (data w) \<le> length (data w')"
  shows "reader_ok gave (enter_file w' j)"
  using assms by (auto simp: reader_ok_def enter_file_def Let_def packet_def rest_of_def cong: phase.case_cong)

lemma reader_ok_left:
  assumes "reader_ok gave c" and "i < length (readers w)"
  shows "reader_ok gave (enter_file (leave_file w i c) i)"
  using assms by (auto simp: reader_ok_def enter_file_def Let_def packet_def rest_of_def cong: phase.case_cong)

text \<open>\<open>k\<close> is the client that has left with the mutex, if one has.\<close>

definition share_inv :: "nat option \<Rightarrow> nat \<Rightarrow> file_world \<Rightarrow> bool" where
  "share_inv k n w \<longleftrightarrow> length (readers w) = n \<and> (\<forall>i < n. reader_ok (k = Some i) (enter_file w i)) \<and>
     (if k = None then lock_inv (data_lock w) (readers w) else abandoned w)"

lemma abandonedD: "abandoned w \<Longrightarrow> i < length (readers w) \<Longrightarrow> \<not> holder (readers w ! i)" "abandoned w \<Longrightarrow> data_lock w"
  by (simp_all add: abandoned_def list_all_length)

lemma share_abandoned: "share_inv k n w \<Longrightarrow> abandoned w \<longleftrightarrow> k \<noteq> None"
  by (auto simp: share_inv_def lock_inv_def abandoned_def list_all_length split: if_splits)

lemma share_turn:
  assumes inv: "share_inv k n w" and i: "i < n"
  shows "case client_step (plain_file_ops disk) (enter_file w i) of
      None \<Rightarrow> phase (readers w ! i) = Closed \<or>
        phase (readers w ! i) = Receiving \<and> data_lock w \<and> (\<exists>xs. todo (readers w ! i) = NL # xs)
    | Some (Inl e) \<Rightarrow> k = Some i \<and> e = Out_Of_Bounds
    | Some (Inr c') \<Rightarrow> reader_does (k = Some i) disk (enter_file w i) c'"
proof -
  have "holder (readers w ! i) \<or> k = Some i \<Longrightarrow> data_lock w"
    using inv i abandonedD(2) by (auto simp: share_inv_def lock_inv_def split: if_splits)
  then show ?thesis
    using reader_turn [of "k = Some i" "enter_file w i" disk] inv i
    by (simp add: share_inv_def cong: option.case_cong sum.case_cong)
qed

lemma share_step:
  assumes inv: "share_inv k n w" and step: "file_step (Client i disk) w = Some (Inr w')"
  obtains c' where "i < n" and "w' = leave_file w i c'" and "reader_does (k = Some i) disk (enter_file w i) c'"
    and "gives_up (enter_file w i) c' \<longleftrightarrow> refused (Client i disk) w"
proof -
  have i: "i < n" "i < length (readers w)" using step inv by (auto simp: share_inv_def split: if_splits)
  then obtain c' where c': "client_step (plain_file_ops disk) (enter_file w i) = Some (Inr c')" "w' = leave_file w i c'"
    using step by (auto simp: bind_res_Inr_iff)
  then have does: "reader_does (k = Some i) disk (enter_file w i) c'" using share_turn [OF inv i(1), of disk] by simp
  show ?thesis using that [OF i(1) c'(2) does] reader_doesD(7) [OF does] by (simp add: refused_def)
qed

lemma share_client:
  assumes inv: "share_inv k n w" and step: "file_step (Client i disk) w = Some (Inr w')"
  shows "share_inv (if refused (Client i disk) w then Some i else k) n w'" and "length (data w) \<le> length (data w')"
    and "length (data w') \<le> b \<Longrightarrow>
      sum_list (map (left_to_do b) (readers w')) < sum_list (map (left_to_do b) (readers w))"
    and "k \<noteq> None \<Longrightarrow> data w' = data w \<and> \<not> refused (Client i disk) w"
proof -
  obtain c' where c': "i < n" "w' = leave_file w i c'" "reader_does (k = Some i) disk (enter_file w i) c'"
      "gives_up (enter_file w i) c' \<longleftrightarrow> refused (Client i disk) w"
    using share_step [OF inv step] by blast
  note does = reader_doesD [OF c'(3)]
  have n: "length (readers w) = n" and i: "i < length (readers w)" using inv c'(1) by (simp_all add: share_inv_def)
  show longer: "length (data w) \<le> length (data w')" using does(2) c'(2) by simp
  show "sum_list (map (left_to_do b) (readers w')) < sum_list (map (left_to_do b) (readers w))"
    if "length (data w') \<le> b"
    using does(4) [of b] that sum_list_update_add [OF i, of "left_to_do b" c'] c'(2) by simp
  have free: "\<not> holder (readers w ! i)" if "k \<noteq> None"
    using that share_abandoned [OF inv] abandonedD(1) i by simp
  then have not_writing: "phase (readers w ! i) \<noteq> Locked" "phase (readers w ! i) \<noteq> Newline" if "k \<noteq> None"
    using that holder_phases by blast+
  then show "data w' = data w \<and> \<not> refused (Client i disk) w" if "k \<noteq> None"
    using that does(2) c'(2) by (simp add: refused_def)
  have "reader_ok ((if refused (Client i disk) w then Some i else k) = Some j) (enter_file w' j)" if j: "j < n" for j
  proof (cases "j = i")
    case True
    have "k = Some i \<or> refused (Client i disk) w \<longleftrightarrow> (if refused (Client i disk) w then Some i else k) = Some i" by simp
    then show ?thesis using reader_ok_left [OF does(1) i] c'(2,4) True by simp
  next
    case False
    have "refused (Client i disk) w \<Longrightarrow> k = None" using not_writing by (cases k) (auto simp: refused_def)
    then have "reader_ok ((if refused (Client i disk) w then Some i else k) = Some j) (enter_file w j)"
      using inv j False by (auto simp: share_inv_def)
    then show ?thesis by (rule reader_ok_longer [OF _ _ longer]) (use c'(2) False in simp)
  qed
  moreover have "if (if refused (Client i disk) w then Some i else k) = None then lock_inv (data_lock w') (readers w')
    else abandoned w'"
  proof (cases "k = None")
    case True
    then have lock: "lock_inv (data_lock w) (readers w)" using inv by (simp add: share_inv_def)
    show ?thesis
    proof (cases "refused (Client i disk) w")
      case False
      then have "lock_inv (file_mutex (sess c')) ((readers w)[i := c'])"
        using does(8,9) c'(4) by (intro lock_inv_update [OF lock i]) simp_all
      then show ?thesis using False True c'(2) by simp
    next
      case gone: True
      then have "holder (readers w ! i)" "\<not> holder c'" using c'(4) by (auto simp: gives_up_def holder_def)
      moreover have "\<not> holder ((readers w)[i := c'] ! j)" if "j < length (readers w)" for j
        using lock_inv_only [OF lock i that] calculation that by (cases "j = i") auto
      moreover have "file_mutex (sess c') = data_lock w" using does(8) c'(4) gone by simp
      moreover have "data_lock w" using lock i calculation(1) by (auto simp: lock_inv_def)
      ultimately show ?thesis
        using gone c'(2) by (auto simp: abandoned_def list_all_length)
    qed
  next
    case False
    then have ab: "abandoned w" using inv by (simp add: share_inv_def)
    then have held: "data_lock w" by (rule abandonedD)
    have "\<not> gives_up (enter_file w i) c'" using free False by (simp add: gives_up_def)
    then have "\<not> holder c' \<and> file_mutex (sess c')" using does(8,9) free [OF False] held by auto
    moreover from this have "\<not> holder ((readers w)[i := c'] ! j)" if "j < length (readers w)" for j
      using abandonedD(1) [OF ab that] that by (cases "j = i") simp_all
    ultimately have "abandoned w'" using c'(2) by (auto simp: abandoned_def list_all_length)
    then show ?thesis using False by (cases k) auto
  qed
  moreover have "length (readers w') = n" using n c'(2) by simp
  ultimately show "share_inv (if refused (Client i disk) w then Some i else k) n w'"
    unfolding share_inv_def by blast
qed

lemma alarm_does:
  assumes "file_step (Alarm j in_libc fd disk t) w = Some (Inr w')"
  shows "if fd \<noteq> - 1 then \<not> data_lock w \<and> w' = w\<lparr>data := data w @ taken disk (data w) (timestamp_text t)\<rparr> else w' = w"
proof -
  have "timestamp_text t \<noteq> []" by (simp add: timestamp_text_def)
  then show ?thesis
    using assms
    by (cases w) (auto simp: append_timestamp_to_file_def append_write_def taken_def Let_def split: if_splits option.splits)
qed

lemma share_alarm:
  assumes inv: "share_inv k n w" and step: "file_step (Alarm j in_libc fd disk t) w = Some (Inr w')"
  shows "share_inv k n w'" and "length (data w) \<le> length (data w')" and "readers w' = readers w"
    and "k \<noteq> None \<Longrightarrow> data w' = data w"
proof -
  note a = alarm_does [OF step]
  show longer: "length (data w) \<le> length (data w')" and same: "readers w' = readers w" using a by (auto split: if_splits)
  have lock: "data_lock w' = data_lock w" using a by (auto split: if_splits)
  show "data w' = data w" if "k \<noteq> None"
    using a that share_abandoned [OF inv] abandonedD(2) by (auto split: if_splits)
  have "reader_ok (k = Some i) (enter_file w' i)" if "i < n" for i
    using inv that reader_ok_longer [OF _ _ longer, of _ i] same by (simp add: share_inv_def)
  then show "share_inv k n w'" using inv lock same by (auto simp: share_inv_def abandoned_def)
qed

lemma share_progress:
  assumes inv: "share_inv k n w"
  shows "file_step (Client i disk) w = Some (Inl e) \<Longrightarrow> k = Some i \<and> e = Out_Of_Bounds"
    and "k = None \<Longrightarrow> (\<forall>i disk. file_step (Client i disk) w = None) \<longleftrightarrow> (\<forall>c \<in> set (readers w). phase c = Closed)"
    and "k \<noteq> None \<Longrightarrow> \<forall>i disk. file_step (Client i disk) w = None \<Longrightarrow>
      \<forall>c \<in> set (readers w). phase c = Closed \<or> phase c = Receiving \<and> (\<exists>xs. todo c = NL # xs)"
proof -
  have n: "length (readers w) = n" using inv by (simp add: share_inv_def)
  note turn = share_turn [OF inv, of _ whole]
  show "k = Some i \<and> e = Out_Of_Bounds" if "file_step (Client i disk) w = Some (Inl e)"
    using that share_turn [OF inv, of i disk] n by (auto simp: bind_res_Inl_iff split: if_splits)
  have waits: "phase (readers w ! j) = Closed \<or>
      phase (readers w ! j) = Receiving \<and> data_lock w \<and> (\<exists>xs. todo (readers w ! j) = NL # xs)"
    if none: "\<forall>i disk. file_step (Client i disk) w = None" and j: "j < n" for j
  proof -
    have "file_step (Client j whole) w = None" using none by blast
    then show ?thesis using turn [OF j] j n by (auto split: option.splits)
  qed
  show "\<forall>c \<in> set (readers w). phase c = Closed \<or> phase c = Receiving \<and> (\<exists>xs. todo c = NL # xs)"
    if "\<forall>i disk. file_step (Client i disk) w = None"
    using waits [OF that] n by (metis in_set_conv_nth)
  assume k: "k = None"
  have "phase (readers w ! j) = Closed"
    if none: "\<forall>i disk. file_step (Client i disk) w = None" and j: "j < n" for j
  proof -
    have "\<not> (\<exists>i < length (readers w). holder (readers w ! i))" using waits [OF none] n by (fastforce simp: holder_def)
    then have "\<not> data_lock w" using inv k unfolding share_inv_def lock_inv_def by auto
    then show ?thesis using waits [OF none j] by simp
  qed
  moreover have "file_step (Client j disk) w = None" if "\<forall>c \<in> set (readers w). phase c = Closed" for j disk
    using that by (simp add: client_step_def)
  ultimately show "(\<forall>i disk. file_step (Client i disk) w = None) \<longleftrightarrow> (\<forall>c \<in> set (readers w). phase c = Closed)"
    using n by (metis in_set_conv_nth)
qed

lemma alarm_faults:
  assumes "share_inv k n w" and "valid_tm t"
  shows "file_step (Alarm j in_libc fd disk t) w = Some (Inl e) \<longleftrightarrow>
    e = Deadlock \<and> (in_libc \<or> fd \<noteq> - 1 \<and> in_holder w j)"
proof -
  have "in_holder w j \<Longrightarrow> data_lock w"
    using assms(1) abandonedD by (auto simp: in_holder_def lock_inv_def share_inv_def split: if_splits)
  then show ?thesis
    using assms(2) timestamp_length [of t]
    by (auto simp: append_timestamp_to_file_def append_write_def Let_def bind_res_def split: sum.splits option.splits)
qed

end
