(* ===== verification/Shared_File.thy ===== *)
theory Shared_File
  imports Shared_Device File_World
begin

text \<open>
  The build with a plain file: its clients run at once and its timer goes off between any two of
  their steps. What every interleaving keeps of the data file, when it can go on, and what is
  left of it when a write is refused.
\<close>

section \<open>Runs\<close>

text \<open>The item that a turn completes, if the disk takes the whole of it.\<close>

fun completes :: "turn \<Rightarrow> file_world \<Rightarrow> item list" where
  "completes (Client i disk) w = (if phase (readers w ! i) = Newline then [Packet i (packet (readers w ! i))] else [])"
| "completes (Alarm j in_libc fd disk t) w =
     (if fd \<noteq> - 1 \<and> disk (data w) (timestamp_text t) \<noteq> None then [Stamp t] else [])"

definition client_turns :: "turn \<Rightarrow> nat" where
  "client_turns a = (case a of Client i disk \<Rightarrow> 1 | Alarm j in_libc fd disk t \<Rightarrow> 0)"

text \<open>
  \<open>turn_runs P w0 n log w\<close>: \<open>n\<close> steps of clients, and any number of alarms, lead from \<open>w0\<close> to \<open>w\<close>,
  each with a turn that satisfies \<open>P\<close>. In \<open>file_runs\<close> a client's write takes everything, and that
  of a timestamp everything or nothing.
\<close>

inductive turn_runs :: "(turn \<Rightarrow> bool) \<Rightarrow> file_world \<Rightarrow> nat \<Rightarrow> item list \<Rightarrow> file_world \<Rightarrow> bool" for P w0 where
  turn_runs_0: "turn_runs P w0 0 [] w0"
| turn_runs_turn: "turn_runs P w0 n log w \<Longrightarrow> P a \<Longrightarrow> file_step a w = Some (Inr w') \<Longrightarrow>
    turn_runs P w0 (n + client_turns a) (log @ completes a w) w'"

definition whole_writes :: "turn \<Rightarrow> bool" where
  "whole_writes a \<longleftrightarrow>
     (case a of Client i disk \<Rightarrow> disk = whole | Alarm j in_libc fd disk t \<Rightarrow> disk = whole \<or> disk = (\<lambda>_ _. None))"

abbreviation file_runs :: "file_world \<Rightarrow> nat \<Rightarrow> item list \<Rightarrow> file_world \<Rightarrow> bool" where
  "file_runs \<equiv> turn_runs whole_writes"



lemma start_share:
  assumes "short_inputs inputs"
  shows "share_inv None (length inputs) (file_start d inputs)"
  using assms
  by (auto simp: share_inv_def lock_inv_def file_start_def short_inputs_def reader_ok_def enter_file_def holder_def
      packet_def rest_of_def new_session_def Let_def)



section \<open>What the file holds if every write is whole\<close>

fun packets_by :: "nat \<Rightarrow> item list \<Rightarrow> bytes list" where
  "packets_by i [] = []"
| "packets_by i (Packet j p # log) = (if j = i then p # packets_by i log else packets_by i log)"
| "packets_by i (Stamp t # log) = packets_by i log"

lemma packets_by_append [simp]: "packets_by i (log @ log') = packets_by i log @ packets_by i log'"
  by (induction i log rule: packets_by.induct) simp_all

definition items_ok :: "item list \<Rightarrow> bool" where
  "items_ok log \<longleftrightarrow> (\<forall>i p. Packet i p \<in> set log \<longrightarrow> NL \<notin> set p)"

text \<open>What is in the file: its old bytes, the items, and the packet whose newline is not written yet.\<close>

definition data_is :: "bytes \<Rightarrow> file_world \<Rightarrow> bool" where
  "data_is d w \<longleftrightarrow>
     (\<forall>i < length (readers w). phase (readers w ! i) = Newline \<longrightarrow> data w = d @ packet (readers w ! i)) \<and>
     ((\<forall>i < length (readers w). phase (readers w ! i) \<noteq> Newline) \<longrightarrow> data w = d)"

definition file_inv :: "bytes \<Rightarrow> bytes list list \<Rightarrow> item list \<Rightarrow> file_world \<Rightarrow> bool" where
  "file_inv d inputs log w \<longleftrightarrow>
     share_inv None (length inputs) w \<and> data_is (d @ concat (map item_text log)) w \<and> items_ok log \<and>
     (\<forall>i < length inputs.
        concat (map line (packets_by i log)) @ at_hand (readers w ! i) @ rest_of (readers w ! i) = concat (inputs ! i))"

lemma file_invD:
  assumes "file_inv d inputs log w"
  shows "lock_inv (data_lock w) (readers w)" and "length (readers w) = length inputs"
    and "i < length inputs \<Longrightarrow> reader_ok False (enter_file w i)"
  using assms by (auto simp: file_inv_def share_inv_def)

lemma whole_taken [simp]: "taken whole f d = d" "\<not> refused (Client i whole) w"
  by (auto simp: taken_def refused_def whole_def)

lemma data_is_leave:
  assumes lock: "lock_inv (data_lock w) (readers w)" and d: "data_is d w" and i: "i < length (readers w)"
    and does: "reader_does False whole (enter_file w i) c'" and stays: "\<not> gives_up (enter_file w i) c'"
  shows "data_is (d @ concat (map item_text (completes (Client i whole) w))) (leave_file w i c')"
proof -
  have alone: "phase (readers w ! j) \<noteq> Newline" if "j < length (readers w)" "j \<noteq> i" "holder (readers w ! i)" for j
    using lock_inv_only [OF lock i that(1) that(3)] that(2) holder_phases by metis
  have grows: "file_of c' = data w @ (if phase (readers w ! i) = Locked then packet (readers w ! i)
      else if phase (readers w ! i) = Newline then [NL] else [])"
    and phases: "phase c' = Newline \<longleftrightarrow> phase (readers w ! i) = Locked"
      "phase (readers w ! i) = Locked \<Longrightarrow> packet c' = packet (readers w ! i)"
    using reader_doesD(2,5,6) [OF does] stays by simp_all
  consider (locked) "phase (readers w ! i) = Locked" | (newline) "phase (readers w ! i) = Newline"
    | (other) "phase (readers w ! i) \<noteq> Locked" "phase (readers w ! i) \<noteq> Newline"
    by blast
  then show ?thesis
  proof cases
    case other
    then have "file_of c' = data w" using grows by simp
    then show ?thesis using d other i phases(1) by (auto simp: data_is_def nth_list_update)
  next
    case locked
    then have "phase (readers w ! j) \<noteq> Newline" if "j < length (readers w)" for j
      using alone that by (cases "j = i") auto
    then have "data w = d" using d by (simp add: data_is_def)
    then show ?thesis using alone grows phases i locked by (auto simp: data_is_def nth_list_update)
  next
    case newline
    then show ?thesis using alone grows phases d i by (auto simp: data_is_def nth_list_update line_def)
  qed
qed

lemma file_inv_client:
  assumes inv: "file_inv d inputs log w" and step: "file_step (Client i whole) w = Some (Inr w')"
  shows "file_inv d inputs (log @ completes (Client i whole) w) w'"
proof -
  have share: "share_inv None (length inputs) w" using inv by (simp add: file_inv_def)
  obtain c' where c': "i < length inputs" "w' = leave_file w i c'" "reader_does False whole (enter_file w i) c'"
      "\<not> gives_up (enter_file w i) c'"
    using share_step [OF share step] by auto
  note lock = file_invD(1,2) [OF inv]
  then have i: "i < length (readers w)" using c'(1) by simp
  have "concat (map line (packets_by j (log @ completes (Client i whole) w))) @ at_hand (readers w' ! j) @
      rest_of (readers w' ! j) = concat (inputs ! j)" if "j < length inputs" for j
    using reader_doesD(3) [OF c'(3) _ c'(4)] inv that i c'(2) by (cases "j = i") (auto simp: file_inv_def split: if_splits)
  moreover have "items_ok (log @ completes (Client i whole) w)"
    using inv file_invD(3) [OF inv c'(1)] by (auto simp: items_ok_def file_inv_def reader_ok_def)
  moreover have "data_is ((d @ concat (map item_text log)) @ concat (map item_text (completes (Client i whole) w))) w'"
    using inv data_is_leave [OF lock(1) _ i c'(3,4), of "d @ concat (map item_text log)"] c'(2)
    by (simp add: file_inv_def del: completes.simps)
  ultimately show ?thesis using share_client(1) [OF share step] by (simp add: file_inv_def)
qed

lemma file_inv_alarm:
  assumes inv: "file_inv d inputs log w" and step: "file_step (Alarm j in_libc fd disk t) w = Some (Inr w')"
    and disk: "disk = whole \<or> disk = (\<lambda>_ _. None)"
  shows "file_inv d inputs (log @ completes (Alarm j in_libc fd disk t) w) w'"
proof -
  note a = alarm_does [OF step]
  have share: "share_inv None (length inputs) w" using inv by (simp add: file_inv_def)
  have "phase (readers w ! k) \<noteq> Newline" if "\<not> data_lock w" "k < length (readers w)" for k
    using file_invD(1) [OF inv] that holder_phases(2) unfolding lock_inv_def by blast
  then show ?thesis
    using inv a disk share_alarm(1) [OF share step]
    by (auto simp: file_inv_def data_is_def items_ok_def taken_def whole_def split: if_splits)
qed

lemma file_runs_inv:
  assumes "short_inputs inputs" and "file_runs (file_start d inputs) n log w"
  shows "file_inv d inputs log w"
  using assms(2)
proof induction
  case turn_runs_0
  have "data_is d (file_start d inputs)" by (auto simp: data_is_def file_start_def)
  then show ?case
    using start_share [OF assms(1)]
    by (auto simp: file_inv_def items_ok_def file_start_def at_hand_def packet_def rest_of_def new_session_def)
next
  case (turn_runs_turn n log w a w')
  then show ?case
    using file_inv_client file_inv_alarm by (cases a) (auto simp: whole_writes_def simp del: completes.simps file_step.simps)
qed

text \<open>The packets of a client are the complete lines of its bytes, and the lines of the file are the items.\<close>

lemma packets_by_no_NL: "items_ok log \<Longrightarrow> \<forall>p \<in> set (packets_by i log). NL \<notin> set p"
  by (induction i log rule: packets_by.induct) (auto simp: items_ok_def)

lemma split_items:
  "items_ok log \<Longrightarrow> NL \<notin> set r \<Longrightarrow> split_cmds (concat (map item_text log) @ r) = (map item_text log, r)"
proof (induction log)
  case (Cons x log)
  obtain l where "item_text x = l @ [NL]" "NL \<notin> set l"
  proof (cases x)
    case (Stamp t)
    then show ?thesis using that timestamp_line [of t] by auto
  qed (use that Cons.prems(1) in \<open>auto simp: items_ok_def line_def\<close>)
  then show ?case using Cons by (simp add: items_ok_def split_cmds_cmd)
qed (simp add: split_cmds_none)

definition in_writing :: "file_world \<Rightarrow> bytes" where
  "in_writing w = concat (map (\<lambda>c. if phase c = Newline then packet c else []) (readers w))"

lemma concat_only:
  "i < length xs \<Longrightarrow> \<forall>j < length xs. j \<noteq> i \<longrightarrow> f (xs ! j) = [] \<Longrightarrow> concat (map f xs) = f (xs ! i)"
proof (induction xs arbitrary: i)
  case (Cons x xs)
  show ?case
  proof (cases i)
    case 0
    then have "\<forall>y \<in> set xs. f y = []" using Cons.prems(2) by (fastforce simp: in_set_conv_nth)
    then show ?thesis using 0 by simp
  next
    case (Suc i')
    then have "f x = []" "\<forall>j < length xs. j \<noteq> i' \<longrightarrow> f (xs ! j) = []" using Cons.prems(2) by fastforce+
    then show ?thesis using Cons Suc by simp
  qed
qed simp

lemma file_inv_data:
  assumes "file_inv d inputs log w"
  shows "data w = d @ concat (map item_text log) @ in_writing w" and "NL \<notin> set (in_writing w)"
proof -
  have "data w = d @ concat (map item_text log) @ in_writing w \<and> NL \<notin> set (in_writing w)"
  proof (cases "\<exists>i < length (readers w). phase (readers w ! i) = Newline")
    case True
    then obtain i where i: "i < length (readers w)" "phase (readers w ! i) = Newline" by blast
    then have "\<forall>j < length (readers w). j \<noteq> i \<longrightarrow> phase (readers w ! j) \<noteq> Newline"
      using lock_inv_only [OF file_invD(1) [OF assms], of i] holder_phases(2) by metis
    then have "in_writing w = packet (readers w ! i)"
      using concat_only [OF i(1), of "\<lambda>c. if phase c = Newline then packet c else []"] i(2)
      by (simp add: in_writing_def)
    moreover have "NL \<notin> set (packet (readers w ! i))"
      using file_invD(2,3) [OF assms] i(1) by (simp add: reader_ok_def)
    ultimately show ?thesis using assms i by (simp add: file_inv_def data_is_def)
  next
    case False
    then have "in_writing w = []" by (auto simp: in_writing_def in_set_conv_nth)
    then show ?thesis using assms False by (auto simp: file_inv_def data_is_def)
  qed
  then show "data w = d @ concat (map item_text log) @ in_writing w" "NL \<notin> set (in_writing w)" by simp_all
qed

lemma file_inv_split:
  assumes inv: "file_inv d inputs log w" and i: "i < length inputs"
    and quiet: "phase (readers w ! i) \<in> {Receiving, Sending, Closed}"
  shows "(map line (packets_by i log), packet (readers w ! i)) =
    split_cmds (take (length (concat (inputs ! i)) - length (rest_of (readers w ! i))) (concat (inputs ! i)))"
proof -
  have ok: "reader_ok False (enter_file w i)" using file_invD(3) [OF inv i] .
  then have hand: "at_hand (readers w ! i) = packet (readers w ! i)" "NL \<notin> set (packet (readers w ! i))"
    using quiet by (auto simp: at_hand_def reader_ok_def split: phase.splits)
  have "concat (inputs ! i) = (concat (map line (packets_by i log)) @ packet (readers w ! i)) @ rest_of (readers w ! i)"
    using inv i hand by (auto simp: file_inv_def)
  moreover have "items_ok log" using inv by (simp add: file_inv_def)
  ultimately show ?thesis using split_lines [OF packets_by_no_NL] hand(2) by (simp add: split_cmds_none)
qed

text \<open>The turns of a schedule, one after the other.\<close>

fun after :: "turn list \<Rightarrow> file_world \<Rightarrow> file_world res option" where
  "after [] w = Some (Inr w)"
| "after (a # as) w =
     (case file_step a w of None \<Rightarrow> None | Some (Inl e) \<Rightarrow> Some (Inl e) | Some (Inr w') \<Rightarrow> after as w')"

lemma after_runs:
  "turn_runs P w0 n log w \<Longrightarrow> list_all P as \<Longrightarrow> after as w = Some (Inr w') \<Longrightarrow> \<exists>n log. turn_runs P w0 n log w'"
proof (induction as arbitrary: n log w)
  case (Cons a as)
  then obtain w1 where w1: "file_step a w = Some (Inr w1)" "after as w1 = Some (Inr w')"
    by (auto split: option.splits sum.splits)
  have "P a" "list_all P as" using Cons.prems(2) by simp_all
  then show ?case using Cons.IH [OF turn_runs_turn [OF Cons.prems(1) _ w1(1)] _ w1(2)] by blast
qed auto

section \<open>Properties\<close>

text \<open>C9. Clients and the timer on one plain file, on a disk that has room: however the threads and
  the alarms interleave, the lines of the file are its old lines and then the packets and timestamps, each whole, in the
  order in which they were completed; at most one client is between taking and releasing the
  mutex, and only its packet can be there without its newline; and each client's packets are
  the lines of what it sent, in its order, up to the bytes it has taken.\<close>

theorem clients_share_file:
  assumes "short_inputs inputs" and "split_cmds d = (old, [])" and "file_runs (file_start d inputs) n log w"
  shows "split_cmds (data w) = (old @ map item_text log, in_writing w) \<and>
    (\<forall>i < length inputs. \<forall>j < length inputs. holder (readers w ! i) \<longrightarrow> holder (readers w ! j) \<longrightarrow> i = j) \<and>
    (\<forall>i < length inputs. phase (readers w ! i) \<in> {Receiving, Sending, Closed} \<longrightarrow>
       (map line (packets_by i log), packet (readers w ! i)) =
         split_cmds (take (length (concat (inputs ! i)) - length (rest_of (readers w ! i))) (concat (inputs ! i))))"
proof -
  note inv = file_runs_inv [OF assms(1,3)]
  then have "split_cmds (concat (map item_text log) @ in_writing w) = (map item_text log, in_writing w)"
    using split_items file_inv_data(2) [OF inv] by (simp add: file_inv_def)
  then have "split_cmds (data w) = (old @ map item_text log, in_writing w)"
    using split_cmds_append [of d "concat (map item_text log) @ in_writing w"] assms(2) file_inv_data(1) [OF inv] by simp
  moreover have "holder (readers w ! i) \<Longrightarrow> holder (readers w ! j) \<Longrightarrow> i < length inputs \<Longrightarrow> j < length inputs \<Longrightarrow> i = j"
    for i j using lock_inv_only [OF file_invD(1) [OF inv], of i j] file_invD(2) [OF inv] by simp
  ultimately show ?thesis using file_inv_split [OF inv] by blast
qed

lemma x_short: "short_inputs [[line ''x'']]"
  by (simp add: short_inputs_def line_def)

lemmas evaluate_step = file_start_def enter_file_def leave_file_def client_step_def receive_step_def locked_step_def
  newline_step_def new_session_def client_at_def append_write_def c_string_def in_holder_def holder_def
  append_timestamp_to_file_def whole_def packet_def refused_def abandoned_def

theorem clients_share_file_witness:
  "\<exists>n log w. file_runs (file_start [] [[line ''x'']]) n log w \<and> data w = line ''x'' @ timestamp_text leap_day \<and>
     split_cmds (data w) = (map item_text log, [])"
proof -
  let ?turns = "[Client 0 whole, Client 0 whole, Client 0 whole, Client 0 whole, Client 0 whole, Client 0 whole,
    Alarm 0 False 3 whole leap_day]"
  have len: "length (timestamp_text leap_day) = 42"
    by (rule timestamp_length) (simp add: valid_tm_def leap_day_def)
  moreover have "timestamp_text leap_day \<noteq> []" by (simp add: timestamp_text_def)
  ultimately obtain w where w: "after ?turns (file_start [] [[line ''x'']]) = Some (Inr w)"
      "data w = line ''x'' @ timestamp_text leap_day" "in_writing w = []"
    by (auto simp: evaluate_step line_def in_writing_def Let_def)
  moreover have "list_all whole_writes ?turns" by (simp add: whole_writes_def)
  ultimately obtain n log where run: "file_runs (file_start [] [[line ''x'']]) n log w"
    using after_runs [OF turn_runs_0] by blast
  have "split_cmds (data w) = (map item_text log, [])"
    using clients_share_file [OF x_short _ run, of "[]"] w(3) by simp
  then show ?thesis using run w(2) by blast
qed





end
