(* ===== verification/Seeking_Clients.thy ===== *)
theory Seeking_Clients
  imports Device_World
begin

text \<open>
  Clients that share the char device and send seek commands among their packets: what is in the
  device, where a seek goes, and what a seek that fails does to all of them.
\<close>

section \<open>After a failed seek\<close>

text \<open>Nobody holds the mutex and nobody can take it, so the device stays as it is.\<close>

lemma stuck_step:
  assumes inv: "world_inv env b ls inputs log w" and "stuck log" and step: "world_step env i w = Some (Inr w')"
  shows "shared w' = shared w" and "happens w i w' = []" and "file_lock w'"
proof -
  obtain c' where i: "i < length (conns w)" and w': "w' = leave w i c'"
    and does: "step_does 0 b (gave_up i log) (enter w i) c'"
    using world_step_does [OF inv step, of 0] by blast
  have free: "file_lock w" "\<not> holder (conns w ! i)"
    using inv i assms(2) by (simp_all add: world_inv_def mutex_inv_def)
  then have calm: "phase (conns w ! i) \<noteq> Locked" "phase (conns w ! i) \<noteq> Newline" using holder_phases by blast+
  then show "shared w' = shared w" using step_doesD(5) [OF does] w' by simp
  have "deed_of (phase (conns w ! i)) (phase c') = Nothing"
    using calm by (cases "phase (conns w ! i)") simp_all
  then show "happens w i w' = []" using i w' by (simp add: happens_leave)
  have "\<not> holder c'" using step_doesD(13) [OF does] free \<open>deed_of _ _ = Nothing\<close> by auto
  then show "file_lock w'" using step_doesD(12) [OF does] free w' by simp
qed

definition some_step :: "kenv \<Rightarrow> world \<Rightarrow> world \<Rightarrow> bool" where
  "some_step env w w' \<longleftrightarrow> (\<exists>i. world_step env i w = Some (Inr w'))"

lemma stuck_for_ever:
  assumes "world_inv env b ls inputs log w" and stuck: "stuck log" and "(some_step env)\<^sup>*\<^sup>* w w'"
  shows "world_inv env b ls inputs log w' \<and> shared w' = shared w"
  using assms(3)
proof induction
  case (step w1 w2)
  then obtain i where i: "world_step env i w1 = Some (Inr w2)" by (auto simp: some_step_def)
  then show ?case
    using world_inv_step(1) [OF _ i, of b ls inputs log] stuck_step [OF _ stuck i, of b ls inputs] step.IH by simp
qed (simp add: assms(1))

lemma seek_turn:
  assumes inv: "world_inv env b ls inputs log w" and i: "i < length inputs"
    and p: "phase (conns w ! i) = Locked" and seek: "seeks (packet (conns w ! i))"
  shows "world_step env i w =
    Some (bind_res (seek_result (read_buffer (sess (conns w ! i))) (slot_lines (shared w)))
      (\<lambda>target. Inr (leave w i (after_seek (enter w i) target))))"
proof -
  have n: "i < length (conns w)" and "conn_ok (gave_up i log) (conns w ! i)" using inv i by (simp_all add: world_inv_def)
  then have "\<not> gave_up i log" using p by (auto simp: conn_ok_def)
  then have "turn_ok env b False (enter w i)" using world_turn [OF inv n] by simp
  moreover have "read_buffer (sess (enter w i)) = read_buffer (sess (conns w ! i))" by (simp add: enter_def Let_def)
  ultimately show ?thesis
    using turn_seek_step [of env b "enter w i"] p seek n
    by (cases "seek_result (read_buffer (sess (conns w ! i))) (slot_lines (shared w))") (simp_all add: world_step_def)
qed

section \<open>A seek that fails\<close>

text \<open>Two clients on a device with one command: the first one seeks to command number 5.\<close>

definition bad_seek :: bytes where
  "bad_seek = seek_command 5 0"

definition two_seekers :: "bytes list list" where
  "two_seekers = [[bad_seek @ [NL]], [line ''y'']]"

definition seeker_at :: "phase \<Rightarrow> bytes \<Rightarrow> bytes list \<Rightarrow> bytes \<Rightarrow> bytes \<Rightarrow> bool \<Rightarrow> world" where
  "seeker_at p bs chunks w received held =
     \<lparr>shared = kernel1, file_lock = held,
      conns = [client_at p bs chunks \<lparr>write_buffer = w, read_buffer = received, file_mutex = held,
                 tmpdata = open_char kernel1, sent = []\<rparr>,
               client_at Receiving [] [line ''y''] (new_session False (open_char kernel1))]\<rparr>"

lemma open_char_kern [simp]: "(open_char k)\<lparr>kern := k\<rparr> = open_char k"
  by (simp add: open_char_def)

lemma seeker_start: "world_start kernel1 [[c], [line ''y'']] = seeker_at Receiving [] [c] [] [] False"
  by (simp add: world_start_def seeker_at_def new_session_def)

lemma seeker_receives:
  "c \<noteq> [] \<Longrightarrow> world_step env 0 (seeker_at Receiving [] [c] [] [] False) = Some (Inr (seeker_at Receiving c [] [] c False))"
  by (simp add: world_step_def seeker_at_def enter_def leave_def client_step_def receive_step_def)

lemma seeker_byte:
  "x \<noteq> NL \<Longrightarrow> length w < BUFFER_SIZE \<Longrightarrow>
     world_step env 0 (seeker_at Receiving (x # bs) cs w r False) = Some (Inr (seeker_at Receiving bs cs (w @ [x]) r False))"
  by (simp add: world_step_def seeker_at_def enter_def leave_def client_step_def)

lemma seeker_locks:
  "length w < BUFFER_SIZE \<Longrightarrow>
     world_step env 0 (seeker_at Receiving (NL # bs) cs w r False) = Some (Inr (seeker_at Locked bs cs w r True))"
  by (simp add: world_step_def seeker_at_def enter_def leave_def client_step_def c_string_def)

lemma seeker_quiet: "happens (seeker_at Receiving bs cs w r h) 0 w' = []"
  by (simp add: happens_def seeker_at_def)

lemma quiet_run:
  "event_runs env w0 n [] w \<Longrightarrow> world_step env i w = Some (Inr w') \<Longrightarrow> happens w i w' = [] \<Longrightarrow>
     event_runs env w0 (Suc n) [] w'"
  using event_runs_Suc [of env w0 n "[]" w i w'] by simp

lemma seeker_bytes:
  "event_runs env w0 n [] (seeker_at Receiving (bs @ t) cs w r False) \<Longrightarrow> NL \<notin> set bs \<Longrightarrow> length w + length bs \<le> BUFFER_SIZE \<Longrightarrow>
     event_runs env w0 (n + length bs) [] (seeker_at Receiving t cs (w @ bs) r False)"
proof (induction bs arbitrary: n w)
  case (Cons x bs)
  have "event_runs env w0 (Suc n) [] (seeker_at Receiving (bs @ t) cs (w @ [x]) r False)"
    using Cons.prems by (intro quiet_run [OF _ seeker_byte seeker_quiet]) auto
  from Cons.IH [OF this] show ?case using Cons.prems(2,3) by simp
qed simp

lemma two_seekers_ok: "sharing_ok env0 kernel1 two_seekers"
proof -
  have short: "short_from n bs" if "n + length bs \<le> BUFFER_SIZE" for n bs
    using that by (induction n bs rule: short_from.induct) auto
  have "length bad_seek < 100" by code_simp
  then show ?thesis
    by (auto simp: sharing_ok_def two_seekers_def short_inputs_def total_bytes_def stored_bytes_def kernel1_inv line_def
        intro!: short)
qed

lemma bad_seek_locked:
  "\<exists>n. event_runs env0 (world_start kernel1 two_seekers) n []
     (seeker_at Locked [] [] bad_seek (bad_seek @ [NL]) True)"
proof -
  let ?w0 = "world_start kernel1 two_seekers"
  note chars = seek_command_chars [of 5 0, folded bad_seek_def]
  have "event_runs env0 ?w0 1 [] (seeker_at Receiving (bad_seek @ [NL]) [] [] (bad_seek @ [NL]) False)"
    using quiet_run [OF event_runs_0 seeker_receives seeker_quiet, of "bad_seek @ [NL]" env0]
    by (simp add: two_seekers_def seeker_start)
  from seeker_bytes [OF this] have
    run: "event_runs env0 ?w0 (1 + length bad_seek) [] (seeker_at Receiving [NL] [] bad_seek (bad_seek @ [NL]) False)"
    using chars by simp
  show ?thesis
    using quiet_run [OF run seeker_locks seeker_quiet] chars by auto
qed

text \<open>The seek of the first client fails, and it leaves with the mutex.\<close>

lemma bad_seek_result: "seek_result (bad_seek @ [NL]) (slot_lines kernel1) = Inr None"
proof -
  have "c_string (bad_seek @ [NL]) = Inr (bad_seek @ [NL])"
    using seek_command_chars [of 5 0, folded bad_seek_def] by (simp add: c_string_def takeWhile_all)
  moreover have "sscanf_seekto (bad_seek @ [NL]) = (Some 5, Some 0)"
    using sscanf_command [of 5 0 "[NL]"] by (simp add: bad_seek_def is_digit_def)
  moreover have "slot_lines kernel1 = lines kernel1" by code_simp
  ultimately show ?thesis
    by (simp add: seek_result_def kernel1_inv spec_seekto_def prints_beyond_def)
qed

lemma bad_seek_seeks: "seeks bad_seek"
proof -
  note chars = seek_command_chars [of 5 0, folded bad_seek_def]
  then have all: "takeWhile (\<lambda>c. c \<noteq> NUL) bad_seek = bad_seek" by (simp add: takeWhile_all)
  show ?thesis unfolding seeks_def all using chars(4) by simp
qed

lemma seeker_simps [simp]:
  "phase (conns (seeker_at p bs cs w r h) ! 0) = p" "packet (conns (seeker_at p bs cs w r h) ! 0) = w"
  "read_buffer (sess (conns (seeker_at p bs cs w r h) ! 0)) = r" "shared (seeker_at p bs cs w r h) = kernel1"
  by (simp_all add: seeker_at_def packet_def)

definition left_behind :: world where
  "left_behind = seeker_at Receiving [] [] bad_seek (bad_seek @ [NL]) True"

lemma bad_seek_fails:
  "\<exists>n. event_runs env0 (world_start kernel1 two_seekers) n [Gave_up 0 bad_seek] left_behind"
proof -
  let ?w = "seeker_at Locked [] [] bad_seek (bad_seek @ [NL]) True"
  obtain n where run: "event_runs env0 (world_start kernel1 two_seekers) n [] ?w" using bad_seek_locked by blast
  have inv: "world_inv env0 (total_bytes kernel1 two_seekers) (lines kernel1) two_seekers [] ?w"
    using event_runs_inv [OF two_seekers_ok run, of "total_bytes kernel1 two_seekers"] by simp
  have "world_step env0 0 ?w = Some (Inr (leave ?w 0 (after_seek (enter ?w 0) None)))"
    using seek_turn [OF inv, of 0] bad_seek_seeks by (simp add: two_seekers_def bad_seek_result)
  moreover have "leave ?w 0 (after_seek (enter ?w 0) None) = left_behind"
    by (simp add: left_behind_def seeker_at_def enter_def leave_def after_seek_def)
  moreover have "happens ?w 0 left_behind = [Gave_up 0 bad_seek]"
    by (simp add: happens_def left_behind_def Let_def)
  ultimately show ?thesis using event_runs_Suc [OF run, of 0 left_behind] by auto
qed

section \<open>Properties\<close>

text \<open>C12. Clients that seek, on one device: however the threads interleave and whether their seeks
  succeed or fail, the device holds the last ten of its old commands and of the packets that
  are not seek commands, whole and in the order in which their newlines were written; at most
  one client is between taking and releasing the mutex of the data file; and what became of the
  packets of a client that has not given up are the lines of what it sent, in its order, up to the bytes
  it has taken.\<close>

theorem seeking_clients_share_device:
  assumes "sharing_ok env k inputs" and "event_runs env (world_start k inputs) n log w"
  shows "lines (shared w) = fold push_line (map line (stored log)) (lines k) \<and> dev_inv (shared w) \<and>
    (\<forall>e \<in> set log. is_Stored e \<longleftrightarrow> \<not> seeks (what e)) \<and>
    (\<forall>i < length inputs. \<forall>j < length inputs. holder (conns w ! i) \<longrightarrow> holder (conns w ! j) \<longrightarrow> i = j) \<and>
    (\<forall>i < length inputs. \<not> gave_up i log \<longrightarrow> phase (conns w ! i) \<in> {Receiving, Sending, Closed} \<longrightarrow>
       (map line (handled i log), packet (conns w ! i)) =
         split_cmds (take (length (concat (inputs ! i)) - length (rest_of (conns w ! i))) (concat (inputs ! i))))"
proof -
  have inv: "world_inv env (total_bytes k inputs) (lines k) inputs log w"
    using event_runs_inv [OF assms, of "total_bytes k inputs"] by simp
  then have "length (conns w) = length inputs" "mutex_inv (stuck log) w" by (simp_all add: world_inv_def)
  then have "i = j" if "holder (conns w ! i)" "holder (conns w ! j)" "i < length inputs" "j < length inputs" for i j
    using that lock_inv_only [of "file_lock w" "conns w" i j] by (auto simp: mutex_inv_def split: if_splits)
  then show ?thesis using inv world_inv_split [OF inv] by (auto simp: world_inv_def log_inv_def)
qed

theorem seeking_clients_share_device_witness:
  "\<exists>n log. event_runs env0 (world_start kernel1 two_seekers) n log left_behind \<and> gave_up 0 log \<and>
     lines (shared left_behind) = fold push_line (map line (stored log)) [line ''ab''] \<and> stored log = []"
proof -
  obtain n where run: "event_runs env0 (world_start kernel1 two_seekers) n [Gave_up 0 bad_seek] left_behind"
    using bad_seek_fails by blast
  show ?thesis
    using seeking_clients_share_device [OF two_seekers_ok run] run
    by (auto simp: kernel1_inv stored_def gave_up_def intro!: exI [of _ n] exI [of _ "[Gave_up 0 bad_seek]"])
qed

text \<open>C13. A seek command of one client among many: when it has the mutex it moves its own file to
  where the command says, in the order of the slots of the device as it then is. If there is no
  such command the client leaves with the mutex: from then on the device never changes, whatever
  the clients do.\<close>

theorem failed_seek_blocks_all:
  assumes "sharing_ok env k inputs" and "event_runs env (world_start k inputs) n log w"
    and "i < length inputs" and "phase (conns w ! i) = Locked" and "seeks (packet (conns w ! i))"
  shows "case seek_result (read_buffer (sess (conns w ! i))) (slot_lines (shared w)) of
      Inl e \<Rightarrow> world_step env i w = Some (Inl e)
    | Inr (Some p) \<Rightarrow> \<exists>w'. world_step env i w = Some (Inr w') \<and> shared w' = shared w \<and>
        f_pos (open_file (tmpdata (sess (conns w' ! i)))) = of_nat p \<and> phase (conns w' ! i) = Unlocking
    | Inr None \<Rightarrow> \<exists>w'. world_step env i w = Some (Inr w') \<and>
        (\<forall>w''. (some_step env)\<^sup>*\<^sup>* w' w'' \<longrightarrow> shared w'' = shared w)"
proof -
  have inv: "world_inv env (total_bytes k inputs) (lines k) inputs log w"
    using event_runs_inv [OF assms(1,2), of "total_bytes k inputs"] by simp
  note step = seek_turn [OF inv assms(3-5)]
  have i: "i < length (conns w)" using inv assms(3) by (simp add: world_inv_def)
  show ?thesis
  proof (cases "seek_result (read_buffer (sess (conns w ! i))) (slot_lines (shared w))")
    case (Inl e)
    then show ?thesis using step by simp
  next
    case (Inr target)
    let ?w = "leave w i (after_seek (enter w i) target)"
    have w: "world_step env i w = Some (Inr ?w)" using step Inr by simp
    have same: "shared ?w = shared w"
      by (cases target) (simp_all add: after_seek_def)
    show ?thesis
    proof (cases target)
      case None
      have "stuck (log @ happens w i ?w)" using assms(4) None happens_facts(4) [OF i] by (simp add: after_seek_def)
      note blocked = stuck_for_ever [OF world_inv_step(1) [OF inv w] this, THEN conjunct2]
      then have "\<forall>w''. (some_step env)\<^sup>*\<^sup>* ?w w'' \<longrightarrow> shared w'' = shared w"
        using same by simp
      with w have "\<exists>w'. world_step env i w = Some (Inr w') \<and>
          (\<forall>w''. (some_step env)\<^sup>*\<^sup>* w' w'' \<longrightarrow> shared w'' = shared w)" by blast
      then show ?thesis using Inr None by simp
    next
      case (Some p)
      then have "phase (conns ?w ! i) = Unlocking" "f_pos (open_file (tmpdata (sess (conns ?w ! i)))) = of_nat p"
        using i by (simp_all add: after_seek_def)
      with w same have "\<exists>w'. world_step env i w = Some (Inr w') \<and> shared w' = shared w \<and>
          f_pos (open_file (tmpdata (sess (conns w' ! i)))) = of_nat p \<and> phase (conns w' ! i) = Unlocking" by blast
      then show ?thesis using Inr Some by simp
    qed
  qed
qed

theorem failed_seek_blocks_all_witness:
  "\<exists>n w w'. event_runs env0 (world_start kernel1 two_seekers) n [] w \<and> world_step env0 0 w = Some (Inr w') \<and>
     (\<forall>w''. (some_step env0)\<^sup>*\<^sup>* w' w'' \<longrightarrow> shared w'' = kernel1)"
proof -
  let ?w = "seeker_at Locked [] [] bad_seek (bad_seek @ [NL]) True"
  obtain n where run: "event_runs env0 (world_start kernel1 two_seekers) n [] ?w" using bad_seek_locked by blast
  have "0 < length two_seekers" by (simp add: two_seekers_def)
  from failed_seek_blocks_all [OF two_seekers_ok run this] bad_seek_seeks bad_seek_result
  have "\<exists>w'. world_step env0 0 ?w = Some (Inr w') \<and> (\<forall>w''. (some_step env0)\<^sup>*\<^sup>* w' w'' \<longrightarrow> shared w'' = kernel1)"
    by simp
  then show ?thesis using run by blast
qed

text \<open>C14. Every interleaving of clients that seek ends: the number of steps is bounded by the bytes
  of the clients and of the device. A client is not at its end then only if one has left with the
  mutex, and it waits for it; and the only faults are those of a seek command, or of a client
  that has left with the mutex and goes on without clearing its buffer.\<close>

theorem seeking_clients_end:
  assumes "sharing_ok env k inputs" and "event_runs env (world_start k inputs) n log w"
  shows "n \<le> most_steps_seeking (total_bytes k inputs) k inputs \<and>
    (\<forall>i e. world_step env i w = Some (Inl e) \<longrightarrow>
       gave_up i log \<or> phase (conns w ! i) = Locked \<and> seeks (packet (conns w ! i))) \<and>
    ((\<forall>i. world_step env i w = None) \<longrightarrow>
       (\<forall>c \<in> set (conns w). phase c = Closed \<or> stuck log \<and> waits c))"
proof -
  note inv = event_runs_inv [OF assms, of "total_bytes k inputs"]
  then have "n \<le> most_steps_seeking (total_bytes k inputs) k inputs" by (meson add_leD2 order_refl)
  then show ?thesis
    using inv world_faults [of env "total_bytes k inputs" "lines k" inputs log w]
      world_stops [of env "total_bytes k inputs" "lines k" inputs log w] by blast
qed

theorem seeking_clients_end_witness:
  "\<exists>n log. event_runs env0 (world_start kernel1 two_seekers) n log left_behind \<and> stuck log \<and>
     n \<le> most_steps_seeking (total_bytes kernel1 two_seekers) kernel1 two_seekers"
proof -
  obtain n where run: "event_runs env0 (world_start kernel1 two_seekers) n [Gave_up 0 bad_seek] left_behind"
    using bad_seek_fails by blast
  then show ?thesis
    using seeking_clients_end [OF two_seekers_ok run]
    by (auto simp: stuck_def intro!: exI [of _ n] exI [of _ "[Gave_up 0 bad_seek]"])
qed

end
