(* ===== verification/Client_Sending.thy ===== *)
theory Client_Sending
  imports Client_Theorems
begin

text \<open>
  What a client of \<open>server/aesdsocket.c\<close> gets when its connection does not take everything that
  \<open>send\<close> is given: the handler does not look at the result. The char device with any connection.
\<close>

definition connection :: "kenv \<Rightarrow> (bytes \<Rightarrow> bytes \<Rightarrow> nat option) \<Rightarrow> device_file file_ops" where
  "connection env send = (char_file env)\<lparr>sys_send := send\<rparr>"

lemma connection_simps [simp]:
  "sys_read (connection env send) = sys_read (char_file env)"
  "sys_write (connection env send) = sys_write (char_file env)"
  "USE_AESD_CHAR_DEVICE (connection env send) = USE_AESD_CHAR_DEVICE (char_file env)"
  "sys_send (connection env send) = send"
  by (simp_all add: connection_def)

interpretation conn: byte_source "connection env send" "good_file env" "\<lambda>s. stream (kern s)" file_position
  for env send
  by unfold_locales (simp add: dev.read_step)

section \<open>A connection that takes a part\<close>

text \<open>What arrives of the commands: of each the part that its \<open>send\<close> took.\<close>

fun arrives :: "(bytes \<Rightarrow> bytes \<Rightarrow> nat option) \<Rightarrow> bytes \<Rightarrow> bytes list \<Rightarrow> bytes" where
  "arrives send out [] = out"
| "arrives send out (l # ls) = arrives send (out @ take (the (send out l)) l) ls"

lemma next_line:
  assumes "lines (kern s) = before @ l # rest" and "file_position s = length (concat before)" and "good_file env s"
    and "\<forall>l \<in> set (lines (kern s)). length l \<le> BUFFER_SIZE"
  shows "\<exists>s1. sys_read (char_file env) BUFFER_SIZE s = Inr (int (length l), l, s1) \<and> l \<noteq> [] \<and> kern s1 = kern s \<and>
    good_file env s1 \<and> file_position s1 = length (concat (before @ [l]))"
proof -
  have ne: "l \<noteq> []"
    using assms(1,3) dev_ok_lines_nonempty by (fastforce simp: good_file_def dev_inv_def lines_def)
  have "locate (map length (lines (kern s))) (file_position s) = Some (length before, 0)"
    using ne assms(1,2) by (simp add: locate_Some_iff length_concat nth_append)
  then have "spec_read BUFFER_SIZE (file_position s) (lines (kern s)) = l"
    using assms(1,4) by (simp add: spec_read_def)
  then show ?thesis
    using char_read_ok [OF assms(3)] assms(2,3) ne by (auto simp: char_file_def good_file_def file_position_def)
qed

lemma no_next_line:
  assumes "good_file env s" and "file_position s = length (concat (lines (kern s)))"
  shows "\<exists>s'. send_file (connection env send) s out = Some (Inr (s', out)) \<and> kern s' = kern s \<and>
    file_position s' = length (stream (kern s))"
  using char_read_ok [OF assms(1)] assms(2)
  by (subst send_file.simps) (auto simp: char_file_def stream_def file_position_def)

lemma send_from_line:
  "lines (kern s) = before @ rest \<Longrightarrow> file_position s = length (concat before) \<Longrightarrow> good_file env s \<Longrightarrow>
     \<forall>l \<in> set (lines (kern s)). length l \<le> BUFFER_SIZE \<Longrightarrow> (\<And>out bs. send out bs \<noteq> None) \<Longrightarrow>
     \<exists>s'. send_file (connection env send) s out = Some (Inr (s', arrives send out rest)) \<and>
       kern s' = kern s \<and> file_position s' = length (stream (kern s))"
proof (induction rest arbitrary: before s out)
  case Nil
  then show ?case using no_next_line by simp
next
  case (Cons l ls)
  obtain s1 where s1: "sys_read (char_file env) BUFFER_SIZE s = Inr (int (length l), l, s1)" "l \<noteq> []" "kern s1 = kern s"
      "good_file env s1" "file_position s1 = length (concat (before @ [l]))"
    using next_line [OF Cons.prems(1-4)] by blast
  obtain n where n: "send out l = Some n" using Cons.prems(5) by fastforce
  have "send_file (connection env send) s out = send_file (connection env send) s1 (out @ take n l)"
    using s1(1,2) n by (subst send_file.simps) (simp add: send_bytes_def)
  then show ?case
    using Cons.IH [of s1 "before @ [l]" "out @ take n l"] Cons.prems(1,4,5) s1 n by simp
qed

text \<open>C32. The result of \<open>send\<close> is ignored: of every stored command the client gets the part that its
  \<open>send\<close> took, the next command follows at once, and the position in the file has passed the
  bytes that are missing, so they are not sent with the next reply either. The comment says
  that the entire contents are sent.\<close>

theorem client_partial_send:
  assumes "good_file env s" and "file_position s = 0" and "\<forall>l \<in> set (lines (kern s)). length l \<le> BUFFER_SIZE"
    and "\<forall>out bs. send out bs \<noteq> None"
  shows "\<exists>s'. send_file (connection env send) s [] = Some (Inr (s', arrives send [] (lines (kern s)))) \<and>
    kern s' = kern s \<and> file_position s' = length (stream (kern s))"
  using send_from_line [of s "[]" "lines (kern s)" env send "[]"] assms by simp

theorem client_partial_send_witness:
  "\<exists>s'. send_file (connection env0 (\<lambda>out bs. Some (if out = [] then 1 else length bs))) (open_char kernel11) []
     = Some (Inr (s', ''a'' @ concat (map (\<lambda>c. line [c]) ''bcdefghi'') @ line ''jjj''))"
proof -
  have "good_file env0 (open_char kernel11)"
    by (simp add: open_char_good kernel11_lines stream_def line_def)
  then show ?thesis
    using client_partial_send [of env0 "open_char kernel11" "\<lambda>out bs. Some (if out = [] then 1 else length bs)"]
    by (auto simp: kernel11_lines line_def)
qed

section \<open>A client that is gone\<close>

text \<open>
  A peer that closes its connection still has it take what is sent, until the reset that answers
  the first bytes comes back; \<open>t\<close> bytes have been taken by then, and every later \<open>send\<close> raises
  \<open>SIGPIPE\<close>. With \<open>t\<close> 0 the reset was there before the reply.
\<close>

definition until_reset :: "nat \<Rightarrow> bytes \<Rightarrow> bytes \<Rightarrow> nat option" where
  "until_reset t out bs = (if length out < t then Some (length bs) else None)"

lemma send_until_reset:
  "lines (kern s) = before @ rest \<Longrightarrow> rest \<noteq> [] \<Longrightarrow> file_position s = length (concat before) \<Longrightarrow> good_file env s \<Longrightarrow>
     \<forall>l \<in> set (lines (kern s)). length l \<le> BUFFER_SIZE \<Longrightarrow>
     if t \<le> length out + length (concat (butlast rest))
     then send_file (connection env (until_reset t)) s out = Some (Inl Killed)
     else \<exists>s'. send_file (connection env (until_reset t)) s out = Some (Inr (s', out @ concat rest)) \<and> kern s' = kern s"
proof (induction rest arbitrary: before s out)
  case (Cons l ls)
  let ?ops = "connection env (until_reset t)"
  obtain s1 where s1: "sys_read (char_file env) BUFFER_SIZE s = Inr (int (length l), l, s1)" "l \<noteq> []" "kern s1 = kern s"
      "good_file env s1" "file_position s1 = length (concat (before @ [l]))"
    using next_line [OF Cons.prems(1,3-5)] by blast
  show ?case
  proof (cases "length out < t")
    case True
    then have send: "send_file ?ops s out = send_file ?ops s1 (out @ l)"
      using s1(1,2) by (subst send_file.simps) (simp add: send_bytes_def until_reset_def)
    show ?thesis
    proof (cases "ls = []")
      case True
      then show ?thesis
        using \<open>length out < t\<close> send no_next_line [OF s1(4), of "until_reset t" "out @ l"] s1(3,5) Cons.prems(1) by auto
    next
      case False
      then show ?thesis
        using Cons.IH [of s1 "before @ [l]" "out @ l"] Cons.prems(1,5) s1 send by (auto simp: add.assoc)
    qed
  next
    case False
    then show ?thesis
      using s1(1,2) by (subst send_file.simps) (simp add: send_bytes_def until_reset_def)
  qed
qed simp

text \<open>C29. A client that sends a line and goes away during the reply: the server is killed by \<open>SIGPIPE\<close>,
  which is neither handled nor ignored, exactly if the reset is there before the last of the
  stored commands is sent, each of which is a \<open>send\<close> of its own; otherwise the handler sends the
  whole content to nobody and goes on. So a reply of one command does not kill the server
  unless the reset came before it, and a longer one does if its first bytes are answered.\<close>

theorem client_gone_kills_server:
  assumes "good_file env s" and "pending (kern s) = []" and "file_position s = 0"
    and "plain l" and "fits_file (length l + 1) s" and "\<forall>l \<in> set (lines (kern s)). length l \<le> BUFFER_SIZE"
  shows "if t \<le> length (concat (butlast (push_line (l @ [NL]) (lines (kern s)))))
    then receive_loop (connection env (until_reset t)) [l @ [NL]] (new_session False s) = Inl Killed
    else \<exists>c. receive_loop (connection env (until_reset t)) [l @ [NL]] (new_session False s) = Inr c \<and>
      \<not> file_mutex c \<and> sent c = concat (push_line (l @ [NL]) (lines (kern s)))"
proof -
  let ?ops = "connection env (until_reset t)" and ?ls = "push_line (l @ [NL]) (lines (kern s))"
  let ?c = "(new_session False s)\<lparr>read_buffer := l @ [NL], write_buffer := l\<rparr>"
  have nl: "NL \<notin> set l" and short: "length l < BUFFER_SIZE" using assms(4) by (simp_all add: plain_def)
  then have cnt: "count_list l NL = 0" by (simp add: count_list_0_iff)
  obtain s1 where 1: "sys_write (char_file env) l s = Inr (int (length l), s1)" "good_file env s1"
      "file_position s1 = 0" "(lines (kern s1), pending (kern s1)) = (lines (kern s), l)" "fits_file 1 s1"
    using dev.write_step [OF assms(1,5)] assms(2,3) cnt nl by (auto simp: spec_write_def split_cmds_none)
  have "spec_write [NL] (lines (kern s), l) = (?ls, [])"
    using nl by (simp add: spec_write_def split_cmds_cmd [of l "[]", simplified])
  then obtain s2 where 2: "sys_write (char_file env) [NL] s1 = Inr (1, s2)" "good_file env s2"
      "file_position s2 = 0" "lines (kern s2) = ?ls"
    using dev.write_step [OF 1(2), of "[NL]" 0] 1(3-5) cnt by auto
  have ls: "?ls \<noteq> []" "\<forall>x \<in> set (lines (kern s2)). length x \<le> BUFFER_SIZE"
    using assms(6) short by (auto simp: 2(4) push_line_def dest: in_set_dropD)
  have reply: "if t \<le> length (concat (butlast ?ls)) then send_file ?ops s2 [] = Some (Inl Killed)
      else \<exists>s'. send_file ?ops s2 [] = Some (Inr (s', concat ?ls)) \<and> kern s' = kern s2"
    using send_until_reset [of s2 "[]" ?ls env t "[]"] 2 ls by (simp cong: if_cong)
  have bytes: "handle_bytes ?ops l ((new_session False s)\<lparr>read_buffer := l @ [NL]\<rparr>) = Inr ?c"
    using nl short by (subst handle_bytes_plain) (auto simp: new_session_def)
  have "receive_loop ?ops [l @ [NL]] (new_session False s) = packet_complete ?ops ?c"
    using bytes by (simp add: handle_bytes_append handle_byte_def new_session_def bind_res_def split: sum.split)
  also have "\<dots> = bind_res (ended (send_file ?ops s2 [])) (\<lambda>(s', out).
      Inr (?c\<lparr>write_buffer := [], tmpdata := s', sent := out\<rparr>))"
    using assms(4) 1(1) 2(1)
    by (simp add: packet_complete_def packet_to_file_def lock_file_def c_string_plain Let_def new_session_def)
      (simp add: plain_def)
  finally show ?thesis using reply by (auto simp: ended_def new_session_def)
qed

text \<open>A device with one command, a line \<open>x\<close> comes: the first of the two sends is taken, and the reset is there.\<close>

theorem client_gone_kills_server_witness:
  "receive_loop (connection env0 (until_reset 1)) [''x'' @ [NL]] (new_session False (open_char kernel1)) = Inl Killed \<and>
   (\<exists>c. receive_loop (connection env0 (until_reset 1)) [''x'' @ [NL]] (new_session False (open_char kernel0)) = Inr c \<and>
      sent c = line ''x'')"
proof -
  have k: "good_file env0 (open_char kernel1)" "fits_file (Suc (Suc 0)) (open_char kernel1)"
    "good_file env0 (open_char kernel0)" "fits_file (Suc (Suc 0)) (open_char kernel0)"
    by (simp_all add: open_char_good kernel1_inv kernel0_inv fits_file_def line_def)
  moreover have "plain ''x''" by (simp add: plain_def AESD_IOCTL_SEEKTO_def)
  ultimately show ?thesis
    using client_gone_kills_server [of env0 "open_char kernel1" "''x''" 1]
      client_gone_kills_server [of env0 "open_char kernel0" "''x''" 1]
    by (auto simp: kernel1_inv kernel0_inv push_line_def line_def simp del: receive_loop.simps)
qed

end
