(* ===== verification/Server_Life.thy ===== *)
theory Server_Life
  imports Client_Theorems Server_Theorems
begin

text \<open>
  Properties that span the components of the server: from \<open>main\<close> over any number of connections to
  the signal that ends it, and one client from its connection over its packets to the next
  connection.
\<close>

section \<open>Several connections\<close>

text \<open>
  A thread of the list, whose ids are given, marks its entry while the loop still accepts: before
  or in the round of a later connection.
\<close>

fun one_completes :: "nat list \<Rightarrow> arrival list \<Rightarrow> bool" where
  "one_completes ids [] \<longleftrightarrow> False"
| "one_completes ids (a # as) \<longleftrightarrow>
     set (marked a) \<inter> set ids \<noteq> {} \<or> set (marked_late a) \<inter> set (new_id a # ids) \<noteq> {} \<or>
     one_completes (new_id a # ids) as"

text \<open>A thread that has marked its entry comes to its end: it only closes its connection.\<close>

definition marked_end :: "arrival \<Rightarrow> bool" where
  "marked_end a \<longleftrightarrow> (\<forall>t \<in> set (marked a) \<union> set (marked_late a). threads_end a t)"

lemma accept_all:
  assumes mem: "\<forall>n. malloc_ok n" "alloc_never_fails env"
  shows "list_all connects as \<Longrightarrow> list_all marked_end as \<Longrightarrow> manager_inv (mgr s) bs [] \<Longrightarrow>
    \<not> list_ex completed (threads (mgr s) bs) \<Longrightarrow> distinct (map new_id as @ map fst (threads (mgr s) bs)) \<Longrightarrow>
    if one_completes (map fst (threads (mgr s) bs)) as then accept_connections malloc_ok env as s = Inl Use_After_Free
    else \<exists>s' bs'. accept_connections malloc_ok env as s = Inr s' \<and> manager_inv (mgr s') bs' [] \<and>
      threads (mgr s') bs' = rev (map running_line as) @ threads (mgr s) bs \<and>
      s' = s\<lparr>open_fds := rev (concat (map (\<lambda>a. [accept_rc a, open_rc a]) as)) @ open_fds s, mgr := mgr s'\<rparr>"
proof (induction as arbitrary: s bs)
  case Nil
  then show ?case by (simp, intro exI [of _ bs]) simp
next
  case (Cons a as)
  let ?ls = "threads (mgr s) bs"
  have mem': "malloc_ok n" "kmalloc_ok env n" for n using mem by (simp_all add: alloc_never_fails_def)
  have a: "connects a" and uniq: "distinct (new_id a # map fst ?ls)" using Cons.prems(1,5) by auto
  have now: "list_ex completed (round_lines a ?ls) \<longleftrightarrow>
      set (marked a) \<inter> set (map fst ?ls) \<noteq> {} \<or> set (marked_late a) \<inter> set (new_id a # map fst ?ls) \<noteq> {}"
    using Cons.prems(4) unfolding round_lines_completed by simp
  show ?case
  proof (cases "list_ex completed (round_lines a ?ls)")
    case True
    have "threads_end a (fst l)" if "l \<in> set (round_lines a ?ls)" "completed l" for l
      using round_lines_by [OF that] Cons.prems(2,4) that(2) by (auto simp: marked_end_def list_ex_iff)
    then have "accept_one malloc_ok env a s = Inl Use_After_Free"
      using accept_completed [where malloc_ok = malloc_ok and env = env, OF Cons.prems(3) a mem' uniq True] by blast
    moreover have "one_completes (map fst ?ls) (a # as)" using True now by auto
    ultimately show ?thesis by simp
  next
    case False
    from accept_not_completed [where malloc_ok = malloc_ok and env = env, OF Cons.prems(3) a mem' False]
    obtain s1 b where 1: "accept_one malloc_ok env a s = Inr s1" "manager_inv (mgr s1) (b # bs) []"
        "threads (mgr s1) (b # bs) = running_line a # ?ls"
        "s1 = s\<lparr>open_fds := open_rc a # accept_rc a # open_fds s, mgr := mgr s1\<rparr>"
      by (elim exE conjE) (rule that)
    have fds: "open_fds s1 = open_rc a # accept_rc a # open_fds s" by (subst 1(4)) simp
    have "\<not> list_ex completed (threads (mgr s1) (b # bs))" "distinct (map new_id as @ map fst (threads (mgr s1) (b # bs)))"
      using Cons.prems(4,5) by (simp_all add: 1(3))
    note rest = Cons.IH [OF _ _ 1(2) this, unfolded 1(3)]
    have same: "one_completes (map fst ?ls) (a # as) = one_completes (map fst (running_line a # ?ls)) as"
      using False now by simp
    show ?thesis
    proof (cases "one_completes (map fst ?ls) (a # as)")
      case True
      then show ?thesis using rest Cons.prems(1,2) 1(1) same by simp
    next
      case False
      then obtain s' bs' where s': "accept_connections malloc_ok env as s1 = Inr s'" "manager_inv (mgr s') bs' []"
          "threads (mgr s') bs' = rev (map running_line as) @ running_line a # ?ls"
          "s' = s1\<lparr>open_fds := rev (concat (map (\<lambda>a. [accept_rc a, open_rc a]) as)) @ open_fds s1, mgr := mgr s'\<rparr>"
        using rest Cons.prems(1,2) same by auto
      have "s' = s\<lparr>open_fds := rev (concat (map (\<lambda>a. [accept_rc a, open_rc a]) (a # as))) @ open_fds s, mgr := mgr s'\<rparr>"
        using fds by (subst s'(4), subst 1(4)) simp
      then show ?thesis using s'(1-3) 1(1) False by (simp, intro exI [of _ bs'] conjI) simp_all
    qed
  qed
qed

section \<open>Properties\<close>

definition answers_ok :: "answers \<Rightarrow> bool" where
  "answers_ok os \<longleftrightarrow> getaddrinfo_rc os = 0 \<and> socket_rc os \<noteq> - 1 \<and> bind_rc os \<noteq> - 1 \<and> listen_rc os \<noteq> - 1 \<and>
     fork1_rc os = 0 \<and> fork2_rc os = 0"

text \<open>The handlers are installed in the build with a plain file, if the timer can be set up.\<close>

definition cleans_up :: "answers \<Rightarrow> server \<Rightarrow> bool" where
  "cleans_up os s \<longleftrightarrow> \<not> use_char_device s \<and> timer_create_rc os \<noteq> - 1 \<and> timer_settime_rc os \<noteq> - 1"

lemma start_timer_frame:
  "start_timer c t s = s\<lparr>timer := timer (start_timer c t s)\<rparr>"
  by (simp add: start_timer_def)

text \<open>The server as it comes to its loop, and what a signal does to it there.\<close>

definition started :: "answers \<Rightarrow> server \<Rightarrow> server" where
  "started os s = start_timer (timer_create_rc os) (timer_settime_rc os)
     (opens (socket_rc os) ((initialize_server s)\<lparr>server_address_info := Addr_live, server_socket_fd := socket_rc os\<rparr>))"

lemma started_simps [simp]:
  "mgr (started os s) = initialize_manager (mgr s)" "open_fds (started os s) = socket_rc os # open_fds s"
  "joined (started os s) = joined s" "server_address_info (started os s) = Addr_live"
  "server_socket_fd (started os s) = socket_rc os" "use_char_device (started os s) = use_char_device s"
  unfolding started_def by (subst start_timer_frame, simp add: opens_def initialize_server_def)+

lemma started_handlers:
  assumes "timer s = no_timer"
  shows "set (handlers (timer (started os s))) = (if cleans_up os s then {SIGALRM, SIGINT, SIGTERM} else {})"
  using assms by (auto simp: started_def start_timer_def initialize_timer_def no_timer_def cleans_up_def opens_def
      initialize_server_def Let_def)

lemma server_main_started:
  assumes "answers_ok os" and "getopt_d args False \<noteq> None"
  shows "server_main malloc_ok env args os as s =
    bind_res (accept_connections malloc_ok env as (started os s)) (\<lambda>s. Inr (Returns s))"
  using assms
  by (auto simp: server_main_def answers_ok_def start_daemon_def started_def Let_def split: option.splits bool.splits)

lemma signal_ends:
  assumes "manager_inv (mgr s) bs []" and "\<forall>l \<in> set (threads (mgr s) bs). ends (fst l)"
    and "server_address_info s = Addr_live" and "sig = SIGINT \<or> sig = SIGTERM"
    and "set (handlers (timer s)) = (if handled then {SIGALRM, SIGINT, SIGTERM} else {})"
  shows "if handled
     then \<exists>s2. deliver ends sig s = Inr (Exits 1 s2) \<and> joined s2 = joined s @ map fst (threads (mgr s) bs) \<and>
       dom (entry_store (mgr s2)) = {} \<and> live (strings (mgr s2)) = {} \<and> server_address_info s2 = Addr_freed \<and>
       (\<not> use_char_device s \<longrightarrow> tmpdata_removed s2) \<and> open_fds s2 = removeAll (server_socket_fd s) (open_fds s)
     else deliver ends sig s = Inr (Exits (128 + sig) s)"
proof -
  obtain m where m: "thread_entry_freeall ends (mgr s) (joined s) = Some (Inr (joined s @ map fst (threads (mgr s) bs), m))"
      "manager_inv m [] []"
    using freeall_ok [OF assms(1,2)] by blast
  show ?thesis
    using m(1) empty_manager [OF m(2)] assms(3-5)
    by (auto simp: deliver_def signal_handler_def cleanup_server_def ended_def freeaddrinfo_def closes_def)
qed

text \<open>C18. The life of a server, as a daemon or not, from \<open>main\<close> over any number of connections to the
  signal. If a thread marks its entry as complete while the loop still accepts, the loop over
  completed threads reads the entry it has just freed. Otherwise all are registered, the latest
  first. What \<open>SIGINT\<close> or \<open>SIGTERM\<close> then does, whichever threads have marked their entries since,
  depends on the build. With a plain file and a working timer the handler runs: when the clients
  are gone, so that their threads end, it joins all of them, gives back all memory of the thread
  manager and the addresses, closes the listening socket, removes the data file and exits with
  status 1; the descriptors of the clients, two for each, are left open. In every other case,
  and so always with the char device, the signal kills the server as it is: no thread is joined
  and nothing is freed.\<close>

theorem server_life:
  assumes "manager_inv (initialize_manager (mgr s)) [] []" and "timer s = no_timer"
    and "answers_ok os" and "getopt_d args False \<noteq> None"
    and "list_all connects as" and "list_all marked_end as" and "distinct (map new_id as)"
    and "\<forall>n. malloc_ok n" and "alloc_never_fails env"
    and "sig = SIGINT \<or> sig = SIGTERM" and "\<forall>a \<in> set as. ends (new_id a)"
  shows "if one_completes [] as then server_main malloc_ok env args os as s = Inl Use_After_Free
    else \<exists>s1 bs. server_main malloc_ok env args os as s = Inr (Returns s1) \<and>
      manager_inv (mgr s1) bs [] \<and> threads (mgr s1) bs = rev (map running_line as) \<and>
      (\<forall>ts. \<exists>m. mark_threads ts (mgr s1) = Inr m \<and>
        (if cleans_up os s
         then \<exists>s2. deliver ends sig (s1\<lparr>mgr := m\<rparr>) = Inr (Exits 1 s2) \<and> joined s2 = joined s @ rev (map new_id as) \<and>
           dom (entry_store (mgr s2)) = {} \<and> live (strings (mgr s2)) = {} \<and> server_address_info s2 = Addr_freed \<and>
           tmpdata_removed s2 \<and>
           open_fds s2 = removeAll (socket_rc os)
             (rev (concat (map (\<lambda>a. [accept_rc a, open_rc a]) as)) @ open_fds s)
         else deliver ends sig (s1\<lparr>mgr := m\<rparr>) = Inr (Exits (128 + sig) (s1\<lparr>mgr := m\<rparr>))))"
proof (cases "one_completes [] as")
  case True
  then show ?thesis
    using accept_all [OF assms(8,9,5,6), of "started os s" "[]"] assms(1,3,4,7)
    by (simp add: server_main_started threads_def)
next
  case False
  then obtain s1 bs where 1: "accept_connections malloc_ok env as (started os s) = Inr s1" "manager_inv (mgr s1) bs []"
      "threads (mgr s1) bs = rev (map running_line as)"
      "s1 = (started os s)\<lparr>open_fds := rev (concat (map (\<lambda>a. [accept_rc a, open_rc a]) as)) @ open_fds (started os s),
         mgr := mgr s1\<rparr>"
    using accept_all [OF assms(8,9,5,6), of "started os s" "[]"] assms(1,7) by (auto simp: threads_def)
  have s1: "open_fds s1 = rev (concat (map (\<lambda>a. [accept_rc a, open_rc a]) as)) @ socket_rc os # open_fds s"
    "joined s1 = joined s" "server_address_info s1 = Addr_live" "server_socket_fd s1 = socket_rc os"
    "timer s1 = timer (started os s)" "use_char_device s1 = use_char_device s"
    by (subst 1(4), simp)+
  have "\<exists>m. mark_threads ts (mgr s1) = Inr m \<and>
      (if cleans_up os s
       then \<exists>s2. deliver ends sig (s1\<lparr>mgr := m\<rparr>) = Inr (Exits 1 s2) \<and> joined s2 = joined s @ rev (map new_id as) \<and>
         dom (entry_store (mgr s2)) = {} \<and> live (strings (mgr s2)) = {} \<and> server_address_info s2 = Addr_freed \<and>
         tmpdata_removed s2 \<and>
         open_fds s2 = removeAll (socket_rc os) (rev (concat (map (\<lambda>a. [accept_rc a, open_rc a]) as)) @ open_fds s)
       else deliver ends sig (s1\<lparr>mgr := m\<rparr>) = Inr (Exits (128 + sig) (s1\<lparr>mgr := m\<rparr>)))" for ts
  proof -
    obtain m where m: "mark_threads ts (mgr s1) = Inr m" "manager_inv m bs []"
        "threads m bs = mark_lines ts (rev (map running_line as))"
      using mark_threads_refines [OF 1(2)] 1(3) by metis
    have ids: "map fst (threads m bs) = rev (map new_id as)" by (simp add: m(3) rev_map comp_def)
    then have "\<forall>l \<in> set (threads m bs). ends (fst l)" using assms(11) by (metis in_set_conv_nth length_map list.set_map nth_map set_rev image_iff)
    then show ?thesis
      using signal_ends [of "s1\<lparr>mgr := m\<rparr>" bs ends sig "cleans_up os s"] m(1,2) ids s1 assms(10) started_handlers [OF assms(2)]
      by (auto simp: cleans_up_def)
  qed
  then show ?thesis using False 1(1-3) server_main_started [OF assms(3,4)] by auto
qed

definition calls_ok :: answers where
  "calls_ok = \<lparr>getaddrinfo_rc = 0, socket_rc = 3, bind_rc = 0, listen_rc = 0, fork1_rc = 0, fork2_rc = 0,
     timer_create_rc = 0, timer_settime_rc = 0, live_threads_end = \<lambda>_. True\<rparr>"

text \<open>
  Two clients whose threads end after the last connection, in the build with a plain file; one in
  the build for the char device; and two of which the first ends before the second connection.
\<close>

theorem server_life_witness:
  "(\<exists>s1 m s2. server_main (\<lambda>_. True) memory [''-d''] calls_ok [visit 1, visit 2]
       (server_boot\<lparr>use_char_device := False\<rparr>) = Inr (Returns s1) \<and> mark_threads [102, 101] (mgr s1) = Inr m \<and>
     deliver (\<lambda>_. True) SIGTERM (s1\<lparr>mgr := m\<rparr>) = Inr (Exits 1 s2) \<and> joined s2 = [102, 101] \<and>
     open_fds s2 = [52, 12, 51, 11, 0, 1, 2]) \<and>
   (\<exists>s1 m. server_main (\<lambda>_. True) memory [] calls_ok [visit 1] server_boot = Inr (Returns s1) \<and>
     mark_threads [] (mgr s1) = Inr m \<and>
     deliver (\<lambda>_. True) SIGINT (s1\<lparr>mgr := m\<rparr>) = Inr (Exits 130 (s1\<lparr>mgr := m\<rparr>))) \<and>
   server_main (\<lambda>_. True) memory [] calls_ok [visit 1, (visit 2)\<lparr>marked := [101]\<rparr>] server_boot = Inl Use_After_Free"
proof (intro conjI)
  have boot: "manager_inv (initialize_manager (mgr server_boot)) [] []" "timer server_boot = no_timer"
    using server0_inv by (simp_all add: server0_def initialize_server_def server_boot_def)
  then have boot': "manager_inv (initialize_manager (mgr (server_boot\<lparr>use_char_device := False\<rparr>))) [] []"
      "timer (server_boot\<lparr>use_char_device := False\<rparr>) = no_timer"
    by simp_all
  have visits: "connects (visit n)" "marked_end (visit n)" "connects ((visit 2)\<lparr>marked := [101]\<rparr>)"
    "marked_end ((visit 2)\<lparr>marked := [101]\<rparr>)" for n
    using visit_accepted by (simp_all add: accepted_def marked_end_def connects_def has_ipv4_def)
  note rules = answers_ok_def calls_ok_def memory_def alloc_never_fails_def server_boot_def cleans_up_def
  from server_life [OF boot', of calls_ok "[''-d'']" "[visit 1, visit 2]" "\<lambda>_. True" memory SIGTERM "\<lambda>_. True"]
  obtain s1 where s1: "server_main (\<lambda>_. True) memory [''-d''] calls_ok [visit 1, visit 2]
       (server_boot\<lparr>use_char_device := False\<rparr>) = Inr (Returns s1)"
    "\<And>ts. \<exists>m. mark_threads ts (mgr s1) = Inr m \<and> (\<exists>s2. deliver (\<lambda>_. True) SIGTERM (s1\<lparr>mgr := m\<rparr>) = Inr (Exits 1 s2) \<and>
       joined s2 = [102, 101] \<and> open_fds s2 = [52, 12, 51, 11, 0, 1, 2])"
    using visits by (simp add: rules del: mark_threads.simps) blast
  then show "\<exists>s1 m s2. server_main (\<lambda>_. True) memory [''-d''] calls_ok [visit 1, visit 2]
       (server_boot\<lparr>use_char_device := False\<rparr>) = Inr (Returns s1) \<and> mark_threads [102, 101] (mgr s1) = Inr m \<and>
     deliver (\<lambda>_. True) SIGTERM (s1\<lparr>mgr := m\<rparr>) = Inr (Exits 1 s2) \<and> joined s2 = [102, 101] \<and>
     open_fds s2 = [52, 12, 51, 11, 0, 1, 2]" by blast
  from server_life [OF boot, of calls_ok "[]" "[visit 1]" "\<lambda>_. True" memory SIGINT "\<lambda>_. True"]
  obtain s1 where s1: "server_main (\<lambda>_. True) memory [] calls_ok [visit 1] server_boot = Inr (Returns s1)"
    "\<And>ts. \<exists>m. mark_threads ts (mgr s1) = Inr m \<and>
       deliver (\<lambda>_. True) SIGINT (s1\<lparr>mgr := m\<rparr>) = Inr (Exits 130 (s1\<lparr>mgr := m\<rparr>))"
    using visits by (simp add: rules del: mark_threads.simps) blast
  then show "\<exists>s1 m. server_main (\<lambda>_. True) memory [] calls_ok [visit 1] server_boot = Inr (Returns s1) \<and>
     mark_threads [] (mgr s1) = Inr m \<and>
     deliver (\<lambda>_. True) SIGINT (s1\<lparr>mgr := m\<rparr>) = Inr (Exits 130 (s1\<lparr>mgr := m\<rparr>))" by blast
  from server_life [OF boot, of calls_ok "[]" "[visit 1, (visit 2)\<lparr>marked := [101]\<rparr>]" "\<lambda>_. True" memory SIGINT "\<lambda>_. True"]
  show "server_main (\<lambda>_. True) memory [] calls_ok [visit 1, (visit 2)\<lparr>marked := [101]\<rparr>] server_boot = Inl Use_After_Free"
    using visits by (simp add: rules)
qed

text \<open>C17. One client from end to end: it is accepted, its handler stores its packets in the device
  and answers them, and marks its entry in the list as complete. The next connection that is
  accepted then makes the server read the entry it has just freed.\<close>

theorem next_client_crashes_server:
  assumes "manager_inv (mgr s) bs []" and "\<not> list_ex completed (threads (mgr s) bs)"
    and "accepted a" and "accepted a'" and "\<forall>n. malloc_ok n" and "alloc_never_fails env"
    and "distinct (new_id a' # new_id a # map fst (threads (mgr s) bs))" and "threads_end a' (new_id a)"
    and "good_file env f" and "pending (kern f) = []" and "[] \<notin> set chunks"
    and "plain_from [] (concat chunks)" and "fits_file (length (concat chunks)) f"
  shows "\<exists>s1 b c m. accept_one malloc_ok env a s = Inr s1 \<and>
    client_handler (char_file env) (Blk b) chunks False f (mgr s1) = Inr (c, m, accept_rc a) \<and>
    (write_buffer c, lines (kern (tmpdata c)), file_position (tmpdata c), sent c)
      = fold serve_byte (concat chunks) ([], lines (kern f), file_position f, []) \<and>
    manager_inv m (b # bs) [] \<and>
    threads m (b # bs) = (new_id a, peer_ip a, accept_rc a, open_rc a, True) # threads (mgr s) bs \<and>
    accept_one malloc_ok env a' (s1\<lparr>mgr := m\<rparr>) = Inl Use_After_Free"
proof -
  have mem: "malloc_ok n" "kmalloc_ok env n" for n using assms(5,6) by (simp_all add: alloc_never_fails_def)
  obtain s1 b where 1: "accept_one malloc_ok env a s = Inr s1" "manager_inv (mgr s1) (b # bs) []"
      "threads (mgr s1) (b # bs) = (new_id a, peer_ip a, accept_rc a, open_rc a, False) # threads (mgr s) bs"
    using accept_idle [where malloc_ok = malloc_ok and env = env, OF assms(1,3) mem assms(2)] by blast
  have ok: "manager_ok (mgr s1) (b # bs) []" using 1(2) by (simp add: manager_inv_def)
  let ?e = "entry_of (mgr s1) b"
  have get: "get_entry (mgr s1) (Blk b) = Inr ?e" using entry_of_get [OF ok, of b] by simp
  have "line_of (mgr s1) b = (new_id a, peer_ip a, accept_rc a, open_rc a, False)"
    using 1(3) by (simp add: threads_def)
  then have e: "thread_id ?e = new_id a" "client_fd ?e = accept_rc a" by (simp_all add: line_of_def Let_def)
  obtain c where c: "receive_loop (char_file env) chunks (new_session False f) = Inr c"
      "(write_buffer c, lines (kern (tmpdata c)), file_position (tmpdata c), sent c)
        = fold serve_byte (concat chunks) ([], lines (kern f), file_position f, [])"
    using receive_char [OF assms(9-13)] by blast
  obtain r m where m: "thread_entry_markcomplete (new_id a) (mgr s1) = Inr (r, m)" "manager_inv m (b # bs) []"
      "threads m (b # bs) = (new_id a, peer_ip a, accept_rc a, open_rc a, True) # threads (mgr s) bs"
    using mark_refines [OF 1(2), of "new_id a"] 1(3) by auto
  have "client_handler (char_file env) (Blk b) chunks False f (mgr s1) = Inr (c, m, accept_rc a)"
    using get print_ok [OF ok, of b] c(1) m(1) e by (simp add: client_handler_def)
  moreover have "accept_one malloc_ok env a' (s1\<lparr>mgr := m\<rparr>) = Inl Use_After_Free"
    using accept_after_completion [where malloc_ok = malloc_ok and env = env and s = "s1\<lparr>mgr := m\<rparr>", OF _ assms(4)]
      m(2,3) mem assms(2,7,8) by (auto simp: completed_def list_ex_iff)
  ultimately show ?thesis using 1 c(2) m(2,3) by blast
qed

theorem next_client_crashes_server_witness:
  "\<exists>s1 b c m. accept_one (\<lambda>_. True) env0 (visit 1) server0 = Inr s1 \<and>
     client_handler (char_file env0) (Blk b) [''x'', [NL]] False (open_char kernel1) (mgr s1) = Inr (c, m, 11) \<and>
     sent c = line ''ab'' @ line ''x'' \<and>
     accept_one (\<lambda>_. True) env0 (visit 2) (s1\<lparr>mgr := m\<rparr>) = Inl Use_After_Free"
proof -
  have "good_file env0 (open_char kernel1)" "fits_file (Suc (Suc 0)) (open_char kernel1)"
    by (simp_all add: open_char_good kernel1_inv fits_file_def line_def)
  moreover have "plain ''x''" by (simp add: plain_def AESD_IOCTL_SEEKTO_def)
  ultimately show ?thesis
    using next_client_crashes_server [OF server0_inv _ visit_accepted [of 1] visit_accepted [of 2],
        of "\<lambda>_. True" env0 "open_char kernel1" "[''x'', [NL]]"]
    by (fastforce simp: threads_def kernel1_inv push_line_def line_def)
qed

end
