(* ===== verification/Thread_Registry.thy ===== *)
theory Thread_Registry
  imports Server_Theorems Device_State
begin

text \<open>
  The interface between the threads of the server and the list of their entries. The accepting
  thread makes an entry, lets \<open>pthread_create\<close> store the id in it, and adds or drops it; client
  threads mark entries; the accepting thread removes them. As the operations on the list hold
  its mutex, the threads together make a sequence of such events, in any order.
\<close>

section \<open>Events\<close>

datatype event =
    Created bytes int int
  | Started nat
  | Added
  | Dropped
  | Marked nat
  | Removed nat

record 'm registry =
  reg_create :: "bytes \<Rightarrow> int \<Rightarrow> int \<Rightarrow> 'm \<Rightarrow> (ptr \<times> 'm) res"
  reg_start :: "ptr \<Rightarrow> nat \<Rightarrow> 'm \<Rightarrow> 'm res"
  reg_add :: "ptr \<Rightarrow> 'm \<Rightarrow> (int \<times> 'm) res"
  reg_free :: "ptr \<Rightarrow> 'm \<Rightarrow> (int \<times> 'm) res"
  reg_mark :: "nat \<Rightarrow> 'm \<Rightarrow> (int \<times> 'm) res"
  reg_remove :: "nat \<Rightarrow> 'm \<Rightarrow> (int \<times> 'm) res"

text \<open>
  The entry the accepting thread has in its hands is a pointer, on the side of the program, and
  a line on the side of the specification. An event that needs one and has none, or the other
  way round, cannot happen and does nothing.
\<close>

fun run_event :: "'m registry \<Rightarrow> event \<Rightarrow> 'm \<times> ptr option \<Rightarrow> ('m \<times> ptr option) res" where
  "run_event ops (Created ip cfd tfd) (m, None) =
     bind_res (reg_create ops ip cfd tfd m) (\<lambda>(p, m). Inr (m, if p = NULL then None else Some p))"
| "run_event ops (Started tid) (m, Some p) = bind_res (reg_start ops p tid m) (\<lambda>m. Inr (m, Some p))"
| "run_event ops Added (m, Some p) = bind_res (reg_add ops p m) (\<lambda>(_, m). Inr (m, None))"
| "run_event ops Dropped (m, Some p) = bind_res (reg_free ops p m) (\<lambda>(_, m). Inr (m, None))"
| "run_event ops (Marked tid) (m, h) = bind_res (reg_mark ops tid m) (\<lambda>(_, m). Inr (m, h))"
| "run_event ops (Removed tid) (m, h) = bind_res (reg_remove ops tid m) (\<lambda>(_, m). Inr (m, h))"
| "run_event ops _ s = Inr s"

fun run_events :: "'m registry \<Rightarrow> event list \<Rightarrow> 'm \<times> ptr option \<Rightarrow> ('m \<times> ptr option) res" where
  "run_events ops [] s = Inr s"
| "run_events ops (e # es) s = bind_res (run_event ops e s) (run_events ops es)"

type_synonym registry_spec = "thread_line list \<times> thread_line option"

fun spec_event :: "event \<Rightarrow> registry_spec \<Rightarrow> registry_spec" where
  "spec_event (Created ip cfd tfd) (ls, None) = (ls, Some (0, ip, cfd, tfd, False))"
| "spec_event (Started tid) (ls, Some (_, ip, cfd, tfd, c)) = (ls, Some (tid, ip, cfd, tfd, c))"
| "spec_event Added (ls, Some l) = (l # ls, None)"
| "spec_event Dropped (ls, Some l) = (ls, None)"
| "spec_event (Marked tid) (ls, d) = (case mark_line tid ls of None \<Rightarrow> (ls, d) | Some ls' \<Rightarrow> (ls', d))"
| "spec_event (Removed tid) (ls, d) = (case remove_line tid ls of None \<Rightarrow> (ls, d) | Some ls' \<Rightarrow> (ls', d))"
| "spec_event _ s = s"

fun text_ok :: "event \<Rightarrow> bool" where
  "text_ok (Created ip _ _) \<longleftrightarrow> NUL \<notin> set ip"
| "text_ok _ \<longleftrightarrow> True"

section \<open>The contract\<close>

text \<open>\<open>shows m ls d\<close>: \<open>m\<close> lists the lines \<open>ls\<close>, and \<open>d\<close> is the entry outside the list, if there is one.\<close>

locale thread_registry =
  fixes ops :: "'m registry"
    and shows_lines :: "'m \<Rightarrow> thread_line list \<Rightarrow> (ptr \<times> thread_line) option \<Rightarrow> bool"
  assumes create_law: "shows_lines m ls None \<Longrightarrow> NUL \<notin> set ip \<Longrightarrow>
      \<exists>p m'. reg_create ops ip cfd tfd m = Inr (p, m') \<and> p \<noteq> NULL \<and>
        shows_lines m' ls (Some (p, 0, ip, cfd, tfd, False))"
    and start_law: "shows_lines m ls (Some (p, i, ip, cfd, tfd, c)) \<Longrightarrow>
      \<exists>m'. reg_start ops p tid m = Inr m' \<and> shows_lines m' ls (Some (p, tid, ip, cfd, tfd, c))"
    and add_law: "shows_lines m ls (Some (p, l)) \<Longrightarrow>
      \<exists>m'. reg_add ops p m = Inr (0, m') \<and> shows_lines m' (l # ls) None"
    and free_law: "shows_lines m ls (Some (p, l)) \<Longrightarrow>
      \<exists>m'. reg_free ops p m = Inr (0, m') \<and> shows_lines m' ls None"
    and mark_law: "shows_lines m ls d \<Longrightarrow> \<exists>r m'. reg_mark ops tid m = Inr (r, m') \<and>
      (case mark_line tid ls of None \<Rightarrow> r = - 1 \<and> m' = m | Some ls' \<Rightarrow> r = 0 \<and> shows_lines m' ls' d)"
    and remove_law: "shows_lines m ls d \<Longrightarrow> \<exists>r m'. reg_remove ops tid m = Inr (r, m') \<and>
      (case remove_line tid ls of None \<Rightarrow> r = - 1 \<and> m' = m | Some ls' \<Rightarrow> r = 0 \<and> shows_lines m' ls' d)"
begin

lemma event_refines:
  assumes "shows_lines m ls d" and "text_ok e"
  shows "\<exists>m' d'. run_event ops e (m, map_option fst d) = Inr (m', map_option fst d') \<and>
    shows_lines m' (fst (spec_event e (ls, map_option snd d))) d' \<and>
    map_option snd d' = snd (spec_event e (ls, map_option snd d))"
proof (cases e)
  case (Created ip cfd tfd)
  show ?thesis
  proof (cases d)
    case None
    obtain p m' where "reg_create ops ip cfd tfd m = Inr (p, m')" "p \<noteq> NULL"
        "shows_lines m' ls (Some (p, 0, ip, cfd, tfd, False))"
      using create_law [of m ls ip cfd tfd] assms None Created by auto
    then show ?thesis using None Created by (intro exI [of _ m'] exI [of _ "Some (p, 0, ip, cfd, tfd, False)"]) simp
  next
    case (Some pl)
    then show ?thesis using assms Created by (intro exI [of _ m] exI [of _ d]) (cases pl; simp)
  qed
next
  case (Started tid)
  show ?thesis
  proof (cases d)
    case (Some pl)
    obtain p i ip cfd tfd c where pl: "pl = (p, i, ip, cfd, tfd, c)" by (cases pl)
    obtain m' where "reg_start ops p tid m = Inr m'" "shows_lines m' ls (Some (p, tid, ip, cfd, tfd, c))"
      using start_law assms(1) Some pl by blast
    then show ?thesis using Some Started pl by (intro exI [of _ m'] exI [of _ "Some (p, tid, ip, cfd, tfd, c)"]) simp
  qed (use assms Started in auto)
next
  case Added
  then show ?thesis
  proof (cases d)
    case (Some pl)
    then show ?thesis using add_law [of m ls "fst pl" "snd pl"] assms(1) Added by (auto intro: exI [of _ None])
  qed (use assms Added in auto)
next
  case Dropped
  then show ?thesis
  proof (cases d)
    case (Some pl)
    then show ?thesis using free_law [of m ls "fst pl" "snd pl"] assms(1) Dropped by (auto intro: exI [of _ None])
  qed (use assms Dropped in auto)
next
  case (Marked tid)
  obtain r m' where "reg_mark ops tid m = Inr (r, m')"
      "case mark_line tid ls of None \<Rightarrow> r = - 1 \<and> m' = m | Some ls' \<Rightarrow> r = 0 \<and> shows_lines m' ls' d"
    using mark_law [OF assms(1)] by blast
  then show ?thesis using assms(1) Marked by (intro exI [of _ m'] exI [of _ d]) (auto split: option.splits)
next
  case (Removed tid)
  obtain r m' where "reg_remove ops tid m = Inr (r, m')"
      "case remove_line tid ls of None \<Rightarrow> r = - 1 \<and> m' = m | Some ls' \<Rightarrow> r = 0 \<and> shows_lines m' ls' d"
    using remove_law [OF assms(1)] by blast
  then show ?thesis using assms(1) Removed by (intro exI [of _ m'] exI [of _ d]) (auto split: option.splits)
qed

lemma events_refine:
  "shows_lines m ls d \<Longrightarrow> list_all text_ok es \<Longrightarrow>
     \<exists>m' d'. run_events ops es (m, map_option fst d) = Inr (m', map_option fst d') \<and>
       shows_lines m' (fst (fold spec_event es (ls, map_option snd d))) d' \<and>
       map_option snd d' = snd (fold spec_event es (ls, map_option snd d))"
proof (induction es arbitrary: m ls d)
  case (Cons e es)
  obtain m1 d1 where 1: "run_event ops e (m, map_option fst d) = Inr (m1, map_option fst d1)"
      "shows_lines m1 (fst (spec_event e (ls, map_option snd d))) d1"
      "map_option snd d1 = snd (spec_event e (ls, map_option snd d))"
    using event_refines [OF Cons.prems(1), of e] Cons.prems(2) by (simp only: list.pred_inject) blast
  from Cons.IH [OF 1(2)] Cons.prems(2) 1(1,3) show ?case by (cases "spec_event e (ls, map_option snd d)") auto
qed auto

end

section \<open>The list of the server keeps it\<close>

text \<open>What \<open>accept_connections\<close> does with the list, and \<open>pthread_create\<close> with the id it is given.\<close>

definition store_thread_id :: "ptr \<Rightarrow> nat \<Rightarrow> manager \<Rightarrow> manager res" where
  "store_thread_id p tid m =
     bind_res (get_entry m p) (\<lambda>e. set_entry_at p (e\<lparr>thread_id := tid\<rparr>) m)"

definition server_registry :: "(nat \<Rightarrow> bool) \<Rightarrow> kenv \<Rightarrow> manager registry" where
  "server_registry malloc_ok env =
     \<lparr>reg_create = thread_entry_create malloc_ok env 0, reg_start = store_thread_id, reg_add = thread_entry_add,
      reg_free = thread_entry_free, reg_mark = thread_entry_markcomplete, reg_remove = thread_entry_remove\<rparr>"

definition manager_shows :: "(nat \<Rightarrow> bool) \<Rightarrow> kenv \<Rightarrow> manager \<Rightarrow> thread_line list \<Rightarrow> (ptr \<times> thread_line) option \<Rightarrow> bool" where
  "manager_shows malloc_ok env m ls d \<longleftrightarrow> (\<forall>n. malloc_ok n) \<and> alloc_never_fails env \<and>
     (\<exists>bs. threads m bs = ls \<and>
        (case d of None \<Rightarrow> manager_inv m bs []
         | Some (p, l) \<Rightarrow> \<exists>b. p = Blk b \<and> manager_inv m bs [b] \<and> line_of m b = l))"

lemma shows_free:
  "manager_shows malloc_ok env m ls None \<longleftrightarrow> (\<forall>n. malloc_ok n) \<and> alloc_never_fails env \<and>
     (\<exists>bs. threads m bs = ls \<and> manager_inv m bs [])"
  by (simp add: manager_shows_def)

lemma shows_held:
  "manager_shows malloc_ok env m ls (Some (p, l)) \<longleftrightarrow> (\<forall>n. malloc_ok n) \<and> alloc_never_fails env \<and>
     (\<exists>bs b. threads m bs = ls \<and> p = Blk b \<and> manager_inv m bs [b] \<and> line_of m b = l)"
  by (auto simp: manager_shows_def)

lemma threads_same: "\<forall>c \<in> set bs. line_of m' c = line_of m c \<Longrightarrow> threads m' bs = threads m bs"
  by (simp add: threads_def)

lemma store_thread_id_ok:
  assumes inv: "manager_inv m bs [b]" and b: "line_of m b = (i, ip, cfd, tfd, c)"
  shows "\<exists>m'. store_thread_id (Blk b) tid m = Inr m' \<and> manager_inv m' bs [b] \<and> threads m' bs = threads m bs \<and>
    line_of m' b = (tid, ip, cfd, tfd, c)"
proof -
  let ?e = "(entry_of m b)\<lparr>thread_id := tid\<rparr>"
  let ?m' = "m\<lparr>entry_store := (entry_store m)(b \<mapsto> ?e)\<rparr>"
  have ok: "manager_ok m bs [b]" using inv by (simp add: manager_inv_def)
  have "entry_store m b = Some (entry_of m b)" using entry_of_get [OF ok, of b] by simp
  then have "store_thread_id (Blk b) tid m = Inr ?m'" by (simp add: store_thread_id_def)
  moreover have "manager_ok ?m' bs [b]" by (rule overwrite_ok [OF ok]) simp_all
  then have "manager_inv ?m' bs [b]" using inv by (simp add: manager_inv_def)
  moreover have "b \<notin> set bs" using ok by (auto simp: manager_ok_def)
  then have "threads ?m' bs = threads m bs" by (auto simp: threads_def line_of_def entry_of_def)
  moreover have "line_of ?m' b = (tid, ip, cfd, tfd, c)" using b by (simp add: line_of_def entry_of_def Let_def)
  ultimately show ?thesis by blast
qed

interpretation list_of_threads: thread_registry "server_registry malloc_ok env" "manager_shows malloc_ok env"
  for malloc_ok env
proof unfold_locales
  fix m ls ip cfd tfd
  assume sl: "manager_shows malloc_ok env m ls None" and ip: "NUL \<notin> set ip"
  then obtain bs where bs: "threads m bs = ls" "manager_inv m bs []" and mem: "malloc_ok n" "kmalloc_ok env n" for n
    by (auto simp: shows_free alloc_never_fails_def)
  obtain b m' where "thread_entry_create malloc_ok env 0 ip cfd tfd m = Inr (Blk b, m')" "manager_inv m' bs [b]"
      "line_of m' b = (0, ip, cfd, tfd, False)" "\<forall>c \<in> set bs. line_of m' c = line_of m c"
    using create_ok [where malloc_ok = malloc_ok and tid = 0 and cfd = cfd and tfd = tfd, OF bs(2) mem ip] by auto
  then show "\<exists>p m'. reg_create (server_registry malloc_ok env) ip cfd tfd m = Inr (p, m') \<and> p \<noteq> NULL \<and>
      manager_shows malloc_ok env m' ls (Some (p, 0, ip, cfd, tfd, False))"
    using sl bs(1) threads_same [of bs m' m]
    by (intro exI [of _ "Blk b"] exI [of _ m']) (auto simp: server_registry_def shows_free shows_held)
next
  fix m ls p i ip cfd tfd c tid
  assume "manager_shows malloc_ok env m ls (Some (p, i, ip, cfd, tfd, c))"
  then show "\<exists>m'. reg_start (server_registry malloc_ok env) p tid m = Inr m' \<and>
      manager_shows malloc_ok env m' ls (Some (p, tid, ip, cfd, tfd, c))"
    using store_thread_id_ok [of m _ _ i ip cfd tfd c tid] by (fastforce simp: server_registry_def shows_held)
next
  fix m ls p l
  assume sl: "manager_shows malloc_ok env m ls (Some (p, l))"
  then obtain bs b where b: "threads m bs = ls" "p = Blk b" "manager_inv m bs [b]" "line_of m b = l"
    by (auto simp: shows_held)
  from add_ok [OF b(3)] obtain m' where m': "thread_entry_add (Blk b) m = Inr (0, m')" "manager_inv m' (b # bs) []"
      "\<forall>c. line_of m' c = line_of m c" by blast
  then have "threads m' bs = ls" using b(1) threads_same [of bs m' m] by simp
  then have "threads m' (b # bs) = l # ls" using m'(3) b(4) by (simp add: threads_def)
  then show "\<exists>m'. reg_add (server_registry malloc_ok env) p m = Inr (0, m') \<and> manager_shows malloc_ok env m' (l # ls) None"
    using sl m' b(2) by (auto simp: server_registry_def shows_free shows_held)
  obtain m2 where m2: "thread_entry_free (Blk b) m = Inr (0, m2)" "manager_inv m2 bs []" "threads m2 bs = threads m bs"
    using free_detached [of m bs b "[]"] b(3) threads_same by (fastforce simp: manager_inv_def)
  then show "\<exists>m'. reg_free (server_registry malloc_ok env) p m = Inr (0, m') \<and> manager_shows malloc_ok env m' ls None"
    using sl b by (auto simp: server_registry_def shows_free shows_held)
next
  fix m ls d tid
  assume sl: "manager_shows malloc_ok env m ls d"
  then obtain bs ps where bs: "threads m bs = ls" "manager_inv m bs ps"
    and same: "\<And>m' bs' ls'. manager_inv m' bs' ps \<Longrightarrow> threads m' bs' = ls' \<Longrightarrow>
        \<forall>c \<in> set ps. line_of m' c = line_of m c \<Longrightarrow> manager_shows malloc_ok env m' ls' d"
    by (cases d) (force simp: shows_free shows_held)+
  show "\<exists>r m'. reg_mark (server_registry malloc_ok env) tid m = Inr (r, m') \<and>
      (case mark_line tid ls of None \<Rightarrow> r = - 1 \<and> m' = m | Some ls' \<Rightarrow> r = 0 \<and> manager_shows malloc_ok env m' ls' d)"
    using mark_refines [OF bs(2), of tid] same bs(1) by (fastforce simp: server_registry_def split: option.splits)
  show "\<exists>r m'. reg_remove (server_registry malloc_ok env) tid m = Inr (r, m') \<and>
      (case remove_line tid ls of None \<Rightarrow> r = - 1 \<and> m' = m | Some ls' \<Rightarrow> r = 0 \<and> manager_shows malloc_ok env m' ls' d)"
    using remove_refines [OF bs(2), of tid] same bs(1) by (fastforce simp: server_registry_def split: option.splits)
qed

section \<open>Properties\<close>

text \<open>C19. Any sequence of events of the accepting thread and of client threads, in whatever order,
  leaves in the list what the specification on a plain list of lines leaves: entries are
  registered at the head, marked and removed by the first line with their id, and an entry that
  is not in the list yet cannot be marked. No sequence faults, blocks on the mutex, or loses
  memory.\<close>

theorem registry_refines:
  assumes "manager_inv m bs []" and "\<forall>n. malloc_ok n" and "alloc_never_fails env" and "list_all text_ok es"
  shows "\<exists>m' h bs' ps. run_events (server_registry malloc_ok env) es (m, None) = Inr (m', h) \<and>
    manager_inv m' bs' ps \<and> threads m' bs' = fst (fold spec_event es (threads m bs, None)) \<and>
    threads m' ps = (case snd (fold spec_event es (threads m bs, None)) of None \<Rightarrow> [] | Some l \<Rightarrow> [l])"
proof -
  have "manager_shows malloc_ok env m (threads m bs) None" using assms(1-3) by (auto simp: shows_free)
  from list_of_threads.events_refine [OF this assms(4)] obtain m' d' where
    m': "run_events (server_registry malloc_ok env) es (m, None) = Inr (m', map_option fst d')"
      "manager_shows malloc_ok env m' (fst (fold spec_event es (threads m bs, None))) d'"
      "map_option snd d' = snd (fold spec_event es (threads m bs, None))"
    by auto
  show ?thesis
  proof (cases d')
    case None
    then obtain bs' where "threads m' bs' = fst (fold spec_event es (threads m bs, None))" "manager_inv m' bs' []"
      using m'(2) by (auto simp: shows_free)
    then show ?thesis using m'(1,3) None by (intro exI [of _ m'] exI [of _ bs'] exI conjI) (auto simp: threads_def)
  next
    case (Some pl)
    then obtain bs' b where "threads m' bs' = fst (fold spec_event es (threads m bs, None))" "manager_inv m' bs' [b]"
        "line_of m' b = snd pl"
      using m'(2) by (cases pl) (auto simp: shows_held)
    then show ?thesis using m'(1) m'(3) [symmetric] Some
      by (intro exI [of _ m'] exI [of _ "Some (fst pl)"] exI [of _ bs'] exI [of _ "[b]"]) (auto simp: threads_def)
  qed
qed

theorem registry_refines_witness:
  "\<exists>m' h bs'. run_events (server_registry (\<lambda>_. True) memory)
       [Created ''10.0.0.1'' 4 5, Started 9, Marked 9, Added, Created ''10.0.0.2'' 6 7, Started 8, Added, Marked 8]
       (mgr server0, None) = Inr (m', h) \<and>
     threads m' bs' = [(8, ''10.0.0.2'', 6, 7, True), (9, ''10.0.0.1'', 4, 5, False)]"
proof -
  have "threads (mgr server0) [] = []" by (simp add: threads_def)
  then show ?thesis
    using registry_refines [OF server0_inv, of "\<lambda>_. True" memory
        "[Created ''10.0.0.1'' 4 5, Started 9, Marked 9, Added, Created ''10.0.0.2'' 6 7, Started 8, Added, Marked 8]"]
    by (fastforce simp: memory_def alloc_never_fails_def simp del: run_events.simps)
qed

end
