(* ===== verification/Systemcalls.thy ===== *)
theory Systemcalls
  imports Prelude
begin

text \<open>
  \<open>examples/systemcalls/systemcalls.c\<close>: running a command by \<open>system\<close> and by \<open>fork\<close>, \<open>execv\<close> and
  \<open>waitpid\<close>, with and without its output sent to a file. A call of \<open>fork\<close> gives two processes, so
  the result of a function says what it returns in the caller and what becomes of the child.
\<close>

section \<open>The code\<close>

text \<open>\<open>system\<close> returns \<open>rc\<close>; a \<open>NULL\<close> command is \<open>None\<close>.\<close>

definition do_system :: "int \<Rightarrow> string option \<Rightarrow> bool" where
  "do_system rc cmd = (case cmd of None \<Rightarrow> False | Some _ \<Rightarrow> rc = 0)"

text \<open>
  What \<open>waitpid\<close> reports of the child: that it exited with a status, or that a signal killed
  it. What the child becomes: another program (with the arguments, and whether its output goes
  to the file), or a second copy of the calling program in which the function has returned.
\<close>

datatype wait_status = Exited nat | Signaled nat

datatype child_fate = Replaced "string list" bool | Returned bool

record exec_os =
  open_ok :: bool
  fork_ok :: bool
  dup2_ok :: bool
  execv_ok :: bool
  waitpid_ok :: bool
  status :: wait_status

fun first_char :: "string \<Rightarrow> char" where
  "first_char [] = NUL"
| "first_char (c # cs) = c"

text \<open>The arguments after \<open>count\<close>, and the \<open>NULL\<close> behind them: without one, \<open>command[0]\<close> is \<open>NULL\<close>.\<close>

fun command_path :: "string list \<Rightarrow> string res" where
  "command_path [] = Inl Null_Deref"
| "command_path (p # _) = Inr p"

definition wait_result :: "exec_os \<Rightarrow> bool" where
  "wait_result os =
     (if \<not> waitpid_ok os then False
      else case status os of Exited n \<Rightarrow> n = 0 | Signaled _ \<Rightarrow> True)"

definition do_exec :: "exec_os \<Rightarrow> string list \<Rightarrow> (bool \<times> child_fate option) res" where
  "do_exec os command =
     bind_res (command_path command) (\<lambda>path.
     if first_char path \<noteq> CHR ''/'' then Inr (False, None)
     else if \<not> fork_ok os then Inr (False, None)
     else
       Inr (wait_result os,
         Some (if execv_ok os then Replaced command False else Returned False)))"

text \<open>
  With the output in a file; the last component says whether the descriptor of the file is
  still open in the caller.
\<close>

definition do_exec_redirect :: "exec_os \<Rightarrow> string list \<Rightarrow> (bool \<times> child_fate option \<times> bool) res" where
  "do_exec_redirect os command =
     bind_res (command_path command) (\<lambda>path.
     if first_char path \<noteq> CHR ''/'' then Inr (False, None, False)
     else if \<not> open_ok os then Inr (False, None, False)
     else if \<not> fork_ok os then Inr (False, None, True)
     else
       Inr (wait_result os,
         Some (if \<not> dup2_ok os then Returned False
               else if execv_ok os then Replaced command True else Returned False),
         \<not> (waitpid_ok os \<and> (case status os of Exited _ \<Rightarrow> False | Signaled _ \<Rightarrow> True))))"

section \<open>Properties\<close>

definition absolute :: "string list \<Rightarrow> bool" where
  "absolute command \<longleftrightarrow> (\<exists>p ps. command = (CHR ''/'' # p) # ps)"

lemma absolute_path: "absolute command \<Longrightarrow> \<exists>p. command_path command = Inr p \<and> first_char p = CHR ''/''"
  by (auto simp: absolute_def)

lemma not_absolute_path:
  "\<not> absolute command \<Longrightarrow> command \<noteq> [] \<Longrightarrow> \<exists>p. command_path command = Inr p \<and> first_char p \<noteq> CHR ''/''"
  by (cases command; cases "hd command") (auto simp: absolute_def)

lemma wait_result_iff: "wait_result os \<longleftrightarrow> waitpid_ok os \<and> (\<forall>n. status os \<noteq> Exited (Suc n))"
proof (cases "status os")
  case (Exited n)
  then show ?thesis by (cases n) (simp_all add: wait_result_def)
qed (simp add: wait_result_def)

text \<open>C38. Of a command with at least its path: \<open>do_exec\<close> returns true exactly if the path is
  absolute, the child could be made and waited for, and the child did not exit with a status
  other than 0. A child that is killed by a signal therefore counts as a success. A child whose
  \<open>execv\<close> fails is not ended: it returns false into the calling program, which then runs twice.\<close>

theorem do_exec_result:
  assumes "command \<noteq> []"
  shows "\<exists>r c. do_exec os command = Inr (r, c) \<and>
    (r \<longleftrightarrow> absolute command \<and> fork_ok os \<and> waitpid_ok os \<and> (\<forall>n. status os \<noteq> Exited (Suc n))) \<and>
    (c = Some (Replaced command False) \<longleftrightarrow> absolute command \<and> fork_ok os \<and> execv_ok os) \<and>
    (c = Some (Returned False) \<longleftrightarrow> absolute command \<and> fork_ok os \<and> \<not> execv_ok os)"
proof (cases "absolute command")
  case True
  show ?thesis using absolute_path [OF True] True by (auto simp: do_exec_def wait_result_iff)
next
  case False
  then show ?thesis using not_absolute_path [OF False assms] by (auto simp: do_exec_def)
qed

definition calm :: exec_os where
  "calm = \<lparr>open_ok = True, fork_ok = True, dup2_ok = True, execv_ok = True, waitpid_ok = True, status = Exited 0\<rparr>"

theorem do_exec_result_witness:
  "do_exec (calm\<lparr>status := Signaled 9\<rparr>) [''/bin/ls''] = Inr (True, Some (Replaced [''/bin/ls''] False)) \<and>
   do_exec (calm\<lparr>execv_ok := False, status := Exited 1\<rparr>) [''/bin/none''] = Inr (False, Some (Returned False))"
  using do_exec_result [of "[''/bin/ls'']" "calm\<lparr>status := Signaled 9\<rparr>"]
    do_exec_result [of "[''/bin/none'']" "calm\<lparr>execv_ok := False, status := Exited 1\<rparr>"]
  by (auto simp: absolute_def calm_def)

fun without_file :: "child_fate \<Rightarrow> child_fate" where
  "without_file (Replaced command _) = Replaced command False"
| "without_file (Returned r) = Returned r"

text \<open>\<open>do_exec_redirect\<close> agrees with \<open>do_exec\<close> once its file is open, and sends the output
  of the new program to the file. But the descriptor, which its comment says is closed at the
  end, is closed only when the child was killed by a signal.\<close>

theorem do_exec_redirect_result:
  assumes "command \<noteq> []" and "open_ok os" and "dup2_ok os"
  shows "\<exists>r c open. do_exec_redirect os command = Inr (r, c, open) \<and>
    do_exec os command = Inr (r, map_option without_file c) \<and>
    (\<forall>cmd out. c = Some (Replaced cmd out) \<longrightarrow> out) \<and>
    (open \<longleftrightarrow> absolute command \<and> \<not> (fork_ok os \<and> waitpid_ok os \<and> (\<exists>n. status os = Signaled n)))"
proof (cases "absolute command")
  case True
  then show ?thesis using absolute_path [OF True] assms
    by (auto simp: do_exec_redirect_def do_exec_def split: wait_status.split)
next
  case False
  then obtain p where "command_path command = Inr p" "first_char p \<noteq> CHR ''/''"
    using not_absolute_path [OF False assms(1)] by blast
  then show ?thesis using False
    by (intro exI [of _ False] exI [of _ None]) (simp add: do_exec_redirect_def do_exec_def)
qed

theorem do_exec_redirect_result_witness:
  "do_exec_redirect calm [''/bin/ls''] = Inr (True, Some (Replaced [''/bin/ls''] True), True)"
proof -
  obtain r c left_open where
    "do_exec_redirect calm [''/bin/ls''] = Inr (r, c, left_open)"
    "do_exec calm [''/bin/ls''] = Inr (r, map_option without_file c)"
    "\<forall>cmd out. c = Some (Replaced cmd out) \<longrightarrow> out" "left_open"
    using do_exec_redirect_result [of "[''/bin/ls'']" calm] by (auto simp: absolute_def calm_def)
  then show ?thesis
    by (cases c; cases "the c") (auto simp: do_exec_def calm_def wait_result_def)
qed

end
