(* ===== verification/Threading.thy ===== *)
theory Threading
  imports Prelude
begin

text \<open>
  \<open>examples/threading/threading.c\<close>: a thread that waits, takes a mutex, holds it for a while and
  releases it, and the function that starts such a thread. The thread is modelled as a function
  of what the mutex calls return, and as the steps by which several such threads share one mutex.
  The log lines are not modelled.
\<close>

section \<open>The code\<close>

record thread_data =
  mutex :: nat
  wait_to_obtain_ms :: int
  wait_to_release_ms :: int
  thread_complete_success :: bool

text \<open>What a thread does, in order, with the mutex it does it to. The argument of \<open>usleep\<close> is unsigned.\<close>

datatype action = Sleep u32 | Lock nat | Unlock nat

text \<open>The product \<open>ms * 1000\<close> is computed in \<open>int\<close> and then converted.\<close>

definition microseconds :: "int \<Rightarrow> u32 res" where
  "microseconds ms =
     (if - (2 ^ 31) \<le> ms * 1000 \<and> ms * 1000 < 2 ^ 31 then Inr (of_int (ms * 1000))
      else Inl Signed_Overflow)"

definition threadfunc :: "int \<Rightarrow> int \<Rightarrow> thread_data \<Rightarrow> (action list \<times> thread_data) res" where
  "threadfunc lock_rc unlock_rc args =
     bind_res (microseconds (wait_to_obtain_ms args)) (\<lambda>us1.
     if lock_rc \<noteq> 0
     then Inr ([Sleep us1, Lock (mutex args)], args\<lparr>thread_complete_success := False\<rparr>)
     else
       bind_res (microseconds (wait_to_release_ms args)) (\<lambda>us2.
       if unlock_rc \<noteq> 0
       then Inr ([Sleep us1, Lock (mutex args), Sleep us2, Unlock (mutex args)],
         args\<lparr>thread_complete_success := False\<rparr>)
       else Inr ([Sleep us1, Lock (mutex args), Sleep us2, Unlock (mutex args)],
         args\<lparr>thread_complete_success := True\<rparr>)))"

text \<open>
  The allocated \<open>thread_data\<close> structures are a heap; the value is what is returned, the heap after
  the call, and the address the new thread runs on if there is one. The second parameter is the
  address \<open>malloc\<close> gives, the third what \<open>pthread_create\<close> returns.
\<close>

definition start_thread_obtaining_mutex ::
  "(nat \<rightharpoonup> thread_data) \<Rightarrow> nat option \<Rightarrow> int \<Rightarrow> nat option \<Rightarrow> nat option \<Rightarrow> int \<Rightarrow> int \<Rightarrow>
     bool \<times> (nat \<rightharpoonup> thread_data) \<times> nat option" where
  "start_thread_obtaining_mutex heap malloc_result create_rc thread mtx obtain_ms release_ms =
     (case (thread, mtx) of
        (Some _, Some m) \<Rightarrow>
          (case malloc_result of
             None \<Rightarrow> (False, heap, None)
           | Some tdata \<Rightarrow>
               let heap = heap(tdata \<mapsto> \<lparr>mutex = m, wait_to_obtain_ms = obtain_ms,
                 wait_to_release_ms = release_ms, thread_complete_success = False\<rparr>) in
               if create_rc \<noteq> 0 then (False, heap(tdata := None), None)
               else (True, heap, Some tdata))
      | _ \<Rightarrow> (False, heap, None))"

section \<open>Threads that share the mutex\<close>

text \<open>Where a thread is; \<open>Done\<close> carries the success flag.\<close>

datatype place = Waiting | Obtaining | Holding | Releasing | Done bool

text \<open>One thread on its own: its next place, given the result of the call it makes there.\<close>

fun next_place :: "int \<Rightarrow> place \<Rightarrow> place" where
  "next_place rc Waiting = Obtaining"
| "next_place rc Obtaining = (if rc \<noteq> 0 then Done False else Holding)"
| "next_place rc Holding = Releasing"
| "next_place rc Releasing = Done (rc = 0)"
| "next_place rc (Done b) = Done b"

record shared =
  places :: "place list"
  owner :: "nat option"

text \<open>
  The steps of thread \<open>t\<close>. Locking waits while the mutex has an owner; the flag tells whether the
  mutex calls may fail.
\<close>

inductive thread_step :: "bool \<Rightarrow> shared \<Rightarrow> shared \<Rightarrow> bool" for may_fail where
  slept: "t < length (places s) \<Longrightarrow> places s ! t = Waiting \<Longrightarrow>
    thread_step may_fail s (s\<lparr>places := (places s)[t := next_place rc Waiting]\<rparr>)"
| locked: "t < length (places s) \<Longrightarrow> places s ! t = Obtaining \<Longrightarrow> owner s = None \<Longrightarrow>
    thread_step may_fail s (s\<lparr>places := (places s)[t := next_place 0 Obtaining], owner := Some t\<rparr>)"
| lock_failed: "may_fail \<Longrightarrow> t < length (places s) \<Longrightarrow> places s ! t = Obtaining \<Longrightarrow> rc \<noteq> 0 \<Longrightarrow>
    thread_step may_fail s (s\<lparr>places := (places s)[t := next_place rc Obtaining]\<rparr>)"
| held: "t < length (places s) \<Longrightarrow> places s ! t = Holding \<Longrightarrow>
    thread_step may_fail s (s\<lparr>places := (places s)[t := next_place rc Holding]\<rparr>)"
| unlocked: "t < length (places s) \<Longrightarrow> places s ! t = Releasing \<Longrightarrow>
    thread_step may_fail s (s\<lparr>places := (places s)[t := next_place 0 Releasing], owner := None\<rparr>)"
| unlock_failed: "may_fail \<Longrightarrow> t < length (places s) \<Longrightarrow> places s ! t = Releasing \<Longrightarrow> rc \<noteq> 0 \<Longrightarrow>
    thread_step may_fail s (s\<lparr>places := (places s)[t := next_place rc Releasing]\<rparr>)"

inductive_cases thread_stepE: "thread_step may_fail s s'"

definition threads_start :: "nat \<Rightarrow> shared" where
  "threads_start n = \<lparr>places = replicate n Waiting, owner = None\<rparr>"

text \<open>\<open>n\<close> threads, after \<open>k\<close> steps.\<close>

inductive runs_to :: "bool \<Rightarrow> nat \<Rightarrow> nat \<Rightarrow> shared \<Rightarrow> bool" for may_fail n where
  begins: "runs_to may_fail n 0 (threads_start n)"
| steps: "runs_to may_fail n k s \<Longrightarrow> thread_step may_fail s s' \<Longrightarrow> runs_to may_fail n (Suc k) s'"

definition critical :: "place \<Rightarrow> bool" where
  "critical p \<longleftrightarrow> p = Holding \<or> p = Releasing"

section \<open>Invariants\<close>

text \<open>A thread in its critical section is the owner.\<close>

definition owner_inv :: "shared \<Rightarrow> bool" where
  "owner_inv s \<longleftrightarrow> (\<forall>t < length (places s). critical (places s ! t) \<longrightarrow> owner s = Some t)"

text \<open>Without failures the owner is also in its critical section, and nobody ends unsuccessfully.\<close>

definition clean_inv :: "shared \<Rightarrow> bool" where
  "clean_inv s \<longleftrightarrow>
     (\<forall>t. owner s = Some t \<longrightarrow> t < length (places s) \<and> critical (places s ! t)) \<and>
     (\<forall>t < length (places s). places s ! t \<noteq> Done False)"

lemma critical_simps [simp]:
  "\<not> critical Waiting" "\<not> critical Obtaining" "critical Holding" "critical Releasing" "\<not> critical (Done b)"
  by (simp_all add: critical_def)

lemma owner_invD:
  "owner_inv s \<Longrightarrow> t < length (places s) \<Longrightarrow> critical (places s ! t) \<Longrightarrow> owner s = Some t"
  by (simp add: owner_inv_def)

text \<open>A step moves one thread; the invariant only has to be looked at there and in the owner.\<close>

lemma owner_inv_move:
  assumes "owner_inv s" and "t < length (places s)"
    and "critical p \<Longrightarrow> own = Some t"
    and "\<And>u. u \<noteq> t \<Longrightarrow> owner s = Some u \<Longrightarrow> u < length (places s) \<Longrightarrow> critical (places s ! u) \<Longrightarrow> own = Some u"
  shows "owner_inv (s\<lparr>places := (places s)[t := p], owner := own\<rparr>)"
  using assms by (auto simp: owner_inv_def nth_list_update)

lemma owner_inv_step:
  assumes inv: "owner_inv s" and step: "thread_step may_fail s s'"
  shows "owner_inv s'"
  using step
proof cases
  case (locked t)
  then show ?thesis using inv by (auto intro: owner_inv_move)
next
  case (unlocked t)
  then have "owner s = Some t" using owner_invD [OF inv] by simp
  then show ?thesis unfolding unlocked(1) using inv unlocked by (intro owner_inv_move) auto
qed (use owner_invD [OF inv] in \<open>auto simp: owner_inv_def nth_list_update\<close>,
  (metis critical_simps(3,4) option.inject owner_invD [OF inv])+)

lemma clean_inv_step:
  assumes "clean_inv s" and "thread_step False s s'"
  shows "clean_inv s'"
  using assms(2)
  by cases (use assms(1) in \<open>auto simp: clean_inv_def nth_list_update\<close>)

lemma runs_inv: "runs_to may_fail n k s \<Longrightarrow> owner_inv s \<and> (\<not> may_fail \<longrightarrow> clean_inv s) \<and> length (places s) = n"
proof (induction rule: runs_to.induct)
  case begins
  then show ?case by (simp add: owner_inv_def clean_inv_def threads_start_def)
next
  case (steps k s s')
  moreover have "length (places s') = length (places s)"
    using steps.hyps(2) by (rule thread_stepE) simp_all
  ultimately show ?case using owner_inv_step clean_inv_step by auto
qed

section \<open>Progress\<close>

text \<open>Every step brings a thread nearer to its end.\<close>

fun steps_left :: "place \<Rightarrow> nat" where
  "steps_left Waiting = 4"
| "steps_left Obtaining = 3"
| "steps_left Holding = 2"
| "steps_left Releasing = 1"
| "steps_left (Done _) = 0"

definition work_left :: "shared \<Rightarrow> nat" where
  "work_left s = sum_list (map steps_left (places s))"

lemma work_update:
  assumes "t < length (places s)" and "places s' = (places s)[t := p]"
  shows "work_left s' + steps_left (places s ! t) = work_left s + steps_left p"
  using sum_list_update_add [OF assms(1), of steps_left p] assms(2) by (simp add: work_left_def)

lemma work_step:
  assumes "thread_step may_fail s s'"
  shows "Suc (work_left s') \<le> work_left s \<and> (\<not> may_fail \<longrightarrow> Suc (work_left s') = work_left s)"
  using assms
proof cases
  case (slept t)
  then show ?thesis using work_update [of t s s' Obtaining] by simp
next
  case (locked t)
  then show ?thesis using work_update [of t s s' Holding] by simp
next
  case (lock_failed t)
  then show ?thesis using work_update [of t s s' "Done False"] by simp
next
  case (held t)
  then show ?thesis using work_update [of t s s' Releasing] by simp
next
  case (unlocked t)
  then show ?thesis using work_update [of t s s' "Done True"] by simp
next
  case (unlock_failed t)
  then show ?thesis using work_update [of t s s' "Done False"] by simp
qed

lemma runs_work:
  "runs_to may_fail n k s \<Longrightarrow> work_left s + k \<le> 4 * n \<and> (\<not> may_fail \<longrightarrow> work_left s + k = 4 * n)"
proof (induction rule: runs_to.induct)
  case begins
  then show ?case by (simp add: work_left_def threads_start_def sum_list_replicate)
next
  case (steps k s s')
  then show ?case using work_step [OF steps.hyps(2)] by linarith
qed

lemma steps_left_0 [simp]: "steps_left p = 0 \<longleftrightarrow> (\<exists>b. p = Done b)"
  by (cases p) auto

lemma can_go_on:
  assumes inv: "clean_inv s" and t: "t < length (places s)" "places s ! t \<noteq> Done True"
  shows "\<exists>s'. thread_step False s s'"
proof (cases "owner s")
  case None
  show ?thesis
  proof (cases "places s ! t")
    case (Done b)
    then show ?thesis using inv t by (cases b) (auto simp: clean_inv_def)
  qed (use t None thread_step.intros in blast)+
next
  case (Some u)
  then have "u < length (places s)" "critical (places s ! u)" using inv by (auto simp: clean_inv_def)
  then show ?thesis unfolding critical_def using held unlocked by blast
qed

section \<open>Properties\<close>

text \<open>C24. Mutual exclusion: however the threads interleave and whichever calls fail, no two of
  them are ever between a lock that succeeded and the return of their unlock.\<close>

theorem threads_exclude_each_other:
  assumes "runs_to may_fail n k s" and "t < n" and "u < n"
    and "critical (places s ! t)" and "critical (places s ! u)"
  shows "t = u"
  using runs_inv [OF assms(1)] owner_invD assms(2-5) by (metis option.inject)

theorem threads_exclude_each_other_witness:
  "\<exists>s. runs_to True 2 3 s \<and> places s = [Holding, Obtaining] \<and>
     (\<forall>t < 2. critical (places s ! t) \<longrightarrow> t = 0)"
proof -
  let ?s0 = "threads_start 2"
  let ?s1 = "?s0\<lparr>places := (places ?s0)[0 := next_place 0 Waiting]\<rparr>"
  let ?s2 = "?s1\<lparr>places := (places ?s1)[1 := next_place 0 Waiting]\<rparr>"
  let ?s3 = "?s2\<lparr>places := (places ?s2)[0 := next_place 0 Obtaining], owner := Some 0\<rparr>"
  have "runs_to True 2 (Suc 0) ?s1" by (rule steps [OF begins slept]) (simp_all add: threads_start_def)
  then have "runs_to True 2 (Suc (Suc 0)) ?s2" by (rule steps [OF _ slept]) (simp_all add: threads_start_def)
  then have "runs_to True 2 (Suc (Suc (Suc 0))) ?s3" by (rule steps [OF _ locked]) (simp_all add: threads_start_def)
  then have run: "runs_to True 2 3 ?s3" by (simp only: numeral_3_eq_3)
  moreover have at: "places ?s3 = [Holding, Obtaining]" by (simp add: threads_start_def numeral_2_eq_2)
  moreover have "\<forall>t < 2. critical (places ?s3 ! t) \<longrightarrow> t = 0"
    using threads_exclude_each_other [OF run _ _ _, of _ 0] at by auto
  ultimately show ?thesis by blast
qed

text \<open>C25. \<open>n\<close> threads finish: no interleaving has more than four steps per thread; and when no mutex
  call fails, an interleaving can go on until it has made exactly \<open>4 n\<close> steps, and then every thread
  is done and has reported success.\<close>

theorem threads_finish:
  assumes "runs_to may_fail n k s"
  shows "k \<le> 4 * n \<and>
    (\<not> may_fail \<longrightarrow> (k < 4 * n \<longleftrightarrow> (\<exists>s'. thread_step False s s')) \<and>
       (k = 4 * n \<longrightarrow> places s = replicate n (Done True) \<and> owner s = None))"
proof (cases may_fail)
  case True
  then show ?thesis using runs_work [OF assms] by simp
next
  case False
  then have inv: "clean_inv s" "length (places s) = n" and work: "work_left s + k = 4 * n"
    using runs_inv [OF assms] runs_work [OF assms] by auto
  have ended: "places s = replicate n (Done True)" if "k = 4 * n"
  proof -
    have "\<forall>t < n. \<exists>b. places s ! t = Done b" using work that inv(2) nth_mem by (fastforce simp: work_left_def)
    then have "\<forall>t < n. places s ! t = Done True" using inv unfolding clean_inv_def by metis
    then show ?thesis using inv(2) by (intro nth_equalityI) simp_all
  qed
  have going: "\<exists>s'. thread_step False s s'" if "k < 4 * n"
  proof -
    have "\<not> (\<forall>p \<in> set (places s). \<exists>b. p = Done b)"
    proof
      assume "\<forall>p \<in> set (places s). \<exists>b. p = Done b"
      then have "work_left s = 0" by (simp add: work_left_def)
      then show False using work that by simp
    qed
    then obtain p where "p \<in> set (places s)" "p \<noteq> Done True" by blast
    then show ?thesis using can_go_on [OF inv(1)] by (auto simp: in_set_conv_nth)
  qed
  have "k < 4 * n" if "thread_step False s s'" for s' using work_step [OF that] work by simp
  moreover have "owner s = None" if "k = 4 * n"
    using ended [OF that] inv by (cases "owner s") (auto simp: clean_inv_def)
  ultimately show ?thesis using ended going work by auto
qed

theorem threads_finish_witness:
  "\<exists>s'. thread_step False (threads_start 2) s'"
  using threads_finish [where may_fail = False and n = 2, OF begins] by simp

text \<open>A thread does what its data says, sleeping before it takes and before it releases the
  mutex. It returns the structure it was given with nothing but the success flag changed, and the
  flag is the one with which the thread ends in the interleaving model: true exactly when both
  mutex calls returned 0. A wait of more than 2147483 ms overflows the product with 1000.\<close>

theorem threadfunc_result:
  "threadfunc lock_rc unlock_rc args =
     (if \<bar>wait_to_obtain_ms args\<bar> > 2147483 \<or> (lock_rc = 0 \<and> \<bar>wait_to_release_ms args\<bar> > 2147483)
      then Inl Signed_Overflow
      else Inr
        ([Sleep (of_int (wait_to_obtain_ms args * 1000)), Lock (mutex args)] @
         (if lock_rc = 0 then [Sleep (of_int (wait_to_release_ms args * 1000)), Unlock (mutex args)] else []),
         args\<lparr>thread_complete_success :=
           ((next_place unlock_rc ^^ 2) (next_place lock_rc (next_place 0 Waiting)) = Done True)\<rparr>))"
  by (auto simp: threadfunc_def microseconds_def numeral_2_eq_2)

text \<open>\<open>start_thread_obtaining_mutex\<close> returns true exactly when a thread runs; that thread has a new
  structure with the arguments of the call. In every other case (a NULL argument, no memory, no
  thread) the heap is what it was, so nothing leaks.\<close>

theorem start_thread_result:
  assumes "\<And>p. malloc_result = Some p \<Longrightarrow> heap p = None"
  shows "start_thread_obtaining_mutex heap malloc_result create_rc thread mtx obtain_ms release_ms = r \<Longrightarrow>
    (case r of (ok, heap', running) \<Rightarrow>
      (ok \<longleftrightarrow> running \<noteq> None) \<and>
      (ok \<longleftrightarrow> thread \<noteq> None \<and> mtx \<noteq> None \<and> malloc_result \<noteq> None \<and> create_rc = 0) \<and>
      (\<not> ok \<longrightarrow> heap' = heap) \<and>
      (\<forall>p. running = Some p \<longrightarrow> heap p = None \<and>
         (\<exists>m. mtx = Some m \<and> heap' = heap(p \<mapsto> \<lparr>mutex = m, wait_to_obtain_ms = obtain_ms,
            wait_to_release_ms = release_ms, thread_complete_success = False\<rparr>))))"
  using assms
  by (auto simp: start_thread_obtaining_mutex_def Let_def fun_upd_idem split: option.splits if_splits)

theorem start_thread_result_witness:
  "fst (start_thread_obtaining_mutex Map.empty (Some 8) 0 (Some 1) (Some 2) 10 20)"
  using start_thread_result 
    [where malloc_result = "Some 8" and heap = Map.empty and create_rc = 0 and thread = "Some 1"
      and mtx = "Some 2" and obtain_ms = 10 and release_ms = 20, OF _ refl]
  by (auto split: prod.splits)

end
