(* ===== verification/Writer.thy ===== *)
theory Writer
  imports Prelude
begin

text \<open>
  \<open>finder-app/writer.c\<close>: write a string to a file. The answers of \<open>fopen\<close> and \<open>fprintf\<close> are
  arguments, and so is how many bytes reach the file: \<open>fprintf\<close> only fills a buffer, which is
  written by \<open>fclose\<close>, or at the exit, as far as the disk has room. The result says what \<open>main\<close> returns, what the file holds (\<open>None\<close> if it has not been
  opened), whether it was closed, and what was logged.
\<close>

section \<open>The code\<close>

text \<open>The five messages, with the values they print; all but the last are logged as \<open>LOG_ERR\<close>.\<close>

datatype message =
    Invalid_argument_count nat
  | Specify_two_arguments
  | Open_unsuccessful string
  | Write_unsuccessful
  | Writing string string

fun is_error :: "message \<Rightarrow> bool" where
  "is_error (Writing _ _) = False"
| "is_error _ = True"

record writer_run =
  exit_code :: int
  content_written :: "bytes option"
  file_closed :: bool
  messages :: "message list"

definition writer_main :: "bool \<Rightarrow> int \<Rightarrow> nat \<Rightarrow> string list \<Rightarrow> writer_run" where
  "writer_main fopen_ok fprintf_ret flushed argv =
     (let argc = length argv in
      if argc \<noteq> 3 then
        \<lparr>exit_code = 1, content_written = None, file_closed = False,
         messages = [Invalid_argument_count argc, Specify_two_arguments]\<rparr>
      else
        let file_to_write = argv ! 1; string_to_write = argv ! 2 in
        if \<not> fopen_ok then
          \<lparr>exit_code = 1, content_written = None, file_closed = False,
           messages = [Open_unsuccessful file_to_write]\<rparr>
        else if fprintf_ret < 0 then
          \<lparr>exit_code = 1, content_written = Some (take flushed string_to_write), file_closed = False, 
           messages = [Write_unsuccessful]\<rparr>
        else
          \<lparr>exit_code = 0, content_written = Some (take flushed string_to_write), file_closed = True,
           messages = [Writing string_to_write file_to_write]\<rparr>)"

section \<open>Properties\<close>

text \<open>\<open>writer\<close> exits with 0 exactly if it got two arguments and could open the file and print
  to it; the file is closed then, and one debug line is logged. In every other case it exits
  with 1 and logs an error; a file whose writing failed stays open. As the result of \<open>fclose\<close>
  is ignored, the exit status 0 does not say that the file holds the argument: it does only if
  all its bytes could be written.\<close>

theorem writer_result:
  "let w = writer_main fopen_ok ret flushed argv in
   (exit_code w = 0 \<longleftrightarrow> length argv = 3 \<and> fopen_ok \<and> 0 \<le> ret) \<and>
   (exit_code w = 0 \<longleftrightarrow> file_closed w) \<and>
   exit_code w \<in> {0, 1} \<and>
   (if exit_code w = 0
    then messages w = [Writing (argv ! 2) (argv ! 1)] \<and>
      (content_written w = Some (argv ! 2) \<longleftrightarrow> length (argv ! 2) \<le> flushed)
    else messages w \<noteq> [] \<and> list_all is_error (messages w))"
proof -
  have "take n s = s \<longleftrightarrow> length s \<le> n" for n and s :: string
    by (metis linorder_le_cases take_all_iff)
  then show ?thesis by (simp add: writer_main_def Let_def)
qed

end
