(* ===== verification/Autotest.thy ===== *)
theory Autotest
  imports Prelude
begin

text \<open>
  \<open>examples/autotest-validate\<close>: the functions a test harness calls, the program that prints what
  they return, and the test of the user name in \<open>student-test/assignment1\<close>. The name in the
  configuration is read by a function of a submodule and is an argument.
\<close>

definition this_function_returns_true :: bool where
  "this_function_returns_true = True"

definition this_function_returns_false :: bool where
  "this_function_returns_false = False"

definition my_username :: string where
  "my_username = ''jauy2310''"

definition git_username :: string where
  "git_username = ''jauy2310''"

text \<open>What \<open>main\<close> prints.\<close>

definition truth :: "bool \<Rightarrow> string" where
  "truth b = (if b then ''true'' else ''false'')"

definition autotest_main :: "bytes" where
  "autotest_main =
     ''this_function_returns_true returned '' @ truth this_function_returns_true @ [NL] @
     ''this_function_returns_false returned '' @ truth this_function_returns_false @ [NL]"

text \<open>\<open>TEST_ASSERT_EQUAL_STRING\<close>: two null pointers are equal, and otherwise two equal strings.\<close>

definition test_validate_my_username :: "string option \<Rightarrow> bool" where
  "test_validate_my_username conf_username = (Some my_username = conf_username)"

text \<open>The program prints the two values under their names, one line each; the name the test
  compares is the one the program has, and the test passes for that configuration only.\<close>

theorem autotest_result:
  "autotest_main = ''this_function_returns_true returned true'' @ [NL] @
     ''this_function_returns_false returned false'' @ [NL] \<and>
   (test_validate_my_username conf \<longleftrightarrow> conf = Some git_username)"
  by (auto simp: autotest_main_def truth_def this_function_returns_true_def this_function_returns_false_def
      test_validate_my_username_def my_username_def git_username_def)

end
