(* ===== verification/Spec2Isabelle.thy ===== *)
theory Spec2Isabelle
  imports Buffer_Theorems Device_Races Shared_File Seeking_Clients Client_Sending Server_Life Thread_Registry Systemcalls Threading Writer
    Autotest
begin

text \<open>
  A model of the programs of this repository and proofs about them: the AESD char device (a
  Linux kernel module that keeps the last ten lines written to it), the socket server that
  stores the lines of its clients in the device and sends them back, and the smaller C programs
  of the assignments.

  \<^bold>\<open>The program.\<close>

  \<^item> \<open>aesd-char-driver/aesd-circular-buffer.c\<close>: ten slots with the oldest overwritten first, and the
    search for the entry that holds a byte offset. \<open>Circular_Buffer\<close> has the record
    \<open>aesd_circular_buffer\<close>, its three functions and the \<open>FOREACH\<close> macro; \<open>Bounded_Fifo\<close> is the contract
    of such a buffer as a locale, interpreted there on the code's functions.

  \<^item> \<open>aesd-char-driver/main.c\<close>: the file operations over that buffer, with one incomplete command
    kept aside until its newline arrives. \<open>Char_Device\<close> has one definition per function (and one
    for each part of \<open>aesd_write\<close>); memory is the heap of \<open>C_Memory\<close>, where every \<open>kmalloc\<close> makes a
    new block and every access is checked. \<open>aesd_write\<close> runs \<open>write_gather\<close> (the caller's bytes
    behind the incomplete command), \<open>write_loop\<close> over \<open>write_command\<close> (one command per newline), and
    \<open>keep_excess\<close> (the rest becomes the incomplete command). The seeks read the buffer without the
    mutex of the device; \<open>Device_Races\<close> has them again, read by read, each read from the state that
    a write beside them has left.

  \<^item> \<open>server/aesdsocket.c\<close>. \<open>Thread_Manager\<close> has the singly linked list of client threads, on the level
    of pointers; \<open>Client_Handler\<close> the thread of one client: packets are collected byte by byte,
    written under a mutex, and the file is sent back; \<open>Server_Main\<close> the start, the accepting loop,
    the timer, signals, cleanup and the daemon, with the build switch as a part of the state. The
    server reaches its data file through \<open>write\<close>, \<open>read\<close> and \<open>ioctl\<close>, which are the record \<open>file_ops\<close>, together with what the connection takes of a \<open>send\<close>:
    \<open>Line_Device\<close> states as locales what the handler relies on, and \<open>Device_File\<close> interprets them on
    the model of the driver. \<open>Client_Sending\<close> has the same file with any connection. \<open>Decimal_Text\<close>
    has the numbers in the program's strings. \<open>Concurrent_Clients\<close> cuts
    the handler into the steps between which another thread can run, \<open>Client_Turns\<close> has what each
    step needs of a shared device and does to it, and \<open>Device_World\<close> the world of all clients on one
    device; \<open>Shared_Device\<close> and \<open>Seeking_Clients\<close> are about clients without and with seek commands. \<open>Plain_File\<close> and \<open>Timer\<close> have what
    only the build with \<open>USE_AESD_CHAR_DEVICE\<close> 0 has: a file opened with \<open>O_APPEND\<close>, on a disk that
    can refuse or shorten a write, and timestamps; \<open>File_World\<close> has the world of its clients and of
    its timer, whose alarms interrupt any thread, also one in the middle of \<open>syslog\<close>. In the rounds
    of \<open>accept_connections\<close> other threads mark their entries as complete, before the new entry is
    in the list or after.

  \<^item> \<open>examples/systemcalls\<close>, \<open>examples/threading\<close>, \<open>finder-app/writer.c\<close> and \<open>examples/autotest-validate\<close>
    with the test of the user name: \<open>Systemcalls\<close>, \<open>Threading\<close>, \<open>Writer\<close>, \<open>Autotest\<close>, each with its
    properties.

  \<^bold>\<open>Conventions.\<close> A fault of C (an access out of bounds, to freed memory or through \<open>NULL\<close>, a
  second free, a deadlock, a loop that does not end, signed overflow, a variable without a
  value, a signal that kills the process) is \<open>Inl\<close> with its kind, in the type \<open>res\<close> of \<open>Prelude\<close>; return codes of the
  program, errors included, are ordinary values under \<open>Inr\<close>. Machine integers that can wrap are
  words (\<open>u8\<close>, \<open>u32\<close>, \<open>u64\<close>). What the operating system answers (\<open>kmalloc\<close>, \<open>copy_from_user\<close>,
  \<open>accept\<close>, \<open>send\<close>, \<open>fork\<close>, which threads come to their end, ...) is an argument. Loops that need not end are \<open>partial_function (option)\<close>, and
  that they end is proved: there is no fuel anywhere.

  \<^bold>\<open>The lemmas.\<close>

  \<^item> \<open>Circular_Buffer\<close>, \<open>Buffer_Theorems\<close>: the buffer in age order (\<open>cb_list\<close>) and its invariant \<open>cb_wf\<close>;
    any number of additions keeps the last ten; the search is the search in the concatenation;
    on any buffer of the right shape nothing leaves the array.

  \<^item> \<open>Device_State\<close>, \<open>Device_Write\<close>, \<open>Device_Ops\<close>: the state of the device seen as its stored
    \<open>lines\<close> and the \<open>pending\<close> bytes, the invariant \<open>dev_inv\<close> (every block is owned exactly once), and
    what each operation does to this view; \<open>spec_write\<close> is the specification of a write, \<open>spec_seekto\<close>
    that of a seek by command, which counts \<open>slot_lines\<close>, the commands in the order of the array.
    \<open>Device_Faults\<close> has the error paths. \<open>Device_History\<close> has the reachable states.
    \<open>Device_Theorems\<close> has the properties. \<open>Device_Races\<close> shows that a write changes one slot at most,
    so that a seek beside it is one before or after it, and what two writes, or a write beside
    the error message of the \<open>ioctl\<close>, can do.

  \<^item> \<open>Line_Device\<close>, \<open>Client_Theorems\<close>: a connection refines \<open>serve_byte\<close>, however \<open>recv\<close> cuts the bytes;
    seek commands; the inputs on which the handler goes wrong. \<open>Client_Sending\<close>: what arrives over
    a connection that does not take everything, and when one that is reset ends the server.

  \<^item> \<open>Concurrent_Clients\<close>, \<open>Client_Turns\<close>, \<open>Device_World\<close>: the steps of a client that runs alone end
    as the sequential handler does, faults included; every interleaving keeps \<open>world_inv\<close>, so that packets are stored whole and
    in the order of each client, and each packet is accounted for in a log of events.
    \<open>Shared_Device\<close>: with plain packets no run faults or gets stuck. \<open>Seeking_Clients\<close>: where seeks go, and
    how one that fails stops all clients for ever.

  \<^item> \<open>Thread_List\<close>, \<open>Server_Theorems\<close>: the pointers from \<open>thread_manager\<close> form a list, and each operation
    does to it what its name says; the accepting loop, client addresses, signals, start and daemon.
    \<open>Thread_Registry\<close> states the list as a contract of the threads that use it and proves it
    refined by every sequence of their events. \<open>Server_Life\<close> puts
    the parts together: a server from its start to the signal that ends it, or to the first
    connection after a thread has completed, and a client from its connection to the next one.

  \<^item> \<open>Plain_File\<close>, \<open>Timer\<close>: what the other build stores and does not send back, the text of a
    timestamp, and which build handles which signals. \<open>File_World\<close>: every step of its clients and
    alarms keeps \<open>share_inv\<close>, whatever the disk answers. \<open>Shared_File\<close>: while the disk has room it
    keeps \<open>file_inv\<close> too, so that packets and timestamps are stored whole; no client gets stuck
    before a write is refused, and all of them do after that.

  \<^item> \<open>Systemcalls\<close>, \<open>Threading\<close>, \<open>Writer\<close>, \<open>Autotest\<close>: results on every branch; mutual exclusion and termination of
    threads that share a mutex.

  \<^bold>\<open>Bounds.\<close> The device theorems ask for less than \<open>2 ^ 63\<close> bytes in the device, because \<open>aesd_write\<close>
  and \<open>aesd_read\<close> return a \<open>ssize_t\<close>, and for at most one complete command per write, because of
  the fault that \<open>write_two_commands_out_of_bounds\<close> shows. The client theorems ask for packets
  below \<open>BUFFER_SIZE\<close>, because of \<open>client_packet_overflow\<close>; the server never writes two commands
  at once. Those about replies ask for a connection that takes all it is sent, and those about
  connections for IPv4 addresses.

  \<^bold>\<open>Not modelled.\<close> What the log lines print (but for \<open>aesd_print_cb\<close> and the thread list; where printing
  a string reads memory, that is modelled); socket options, the binding of addresses and the
  length of the queue of connections; a \<open>read\<close> of the plain file that fails (the handler's part
  of that is \<open>client_read_error_overruns\<close>); shell scripts and makefiles, which are other languages and
  only build, load and start these programs.
\<close>

end
